(* ===== verification/Prelude.thy ===== *)
theory Prelude
  imports Main "HOL-Library.Word" "HOL-Library.Finite_Map" "HOL-Library.Multiset"
    "HOL-Library.Sublist"
begin

text \<open>
  What the components share: Go errors as values, byte strings, the decimal rendering of
  \<open>fmt.Sprintf("%d")\<close> and its inverse, the iteration order of a Go map, and the lemmas on
  these that the component theories rely on.

  A Go \<open>string\<close> and a Go \<open>[]byte\<close> are both sequences of bytes; both are the HOL type
  \<open>string\<close> (a \<open>char\<close> of HOL is exactly one byte). A Go map is a finite map (\<open>fmap\<close>).
  An \<open>error\<close> result is \<open>go_error option\<close> (\<open>None\<close> is \<open>nil\<close>); a pair
  \<open>(value, error)\<close> of which exactly one is meaningful is the sum \<open>go_error + value\<close>.
\<close>

named_theorems frames \<open>what the operations of a component leave unchanged\<close>

subsection \<open>Errors\<close>

text \<open>
  An error built by \<open>errors.New\<close> or \<open>fmt.Errorf\<close> is kept unrendered: its format string,
  its value arguments and the errors it wraps or prints. \<open>Io_EOF\<close> and \<open>Ctx_Canceled\<close>
  are the two sentinel errors the sources compare with or return.
\<close>

datatype go_error =
    Io_EOF
  | Ctx_Canceled
  | Errorf string "string list" "go_error list"

subsection \<open>Decimal numbers\<close>

definition digit_char :: "nat \<Rightarrow> char" where
  "digit_char d = char_of (48 + d)"

definition is_digit :: "char \<Rightarrow> bool" where
  "is_digit c \<longleftrightarrow> 48 \<le> (of_char c :: nat) \<and> (of_char c :: nat) \<le> 57"

definition digit_val :: "char \<Rightarrow> nat" where
  "digit_val c = of_char c - 48"

fun nat_digits :: "nat \<Rightarrow> string" where
  "nat_digits n =
     (if n < 10 then [digit_char n] else nat_digits (n div 10) @ [digit_char (n mod 10)])"

declare nat_digits.simps [simp del]

text \<open>The verb \<open>%d\<close> applied to a signed integer.\<close>

definition fmt_d :: "int \<Rightarrow> string" where
  "fmt_d i = (if i < 0 then CHR ''-'' # nat_digits (nat (- i)) else nat_digits (nat i))"

definition read_nat :: "string \<Rightarrow> nat" where
  "read_nat = foldl (\<lambda>a c. 10 * a + digit_val c) 0"

lemma digit_char_props [simp]:
  assumes "d < 10"
  shows "is_digit (digit_char d)" and "digit_val (digit_char d) = d"
  using assms by (simp_all add: is_digit_def digit_val_def digit_char_def)

lemma nat_digits_digits: "list_all is_digit (nat_digits n)"
proof (induction n rule: nat_digits.induct)
  case (1 n)
  then show ?case by (subst nat_digits.simps) auto
qed

lemma nat_digits_nonempty [simp]: "nat_digits n \<noteq> []"
  by (subst nat_digits.simps) simp

lemma read_nat_snoc: "read_nat (xs @ [c]) = 10 * read_nat xs + digit_val c"
  by (simp add: read_nat_def)

lemma read_nat_digits [simp]: "read_nat (nat_digits n) = n"
proof (induction n rule: nat_digits.induct)
  case (1 n)
  show ?case
  proof (cases "n < 10")
    case True
    then show ?thesis by (subst nat_digits.simps) (simp add: read_nat_def)
  next
    case False
    then show ?thesis
      by (subst nat_digits.simps) (simp add: read_nat_snoc 1)
  qed
qed

lemma nat_digits_inject [simp]: "nat_digits a = nat_digits b \<longleftrightarrow> a = b"
  by (metis read_nat_digits)

text \<open>
  The number at the end of a rendered string can be read back, as long as the character
  before it is no digit. The ids and the synthetic keys of the program are told apart by
  this one fact.
\<close>

lemma takeWhile_digits:
  assumes "list_all is_digit ds" and "\<not> is_digit c"
  shows "takeWhile is_digit (ds @ c # xs) = ds" and "dropWhile is_digit (ds @ c # xs) = c # xs"
  using assms by (induction ds) auto

lemma digits_suffix_unique:
  assumes eq: "xs @ [c] @ nat_digits a = ys @ [d] @ nat_digits b"
    and nd: "\<not> is_digit c" "\<not> is_digit d"
  shows "xs = ys \<and> c = d \<and> a = b"
proof -
  have rev_digits: "list_all is_digit (rev (nat_digits n))" for n
    using nat_digits_digits [of n] by simp
  have eq': "rev (nat_digits a) @ c # rev xs = rev (nat_digits b) @ d # rev ys"
    using arg_cong [OF eq, of rev] by simp
  then have "takeWhile is_digit (rev (nat_digits a) @ c # rev xs) =
      takeWhile is_digit (rev (nat_digits b) @ d # rev ys)"
    and "dropWhile is_digit (rev (nat_digits a) @ c # rev xs) =
      dropWhile is_digit (rev (nat_digits b) @ d # rev ys)"
    by simp_all
  then show ?thesis
    by (simp add: takeWhile_digits [OF rev_digits] nd)
qed

subsection \<open>Parsing a signed 64-bit decimal\<close>

text \<open>
  \<open>strconv.ParseInt(s, 10, 64)\<close>: an optional sign, at least one digit, nothing else, and a
  value within the 64-bit range.
\<close>

definition parse_digits :: "string \<Rightarrow> nat option" where
  "parse_digits s = (if s \<noteq> [] \<and> list_all is_digit s then Some (read_nat s) else None)"

fun parse_signed :: "string \<Rightarrow> int option" where
  "parse_signed (c # s) =
     (if c = CHR ''-'' then map_option (\<lambda>n. - int n) (parse_digits s)
      else if c = CHR ''+'' then map_option int (parse_digits s)
      else map_option int (parse_digits (c # s)))"
| "parse_signed [] = None"

definition in_int64 :: "int \<Rightarrow> bool" where
  "in_int64 i \<longleftrightarrow> - (2 ^ 63) \<le> i \<and> i < 2 ^ 63"

definition ParseInt :: "string \<Rightarrow> go_error + int" where
  "ParseInt s =
     (case parse_signed s of
        None \<Rightarrow> Inl (Errorf ''strconv.ParseInt: parsing %q: invalid syntax'' [s] [])
      | Some i \<Rightarrow>
          if in_int64 i then Inr i
          else Inl (Errorf ''strconv.ParseInt: parsing %q: value out of range'' [s] []))"

lemma parse_digits_nat [simp]: "parse_digits (nat_digits n) = Some n"
  by (simp add: parse_digits_def nat_digits_digits)

lemma parse_signed_nat: "parse_signed (nat_digits n) = Some (int n)"
proof (cases "nat_digits n")
  case Nil
  then show ?thesis by simp
next
  case (Cons c s)
  then have "is_digit c" using nat_digits_digits [of n] by simp
  then have "c \<noteq> CHR ''-''" and "c \<noteq> CHR ''+''" by (auto simp: is_digit_def)
  then show ?thesis using parse_digits_nat [of n] by (simp add: Cons del: parse_digits_nat)
qed

lemma parse_signed_fmt_d: "parse_signed (fmt_d i) = Some i"
  by (auto simp: fmt_d_def parse_signed_nat)

lemma ParseInt_fmt_d: "in_int64 i \<Longrightarrow> ParseInt (fmt_d i) = Inr i"
  by (simp add: ParseInt_def parse_signed_fmt_d)

subsection \<open>Finite maps and their iteration order\<close>

text \<open>
  The order in which \<open>range\<close> visits a Go map is not specified. An operation that ranges
  over a map takes the visiting order as an argument: a list that names each key once.
\<close>

definition range_order :: "'k list \<Rightarrow> ('k, 'v) fmap \<Rightarrow> bool" where
  "range_order ks m \<longleftrightarrow> distinct ks \<and> set ks = fmdom' m"

lemma range_order_length: "range_order ks m \<Longrightarrow> length ks = fcard (fmdom m)"
  by (metis range_order_def distinct_card fcard.rep_eq fmdom'_alt_def)

lemma range_order_lookup: "range_order ks m \<Longrightarrow> k \<in> set ks \<longleftrightarrow> (\<exists>v. fmlookup m k = Some v)"
  by (auto simp: range_order_def fmdom'_def dom_def)

lemma in_set_map_filter: "x \<in> set (List.map_filter f xs) \<longleftrightarrow> (\<exists>k\<in>set xs. f k = Some x)"
  by (induction xs) (auto simp: map_filter_simps split: option.split)

lemma fcard_fmdom_upd:
  "fcard (fmdom (fmupd k v m)) =
     (if fmlookup m k = None then Suc (fcard (fmdom m)) else fcard (fmdom m))"
proof (cases "k |\<in>| fmdom m")
  case True
  then show ?thesis by (auto simp: finsert_absorb)
next
  case False
  then show ?thesis by (simp add: fcard_finsert_disjoint fmdom_notD)
qed

lemma fcard_fmdom_drop:
  "fcard (fmdom (fmdrop k m)) =
     (if fmlookup m k = None then fcard (fmdom m) else fcard (fmdom m) - 1)"
  by (auto simp: fcard.rep_eq fmlookup_dom_iff card_Diff_singleton_if)

end
