(* ===== verification/Envelope.thy ===== *)
theory Envelope
  imports Prelude
begin

text \<open>
  The message \<open>Envelope\<close> of \<open>proto/node.proto\<close> and its construction by \<open>newEnvelope\<close>
  in \<open>node/pending.go\<close>, with the fact that an id determines the node and the clock reading
  it was made from.
\<close>

record envelope =
  EnvId :: string
  Kind :: string
  Payload :: string
  Timestamp :: int

text \<open>
  A reading of \<open>time.Now()\<close> is its number of nanoseconds since 1970; \<open>UnixNano\<close> is that
  number and \<open>Unix\<close> the seconds, rounded down. \<open>newEnvelope\<close> reads the clock twice.
\<close>

definition UnixNano :: "int \<Rightarrow> int" where
  "UnixNano t = t"

definition Unix :: "int \<Rightarrow> int" where
  "Unix t = t div 1000000000"

definition newEnvelope :: "string \<Rightarrow> string \<Rightarrow> string \<Rightarrow> int \<Rightarrow> int \<Rightarrow> envelope" where
  "newEnvelope nodeID kind payload now1 now2 =
     \<lparr>EnvId = nodeID @ ''-'' @ fmt_d (UnixNano now1), Kind = kind, Payload = payload,
      Timestamp = Unix now2\<rparr>"

lemma newEnvelope_sel [simp]:
  "Kind (newEnvelope nid k p t1 t2) = k"
  "Payload (newEnvelope nid k p t1 t2) = p"
  "Timestamp (newEnvelope nid k p t1 t2) = Unix t2"
  by (simp_all add: newEnvelope_def)

text \<open>
  The id of an envelope is injective in the pair of node id and clock reading (not negative:
  after 1970), whatever the node id contains, hyphens and digits included.
\<close>

lemma newEnvelope_id_eq:
  assumes "0 \<le> t" and "0 \<le> t'"
  shows "EnvId (newEnvelope nid k p t u) = EnvId (newEnvelope nid' k' p' t' u') \<longleftrightarrow>
     nid = nid' \<and> t = t'"
proof
  assume "EnvId (newEnvelope nid k p t u) = EnvId (newEnvelope nid' k' p' t' u')"
  then have "nid @ [CHR ''-''] @ nat_digits (nat t) = nid' @ [CHR ''-''] @ nat_digits (nat t')"
    using assms by (simp add: newEnvelope_def UnixNano_def fmt_d_def)
  then have "nid = nid' \<and> nat t = nat t'"
    using digits_suffix_unique [of nid "CHR ''-''" "nat t" nid' "CHR ''-''" "nat t'"]
    by (simp add: is_digit_def)
  with assms show "nid = nid' \<and> t = t'" by (auto simp: eq_nat_nat_iff)
qed (simp add: newEnvelope_def)

end
