(* ===== verification/Go_Chan.thy ===== *)
theory Go_Chan
  imports Envelope
begin

text \<open>
  The buffered Go channel \<open>make(chan *proto.Envelope, 16)\<close> of \<open>transport/server.go\<close>: a
  FIFO of at most 16 envelopes. A channel is only ever used in two ways: a non-blocking send
  (\<open>select\<close> with a \<open>default\<close> branch) and a receive.
\<close>

definition chan_cap :: nat where
  "chan_cap = 16"

definition chan_offer :: "envelope list \<Rightarrow> envelope \<Rightarrow> envelope list option" where
  "chan_offer b env = (if length b < chan_cap then Some (b @ [env]) else None)"

definition chan_take :: "envelope list \<Rightarrow> (envelope \<times> envelope list) option" where
  "chan_take b = (case b of [] \<Rightarrow> None | env # b' \<Rightarrow> Some (env, b'))"

text \<open>
  The contract of a bounded FIFO, and what follows for any interleaving of offers and takes:
  what was taken, followed by what is still inside, is what was accepted, in order.
\<close>

locale bounded_fifo =
  fixes offer :: "'q \<Rightarrow> 'e \<Rightarrow> 'q option"
    and take_first :: "'q \<Rightarrow> ('e \<times> 'q) option"
    and contents :: "'q \<Rightarrow> 'e list"
    and cap :: nat
  assumes offer_accepts: "length (contents q) < cap \<Longrightarrow> \<exists>q'. offer q e = Some q' \<and> contents q' = contents q @ [e]"
    and offer_refuses: "\<not> length (contents q) < cap \<Longrightarrow> offer q e = None"
    and take_none: "take_first q = None \<longleftrightarrow> contents q = []"
    and take_some: "take_first q = Some (e, q') \<Longrightarrow> contents q = e # contents q'"
begin

lemma offer_Some: "offer q e = Some q' \<Longrightarrow> contents q' = contents q @ [e] \<and> length (contents q) < cap"
  using offer_accepts [of q e] offer_refuses [of q e] by (cases "length (contents q) < cap") auto

lemma offer_None: "offer q e = None \<longleftrightarrow> cap \<le> length (contents q)"
  using offer_accepts [of q e] offer_refuses [of q e] by (cases "length (contents q) < cap") auto

lemma offer_bounded: "offer q e = Some q' \<Longrightarrow> length (contents q') \<le> cap"
  using offer_Some [of q e q'] by simp

lemma take_bounded: "take_first q = Some (e, q') \<Longrightarrow> length (contents q) \<le> cap \<Longrightarrow> length (contents q') \<le> cap"
  using take_some [of q e q'] by simp

lemma fifo_order_offer:
  "taken @ contents q = accepted \<Longrightarrow> offer q e = Some q' \<Longrightarrow> taken @ contents q' = accepted @ [e]"
  using offer_Some [of q e q'] by auto

lemma fifo_order_take:
  "taken @ contents q = accepted \<Longrightarrow> take_first q = Some (e, q') \<Longrightarrow> (taken @ [e]) @ contents q' = accepted"
  using take_some [of q e q'] by simp

end

interpretation ch: bounded_fifo chan_offer chan_take "\<lambda>b. b" chan_cap
  by unfold_locales (auto simp: chan_offer_def chan_take_def split: list.splits)

end
