(* ===== verification/Metrics.thy ===== *)
theory Metrics
  imports Prelude
begin

text \<open>
  The Prometheus metrics of \<open>metrics/metrics.go\<close>: one process-wide registry, threaded
  through every operation that touches it. A vector maps its label values (the strings the
  sources pass to \<open>WithLabelValues\<close>) to the current value. Of the latency histogram only
  the number of observations per outcome is kept: durations are not modelled.
\<close>

record metrics =
  EnvelopesSent :: "string \<Rightarrow> nat"
  EnvelopesReceived :: "string \<Rightarrow> nat"
  EnvelopesDropped :: "string \<Rightarrow> string \<Rightarrow> nat"
  ChildConnections :: "string \<Rightarrow> int"
  ChildRejections :: nat
  ForwardLatencySeconds :: "string \<Rightarrow> nat"

definition initial_metrics :: metrics where
  "initial_metrics =
     \<lparr>EnvelopesSent = (\<lambda>_. 0), EnvelopesReceived = (\<lambda>_. 0), EnvelopesDropped = (\<lambda>_ _. 0),
      ChildConnections = (\<lambda>_. 0), ChildRejections = 0, ForwardLatencySeconds = (\<lambda>_. 0)\<rparr>"

definition inc_sent :: "string \<Rightarrow> metrics \<Rightarrow> metrics" where
  "inc_sent d m = m\<lparr>EnvelopesSent := (EnvelopesSent m)(d := EnvelopesSent m d + 1)\<rparr>"

definition inc_received :: "string \<Rightarrow> metrics \<Rightarrow> metrics" where
  "inc_received d m = m\<lparr>EnvelopesReceived := (EnvelopesReceived m)(d := EnvelopesReceived m d + 1)\<rparr>"

definition inc_dropped :: "string \<Rightarrow> string \<Rightarrow> metrics \<Rightarrow> metrics" where
  "inc_dropped d r m =
     m\<lparr>EnvelopesDropped := (EnvelopesDropped m)(d := (EnvelopesDropped m d)(r := EnvelopesDropped m d r + 1))\<rparr>"

definition inc_conn :: "string \<Rightarrow> metrics \<Rightarrow> metrics" where
  "inc_conn r m = m\<lparr>ChildConnections := (ChildConnections m)(r := ChildConnections m r + 1)\<rparr>"

definition dec_conn :: "string \<Rightarrow> metrics \<Rightarrow> metrics" where
  "dec_conn r m = m\<lparr>ChildConnections := (ChildConnections m)(r := ChildConnections m r - 1)\<rparr>"

definition inc_rejections :: "metrics \<Rightarrow> metrics" where
  "inc_rejections m = m\<lparr>ChildRejections := ChildRejections m + 1\<rparr>"

definition observe_latency :: "string \<Rightarrow> metrics \<Rightarrow> metrics" where
  "observe_latency l m =
     m\<lparr>ForwardLatencySeconds := (ForwardLatencySeconds m)(l := ForwardLatencySeconds m l + 1)\<rparr>"

lemmas metrics_defs = inc_sent_def inc_received_def inc_dropped_def inc_conn_def dec_conn_def
  inc_rejections_def observe_latency_def

lemma dec_inc_conn [simp]: "dec_conn r (inc_conn r m) = m"
  by (simp add: metrics_defs)

text \<open>What each update leaves alone, as rewrite rules for the components' frame conditions.\<close>

lemma metrics_sel [simp]:
  "EnvelopesSent (inc_sent d m) x = EnvelopesSent m x + (if x = d then 1 else 0)"
  "EnvelopesSent (inc_received d m) = EnvelopesSent m"
  "EnvelopesSent (inc_dropped d r m) = EnvelopesSent m"
  "EnvelopesSent (inc_conn d m) = EnvelopesSent m"
  "EnvelopesSent (dec_conn d m) = EnvelopesSent m"
  "EnvelopesSent (inc_rejections m) = EnvelopesSent m"
  "EnvelopesSent (observe_latency d m) = EnvelopesSent m"
  "EnvelopesReceived (inc_received d m) x = EnvelopesReceived m x + (if x = d then 1 else 0)"
  "EnvelopesReceived (inc_sent d m) = EnvelopesReceived m"
  "EnvelopesReceived (inc_conn d m) = EnvelopesReceived m"
  "EnvelopesReceived (dec_conn d m) = EnvelopesReceived m"
  "EnvelopesReceived (inc_rejections m) = EnvelopesReceived m"
  "EnvelopesDropped (inc_dropped d r m) x y =
     EnvelopesDropped m x y + (if x = d \<and> y = r then 1 else 0)"
  "EnvelopesDropped (inc_sent d m) = EnvelopesDropped m"
  "EnvelopesDropped (inc_conn d m) = EnvelopesDropped m"
  "EnvelopesDropped (dec_conn d m) = EnvelopesDropped m"
  "EnvelopesDropped (inc_received d m) = EnvelopesDropped m"
  "EnvelopesDropped (inc_rejections m) = EnvelopesDropped m"
  "ChildConnections (inc_conn d m) x = ChildConnections m x + (if x = d then 1 else 0)"
  "ChildConnections (dec_conn d m) x = ChildConnections m x - (if x = d then 1 else 0)"
  "ChildConnections (inc_sent d m) = ChildConnections m"
  "ChildConnections (inc_received d m) = ChildConnections m"
  "ChildConnections (inc_dropped d r m) = ChildConnections m"
  "ChildConnections (inc_rejections m) = ChildConnections m"
  "ChildConnections (observe_latency d m) = ChildConnections m"
  "ChildRejections (inc_rejections m) = ChildRejections m + 1"
  "ChildRejections (inc_sent d m) = ChildRejections m"
  "ChildRejections (inc_received d m) = ChildRejections m"
  "ChildRejections (inc_dropped d r m) = ChildRejections m"
  "ChildRejections (inc_conn d m) = ChildRejections m"
  "ChildRejections (dec_conn d m) = ChildRejections m"
  "ForwardLatencySeconds (observe_latency d m) x =
     ForwardLatencySeconds m x + (if x = d then 1 else 0)"
  "ForwardLatencySeconds (inc_sent d m) = ForwardLatencySeconds m"
  by (simp_all add: metrics_defs)

end
