(* ===== verification/Resolver_Auth.thy ===== *)
theory Resolver_Auth
  imports Prelude
begin

text \<open>
  \<open>resolver/resolver.go\<close> (where the parent is) and \<open>auth/auth.go\<close> (the TLS configurations
  of the two ends of a connection).

  Reading files and parsing PEM and X.509 are library code: \<open>tls_lib\<close> holds the three
  functions the source calls. A parsed pool or certificate is an opaque value, of type
  \<open>string\<close> here.
\<close>

subsection \<open>Resolver\<close>

record StaticResolver =
  addr :: string

definition NewStaticResolver :: "string \<Rightarrow> StaticResolver" where
  "NewStaticResolver a = \<lparr>addr = a\<rparr>"

definition ParentAddr :: "StaticResolver \<Rightarrow> go_error + string" where
  "ParentAddr r =
     (if addr r = '''' then
        Inl (Errorf ''resolver: no parent address configured (this node is a root)'' [] [])
      else Inr (addr r))"

text \<open>The law the client relies on: a resolver that succeeds returns an address.\<close>

locale parent_resolver =
  fixes parent_addr :: "'r \<Rightarrow> go_error + string"
  assumes addr_nonempty: "parent_addr r = Inr a \<Longrightarrow> a \<noteq> ''''"
begin

lemma empty_addr_never_returned: "parent_addr r \<noteq> Inr ''''"
  using addr_nonempty by blast

end

interpretation static: parent_resolver ParentAddr
  by unfold_locales (auto simp: ParentAddr_def split: if_splits)

lemma ParentAddr_NewStaticResolver:
  "ParentAddr (NewStaticResolver a) =
     (if a = '''' then Inl (Errorf ''resolver: no parent address configured (this node is a root)'' [] [])
      else Inr a)"
  by (simp add: ParentAddr_def NewStaticResolver_def)

subsection \<open>TLS configurations\<close>

datatype client_auth = NoClientCert | RequireAndVerifyClientCert

record tls_config =
  Certificates :: "string list"
  RootCAs :: "string option"
  ClientCAs :: "string option"
  ClientAuth :: client_auth

text \<open>The zero value of \<open>tls.Config\<close>, from which a composite literal starts.\<close>

definition zero_tls_config :: tls_config where
  "zero_tls_config =
     \<lparr>Certificates = [], RootCAs = None, ClientCAs = None, ClientAuth = NoClientCert\<rparr>"

record tls_lib =
  ReadFile :: "string \<Rightarrow> go_error + string"
  AppendCertsFromPEM :: "string \<Rightarrow> string option"
  LoadX509KeyPair :: "string \<Rightarrow> string \<Rightarrow> go_error + string"

record MTLSAuthenticator =
  caCertPath :: string
  certPath :: string
  keyPath :: string

definition NewMTLSAuthenticator :: "string \<Rightarrow> string \<Rightarrow> string \<Rightarrow> go_error + MTLSAuthenticator" where
  "NewMTLSAuthenticator ca cert key = Inr \<lparr>caCertPath = ca, certPath = cert, keyPath = key\<rparr>"

definition loadCAPool :: "tls_lib \<Rightarrow> MTLSAuthenticator \<Rightarrow> go_error + string" where
  "loadCAPool lib a =
     (case ReadFile lib (caCertPath a) of
        Inl err \<Rightarrow> Inl (Errorf ''read CA cert: %w'' [] [err])
      | Inr caPEM \<Rightarrow>
          (case AppendCertsFromPEM lib caPEM of
             None \<Rightarrow> Inl (Errorf ''failed to append CA cert from %s'' [caCertPath a] [])
           | Some pool \<Rightarrow> Inr pool))"

definition loadKeyPair :: "tls_lib \<Rightarrow> MTLSAuthenticator \<Rightarrow> go_error + string" where
  "loadKeyPair lib a =
     (case LoadX509KeyPair lib (certPath a) (keyPath a) of
        Inl err \<Rightarrow> Inl (Errorf ''load key pair: %w'' [] [err])
      | Inr cert \<Rightarrow> Inr cert)"

definition ClientTLSConfig :: "tls_lib \<Rightarrow> MTLSAuthenticator \<Rightarrow> go_error + tls_config" where
  "ClientTLSConfig lib a =
     (case loadCAPool lib a of
        Inl err \<Rightarrow> Inl err
      | Inr pool \<Rightarrow>
          (case loadKeyPair lib a of
             Inl err \<Rightarrow> Inl err
           | Inr cert \<Rightarrow> Inr (zero_tls_config\<lparr>Certificates := [cert], RootCAs := Some pool\<rparr>)))"

definition ServerTLSConfig :: "tls_lib \<Rightarrow> MTLSAuthenticator \<Rightarrow> go_error + tls_config" where
  "ServerTLSConfig lib a =
     (case loadCAPool lib a of
        Inl err \<Rightarrow> Inl err
      | Inr pool \<Rightarrow>
          (case loadKeyPair lib a of
             Inl err \<Rightarrow> Inl err
           | Inr cert \<Rightarrow>
               Inr (zero_tls_config\<lparr>Certificates := [cert], ClientCAs := Some pool,
                 ClientAuth := RequireAndVerifyClientCert\<rparr>)))"

text \<open>
  The interface \<open>Authenticator\<close> as \<open>transport\<close> declares it, and the mTLS authenticator as
  a value of it. \<open>creds\<close> are the transport credentials made from a configuration.
\<close>

record authenticator =
  authClientTLS :: "go_error + tls_config"
  authServerTLS :: "go_error + tls_config"

definition mtls :: "tls_lib \<Rightarrow> MTLSAuthenticator \<Rightarrow> authenticator" where
  "mtls lib a = \<lparr>authClientTLS = ClientTLSConfig lib a, authServerTLS = ServerTLSConfig lib a\<rparr>"

datatype creds = Insecure | TLS tls_config

lemma ServerTLSConfig_cases:
  "ServerTLSConfig lib a = Inr c \<longleftrightarrow>
     (\<exists>pem pool cert. ReadFile lib (caCertPath a) = Inr pem \<and> AppendCertsFromPEM lib pem = Some pool \<and>
        LoadX509KeyPair lib (certPath a) (keyPath a) = Inr cert \<and>
        c = \<lparr>Certificates = [cert], RootCAs = None, ClientCAs = Some pool,
             ClientAuth = RequireAndVerifyClientCert\<rparr>)"
  by (auto simp: ServerTLSConfig_def loadCAPool_def loadKeyPair_def zero_tls_config_def
      split: sum.splits option.splits)

lemma ClientTLSConfig_cases:
  "ClientTLSConfig lib a = Inr c \<longleftrightarrow>
     (\<exists>pem pool cert. ReadFile lib (caCertPath a) = Inr pem \<and> AppendCertsFromPEM lib pem = Some pool \<and>
        LoadX509KeyPair lib (certPath a) (keyPath a) = Inr cert \<and>
        c = \<lparr>Certificates = [cert], RootCAs = Some pool, ClientCAs = None,
             ClientAuth = NoClientCert\<rparr>)"
  by (auto simp: ClientTLSConfig_def loadCAPool_def loadKeyPair_def zero_tls_config_def
      split: sum.splits option.splits)

lemma TLSConfig_same_errors: "ServerTLSConfig lib a = Inl e \<longleftrightarrow> ClientTLSConfig lib a = Inl e"
  by (auto simp: ServerTLSConfig_def ClientTLSConfig_def split: sum.splits)

end
