(* ===== verification/Server.thy ===== *)
theory Server
  imports Go_Chan Metrics Resolver_Auth
begin

text \<open>
  \<open>transport/server.go\<close>: the server side of a node. Every method that takes \<open>s.mu\<close> is one
  atomic operation here. The channels made by \<open>registerChild\<close> live in a store (\<open>chans\<close>) and
  are referred to by number, since the map \<open>children\<close> and the handler goroutine of a child
  share one channel; \<open>next_chan\<close> is the number of the next one.
\<close>

subsection \<open>What a call carries\<close>

text \<open>
  A server-side context: the incoming gRPC metadata, if any, and the peer, if any, by its
  authentication info: for TLS the common names of the peer certificates, anything else
  (including none) is \<open>OtherAuthInfo\<close>.
\<close>

datatype auth_info = TLSInfo "string list" | OtherAuthInfo

record ctx =
  incoming_md :: "(string, string list) fmap option"
  peer_auth :: "auth_info option"

definition nodeIDMetadataKey :: string where
  "nodeIDMetadataKey = ''node-id''"

definition childNodeID :: "ctx \<Rightarrow> string" where
  "childNodeID c =
     (case incoming_md c of
        None \<Rightarrow> ''''
      | Some md \<Rightarrow>
          (case fmlookup md nodeIDMetadataKey of
             None \<Rightarrow> ''''
           | Some [] \<Rightarrow> ''''
           | Some (v # _) \<Rightarrow> v))"

subsection \<open>State\<close>

type_synonym chan = nat
type_synonym authorize_hook = "ctx \<Rightarrow> string \<Rightarrow> go_error option"

record PendingChild =
  NodeID :: string
  FirstSeen :: int
  LastReason :: go_error

text \<open>The gRPC server object: its transport credentials and whether it was stopped.\<close>

datatype grpc_server = GrpcServer (gs_creds: creds) (gs_stopped: bool)

record server =
  srv_authn :: "authenticator option"
  authorizeChild :: authorize_hook
  children :: "(string, chan) fmap"
  anonSeq :: "64 word"
  pending :: "(string, PendingChild) fmap"
  grpcServer :: "grpc_server option"
  chans :: "(chan, envelope list) fmap"
  next_chan :: chan

definition noopAuthorizeChild :: authorize_hook where
  "noopAuthorizeChild c nodeID = None"

definition NewServer :: "authenticator option \<Rightarrow> server" where
  "NewServer a =
     \<lparr>srv_authn = a, authorizeChild = noopAuthorizeChild, children = fmempty, anonSeq = 0,
      pending = fmempty, grpcServer = None, chans = fmempty, next_chan = 0\<rparr>"

definition SetAuthorizeChild :: "authorize_hook option \<Rightarrow> server \<Rightarrow> server" where
  "SetAuthorizeChild authorize s =
     s\<lparr>authorizeChild := (case authorize of None \<Rightarrow> noopAuthorizeChild | Some h \<Rightarrow> h)\<rparr>"

definition PendingChildren :: "string list \<Rightarrow> server \<Rightarrow> PendingChild list" where
  "PendingChildren ks s = List.map_filter (fmlookup (pending s)) ks"

definition ChildrenCount :: "server \<Rightarrow> nat" where
  "ChildrenCount s = fcard (fmdom (children s))"

text \<open>
  \<open>Listen\<close>: binding the address and serving are library calls, given by their results.
  The new gRPC server replaces whatever was in the field.
\<close>

definition Listen ::
  "(string \<Rightarrow> go_error option) \<Rightarrow> (creds \<Rightarrow> go_error option) \<Rightarrow> string \<Rightarrow> server \<Rightarrow> go_error option \<times> server"
where
  "Listen net_listen serve a s =
     (case net_listen a of
        Some err \<Rightarrow> (Some (Errorf ''listen on %s: %w'' [a] [err]), s)
      | None \<Rightarrow>
          (case srv_authn s of
             Some au \<Rightarrow>
               (case authServerTLS au of
                  Inl err \<Rightarrow> (Some (Errorf ''server tls config: %w'' [] [err]), s)
                | Inr cfg \<Rightarrow> (serve (TLS cfg), s\<lparr>grpcServer := Some (GrpcServer (TLS cfg) False)\<rparr>))
           | None \<Rightarrow> (serve Insecure, s\<lparr>grpcServer := Some (GrpcServer Insecure False)\<rparr>)))"

text \<open>\<open>Stop\<close> stops the gRPC server if there is one by now.\<close>

definition Stop :: "server \<Rightarrow> server" where
  "Stop s =
     (case grpcServer s of
        None \<Rightarrow> s
      | Some g \<Rightarrow> s\<lparr>grpcServer := Some (GrpcServer (gs_creds g) True)\<rparr>)"

subsection \<open>Channels in the store\<close>

definition chan_buf :: "chan \<Rightarrow> server \<Rightarrow> envelope list" where
  "chan_buf c s = (case fmlookup (chans s) c of None \<Rightarrow> [] | Some b \<Rightarrow> b)"

definition try_send :: "chan \<Rightarrow> envelope \<Rightarrow> server \<Rightarrow> server option" where
  "try_send c env s =
     map_option (\<lambda>b. s\<lparr>chans := fmupd c b (chans s)\<rparr>) (chan_offer (chan_buf c s) env)"

definition chan_recv :: "chan \<Rightarrow> server \<Rightarrow> (envelope \<times> server) option" where
  "chan_recv c s =
     map_option (\<lambda>(env, b). (env, s\<lparr>chans := fmupd c b (chans s)\<rparr>)) (chan_take (chan_buf c s))"

subsection \<open>Authorization and pending children\<close>

definition recordRejection :: "int \<Rightarrow> string \<Rightarrow> go_error \<Rightarrow> server \<Rightarrow> server" where
  "recordRejection now nodeID reason s =
     (if nodeID = '''' then s
      else if fmlookup (pending s) nodeID \<noteq> None then s
      else s\<lparr>pending := fmupd nodeID
               \<lparr>NodeID = nodeID, FirstSeen = now, LastReason = reason\<rparr> (pending s)\<rparr>)"

definition clearRejection :: "string \<Rightarrow> server \<Rightarrow> server" where
  "clearRejection nodeID s = s\<lparr>pending := fmdrop nodeID (pending s)\<rparr>"

definition authorize ::
  "int \<Rightarrow> ctx \<Rightarrow> string \<Rightarrow> server \<Rightarrow> metrics \<Rightarrow> go_error option \<times> server \<times> metrics"
where
  "authorize now c nodeID s m =
     (case authorizeChild s c nodeID of
        Some err \<Rightarrow>
          (Some (Errorf ''connection rejected: %w'' [] [err]),
           recordRejection now nodeID err s, inc_rejections m)
      | None \<Rightarrow> (None, clearRejection nodeID s, m))"

subsection \<open>Registration of children\<close>

definition anon_key :: "int \<Rightarrow> string" where
  "anon_key n = ''(anonymous-'' @ fmt_d n @ '')''"

definition dup_key :: "string \<Rightarrow> int \<Rightarrow> string" where
  "dup_key nodeID n = nodeID @ ''(dup-'' @ fmt_d n @ '')''"

definition registerChild :: "string \<Rightarrow> server \<Rightarrow> (string \<times> chan) \<times> server" where
  "registerChild nodeID s =
     (let (key, seq) =
        (if nodeID = '''' then (anon_key (sint (anonSeq s + 1)), anonSeq s + 1)
         else if fmlookup (children s) nodeID \<noteq> None
         then (dup_key nodeID (sint (anonSeq s + 1)), anonSeq s + 1)
         else (nodeID, anonSeq s));
        c = next_chan s
      in ((key, c),
          s\<lparr>anonSeq := seq, children := fmupd key c (children s),
            chans := fmupd c [] (chans s), next_chan := c + 1\<rparr>))"

definition unregisterChild :: "string \<Rightarrow> server \<Rightarrow> server" where
  "unregisterChild key s = s\<lparr>children := fmdrop key (children s)\<rparr>"

subsection \<open>Sending down\<close>

record BroadcastResult =
  Delivered :: nat
  Dropped :: "string list"

fun broadcast_loop ::
  "envelope \<Rightarrow> string list \<Rightarrow> BroadcastResult \<Rightarrow> server \<Rightarrow> metrics \<Rightarrow> BroadcastResult \<times> server \<times> metrics"
where
  "broadcast_loop env [] r s m = (r, s, m)"
| "broadcast_loop env (i # ks) r s m =
     (case fmlookup (children s) i of
        None \<Rightarrow> broadcast_loop env ks r s m
      | Some c \<Rightarrow>
          (case try_send c env s of
             Some s' \<Rightarrow>
               broadcast_loop env ks (r\<lparr>Delivered := Delivered r + 1\<rparr>) s' (inc_sent ''downstream'' m)
           | None \<Rightarrow>
               broadcast_loop env ks (r\<lparr>Dropped := Dropped r @ [i]\<rparr>) s
                 (inc_dropped ''downstream'' ''buffer_full'' m)))"

text \<open>The first argument is the order in which \<open>range s.children\<close> visits the map.\<close>

definition BroadcastDownstream ::
  "string list \<Rightarrow> envelope \<Rightarrow> server \<Rightarrow> metrics \<Rightarrow> (BroadcastResult \<times> go_error option) \<times> server \<times> metrics"
where
  "BroadcastDownstream ks env s m =
     (case broadcast_loop env ks \<lparr>Delivered = 0, Dropped = []\<rparr> s m of
        (r, s', m') \<Rightarrow>
          ((r, if 0 < length (Dropped r)
               then Some (Errorf ''send buffer full for %d of %d children: %v''
                      ([fmt_d (int (length (Dropped r))), fmt_d (int (ChildrenCount s))] @ Dropped r) [])
               else None), s', m'))"

definition SendToChild ::
  "string \<Rightarrow> envelope \<Rightarrow> server \<Rightarrow> metrics \<Rightarrow> go_error option \<times> server \<times> metrics"
where
  "SendToChild nodeID env s m =
     (case fmlookup (children s) nodeID of
        None \<Rightarrow> (Some (Errorf ''no child with node-id %q currently connected'' [nodeID] []), s, m)
      | Some c \<Rightarrow>
          (case try_send c env s of
             Some s' \<Rightarrow> (None, s', inc_sent ''downstream'' m)
           | None \<Rightarrow>
               (Some (Errorf ''send buffer full for child %q, dropped downstream kind=%q''
                        [nodeID, Kind env] []),
                s, inc_dropped ''downstream'' ''buffer_full'' m)))"

subsection \<open>The RPC handlers\<close>

text \<open>One turn of a handler's loop either goes on or returns the handler's error result.\<close>

datatype loop_outcome = Continue | Return "go_error option"

text \<open>
  The Downstream handler: its opening part, one turn of its \<open>select\<close> loop and its deferred
  cleanup. A turn is decided by which case is taken: the context is done, or an envelope is
  received and sent on the stream, with the result of that \<open>stream.Send\<close>.
\<close>

datatype downstream_choice = CtxDone go_error | EnvReady "go_error option"

definition Downstream_open ::
  "int \<Rightarrow> ctx \<Rightarrow> server \<Rightarrow> metrics \<Rightarrow> (go_error + string \<times> chan) \<times> server \<times> metrics"
where
  "Downstream_open now c s m =
     (let nodeID = childNodeID c in
      case authorize now c nodeID s m of
        (Some err, s', m') \<Rightarrow> (Inl err, s', m')
      | (None, s', m') \<Rightarrow>
          (case registerChild nodeID s' of
             (reg, s'') \<Rightarrow> (Inr reg, s'', inc_conn ''downstream'' m')))"

definition Downstream_turn ::
  "chan \<Rightarrow> downstream_choice \<Rightarrow> server \<Rightarrow> (loop_outcome \<times> envelope list \<times> server) option"
where
  "Downstream_turn c choice s =
     (case choice of
        CtxDone err \<Rightarrow> Some (Return (Some err), [], s)
      | EnvReady send_err \<Rightarrow>
          (case chan_recv c s of
             None \<Rightarrow> None
           | Some (env, s') \<Rightarrow>
               (case send_err of
                  Some err \<Rightarrow> Some (Return (Some err), [env], s')
                | None \<Rightarrow> Some (Continue, [env], s'))))"

definition Downstream_cleanup :: "string \<Rightarrow> server \<Rightarrow> metrics \<Rightarrow> server \<times> metrics" where
  "Downstream_cleanup key s m = (unregisterChild key s, dec_conn ''downstream'' m)"

text \<open>
  The Upstream handler. What \<open>onUpstream\<close> does to the rest of the process is a state \<open>'u\<close>
  it transforms together with the metrics; \<open>stream.Recv\<close> yields an envelope or an error.
\<close>

type_synonym 'u up_hook = "ctx \<Rightarrow> envelope \<Rightarrow> metrics \<times> 'u \<Rightarrow> go_error option \<times> metrics \<times> 'u"

datatype recv_result = RecvEnv envelope | RecvErr go_error

definition Upstream_open ::
  "int \<Rightarrow> ctx \<Rightarrow> server \<Rightarrow> metrics \<Rightarrow> go_error option \<times> server \<times> metrics"
where
  "Upstream_open now c s m =
     (case authorize now c (childNodeID c) s m of
        (Some err, s', m') \<Rightarrow> (Some err, s', m')
      | (None, s', m') \<Rightarrow> (None, s', inc_conn ''upstream'' m'))"

fun Upstream_turn ::
  "'u up_hook option \<Rightarrow> go_error option \<Rightarrow> ctx \<Rightarrow> recv_result \<Rightarrow> metrics \<times> 'u \<Rightarrow> loop_outcome \<times> metrics \<times> 'u"
where
  "Upstream_turn onUp ack_err c (RecvErr err) (m, u) =
     (if err = Io_EOF then (Return ack_err, m, u) else (Return (Some err), m, u))"
| "Upstream_turn onUp ack_err c (RecvEnv env) (m, u) =
     (let m1 = inc_received ''upstream'' m in
      case onUp of
        None \<Rightarrow> (Continue, m1, u)
      | Some h \<Rightarrow>
          (case h c env (m1, u) of
             (Some err, mu) \<Rightarrow> (Return (Some err), mu)
           | (None, mu) \<Rightarrow> (Continue, mu)))"

text \<open>
  The loop over what the stream yields; \<open>Continue\<close> after the last element is a handler that
  is still waiting in \<open>Recv\<close>. \<open>defer\<close> lowers the gauge when the handler returns.
\<close>

fun Upstream_loop ::
  "'u up_hook option \<Rightarrow> go_error option \<Rightarrow> ctx \<Rightarrow> recv_result list \<Rightarrow> metrics \<times> 'u \<Rightarrow> loop_outcome \<times> metrics \<times> 'u"
where
  "Upstream_loop onUp ack_err c [] mu = (Continue, mu)"
| "Upstream_loop onUp ack_err c (r # rs) mu =
     (case Upstream_turn onUp ack_err c r mu of
        (Return res, mu') \<Rightarrow> (Return res, mu')
      | (Continue, mu') \<Rightarrow> Upstream_loop onUp ack_err c rs mu')"

definition Upstream ::
  "'u up_hook option \<Rightarrow> go_error option \<Rightarrow> int \<Rightarrow> ctx \<Rightarrow> recv_result list \<Rightarrow> server \<Rightarrow> metrics \<Rightarrow> 'u
    \<Rightarrow> loop_outcome \<times> server \<times> metrics \<times> 'u"
where
  "Upstream onUp ack_err now c rs s m u =
     (case Upstream_open now c s m of
        (Some err, s', m') \<Rightarrow> (Return (Some err), s', m', u)
      | (None, s', m') \<Rightarrow>
          (case Upstream_loop onUp ack_err c rs (m', u) of
             (Return res, m'', u') \<Rightarrow> (Return res, s', dec_conn ''upstream'' m'', u')
           | (Continue, m'', u') \<Rightarrow> (Continue, s', m'', u')))"

end
