(* ===== verification/Server_Facts.thy ===== *)
theory Server_Facts
  imports Server
begin

text \<open>
  Facts about the single operations of \<open>Server\<close>: the synthetic keys, the well-formedness
  invariant and its preservation, the exact effect of a broadcast and its independence of the
  map's iteration order, and the abstract specification of the pending children.
\<close>

subsection \<open>Synthetic keys\<close>

definition is_synthetic :: "string \<Rightarrow> bool" where
  "is_synthetic k =
     (case rev k of
        [] \<Rightarrow> False
      | c # r \<Rightarrow>
          c = CHR '')'' \<and>
          (let p = rev (dropWhile is_digit r) in p = ''(anonymous-'' \<or> suffix ''(dup-'' p))"

lemma rev_digits: "list_all is_digit (rev (nat_digits n))"
  using nat_digits_digits [of n] by simp

lemma is_digit_hyphen [simp]: "\<not> is_digit (CHR ''-'')"
  by (simp add: is_digit_def)

lemma anon_key_synthetic [simp]: "0 \<le> n \<Longrightarrow> is_synthetic (anon_key n)"
  by (simp add: is_synthetic_def anon_key_def fmt_d_def Let_def takeWhile_digits [OF rev_digits])

lemma dup_key_synthetic [simp]: "0 \<le> n \<Longrightarrow> is_synthetic (dup_key b n)"
  by (simp add: is_synthetic_def dup_key_def fmt_d_def Let_def takeWhile_digits [OF rev_digits]
      suffix_def)

lemma keys_nonempty [simp]: "anon_key n \<noteq> []" "dup_key b n \<noteq> []" "[] \<noteq> anon_key n" "[] \<noteq> dup_key b n"
  by (auto simp: anon_key_def dup_key_def)

lemma synthetic_keys_unique:
  assumes "0 \<le> n" and "0 \<le> n'"
  shows "anon_key n = anon_key n' \<longleftrightarrow> n = n'"
    and "dup_key b n = dup_key b' n' \<longleftrightarrow> b = b' \<and> n = n'"
    and "anon_key n \<noteq> dup_key b n'"
proof -
  have core: "xs @ [CHR ''-''] @ nat_digits (nat n) @ '')'' = ys @ [CHR ''-''] @ nat_digits (nat n') @ '')'' \<Longrightarrow>
      xs = ys \<and> n = n'" for xs ys
    using assms digits_suffix_unique [of xs "CHR ''-''" "nat n" ys "CHR ''-''" "nat n'"]
    by (auto simp: eq_nat_nat_iff)
  show "anon_key n = anon_key n' \<longleftrightarrow> n = n'"
    using core [of "''(anonymous''" "''(anonymous''"] assms by (auto simp: anon_key_def fmt_d_def)
  show "dup_key b n = dup_key b' n' \<longleftrightarrow> b = b' \<and> n = n'"
    using core [of "b @ ''(dup''" "b' @ ''(dup''"] assms by (auto simp: dup_key_def fmt_d_def)
  show "anon_key n \<noteq> dup_key b n'"
  proof
    assume "anon_key n = dup_key b n'"
    then have "''(anonymous'' = b @ ''(dup''"
      using core [of "''(anonymous''" "b @ ''(dup''"] assms by (simp add: anon_key_def dup_key_def fmt_d_def)
    then have "rev ''(anonymous'' = rev (b @ ''(dup'')" by (rule arg_cong)
    then show False by simp
  qed
qed

subsection \<open>The store of channels\<close>

lemma try_send_eq:
  "try_send c env s =
     (if length (chan_buf c s) < chan_cap
      then Some (s\<lparr>chans := fmupd c (chan_buf c s @ [env]) (chans s)\<rparr>) else None)"
  by (simp add: try_send_def chan_offer_def)

lemma chan_recv_eq:
  "chan_recv c s =
     (case chan_buf c s of [] \<Rightarrow> None
      | env # b \<Rightarrow> Some (env, s\<lparr>chans := fmupd c b (chans s)\<rparr>))"
  by (simp add: chan_recv_def chan_take_def split: list.splits)

lemma chan_buf_upd [simp]:
  "chan_buf c (s\<lparr>chans := fmupd c' b (chans s)\<rparr>) = (if c = c' then b else chan_buf c s)"
  "chan_buf c (s\<lparr>children := ks\<rparr>) = chan_buf c s"
  "chan_buf c (s\<lparr>pending := p\<rparr>) = chan_buf c s"
  "chan_buf c (s\<lparr>authorizeChild := h\<rparr>) = chan_buf c s"
  by (simp_all add: chan_buf_def)

subsection \<open>Well-formedness\<close>

text \<open>
  Child entries refer to allocated channels, no two to the same one; no buffer is over its
  capacity; a pending entry is filed under the node id it names, never under the empty one.
\<close>

definition server_ok :: "server \<Rightarrow> bool" where
  "server_ok s \<longleftrightarrow>
     (\<forall>k c. fmlookup (children s) k = Some c \<longrightarrow> c < next_chan s \<and> k \<noteq> '''') \<and>
     (\<forall>k k' c. fmlookup (children s) k = Some c \<longrightarrow> fmlookup (children s) k' = Some c \<longrightarrow> k = k') \<and>
     (\<forall>c. length (chan_buf c s) \<le> chan_cap) \<and>
     (\<forall>k p. fmlookup (pending s) k = Some p \<longrightarrow> NodeID p = k \<and> k \<noteq> '''')"

lemma server_okD:
  assumes "server_ok s"
  shows "fmlookup (children s) k = Some c \<Longrightarrow> c < next_chan s"
    and "fmlookup (children s) k = Some c \<Longrightarrow> k \<noteq> ''''"
    and "fmlookup (children s) k = Some c \<Longrightarrow> fmlookup (children s) k' = Some c \<Longrightarrow> k = k'"
    and "length (chan_buf c s) \<le> chan_cap"
    and "fmlookup (pending s) k = Some p \<Longrightarrow> NodeID p = k"
    and "fmlookup (pending s) k = Some p \<Longrightarrow> k \<noteq> ''''"
  using assms by (auto simp: server_ok_def)

lemma server_ok_New [simp]: "server_ok (NewServer a)"
  by (simp add: server_ok_def NewServer_def chan_buf_def)

lemma server_ok_authorizeChild [simp]: "server_ok (s\<lparr>authorizeChild := h\<rparr>) = server_ok s"
  by (simp add: server_ok_def)

lemma server_ok_grpcServer [simp]: "server_ok (s\<lparr>grpcServer := g\<rparr>) = server_ok s"
  by (simp add: server_ok_def chan_buf_def)

lemma server_ok_SetAuthorizeChild [simp]: "server_ok (SetAuthorizeChild h s) = server_ok s"
  by (simp add: SetAuthorizeChild_def)

lemma server_ok_Listen: "server_ok s \<Longrightarrow> server_ok (snd (Listen net serve a s))"
  by (auto simp: Listen_def split: option.splits sum.splits)

lemma server_ok_set_buf:
  "server_ok s \<Longrightarrow> length b \<le> chan_cap \<Longrightarrow> server_ok (s\<lparr>chans := fmupd c b (chans s)\<rparr>)"
  unfolding server_ok_def by simp

lemma server_ok_try_send: "server_ok s \<Longrightarrow> try_send c env s = Some s' \<Longrightarrow> server_ok s'"
  by (auto simp: try_send_eq intro!: server_ok_set_buf split: if_splits)

lemma server_ok_chan_recv:
  assumes "server_ok s" and "chan_recv c s = Some (env, s')"
  shows "server_ok s'"
  using assms server_okD(4) [OF assms(1), of c]
  by (auto simp: chan_recv_eq intro!: server_ok_set_buf split: list.splits)

lemma server_ok_recordRejection: "server_ok s \<Longrightarrow> server_ok (recordRejection now i e s)"
  by (auto simp: server_ok_def recordRejection_def)

lemma server_ok_clearRejection: "server_ok s \<Longrightarrow> server_ok (clearRejection i s)"
  by (auto simp: server_ok_def clearRejection_def)

lemma server_ok_authorize:
  "server_ok s \<Longrightarrow> authorize now c i s m = (r, s', m') \<Longrightarrow> server_ok s'"
  by (auto simp: authorize_def server_ok_recordRejection server_ok_clearRejection split: option.splits)

lemma server_ok_unregisterChild: "server_ok s \<Longrightarrow> server_ok (unregisterChild k s)"
  by (auto simp: server_ok_def unregisterChild_def)

lemma registerChild_eq:
  "registerChild i s =
     (let seq = (if i = '''' \<or> fmlookup (children s) i \<noteq> None then anonSeq s + 1 else anonSeq s);
          key = (if i = '''' then anon_key (sint seq)
                 else if fmlookup (children s) i \<noteq> None then dup_key i (sint seq) else i)
      in ((key, next_chan s),
          s\<lparr>anonSeq := seq, children := fmupd key (next_chan s) (children s),
            chans := fmupd (next_chan s) [] (chans s), next_chan := next_chan s + 1\<rparr>))"
  by (simp add: registerChild_def Let_def)

lemma registerChild_frame:
  assumes "registerChild i s = ((key, c), s')"
  shows "c = next_chan s" "next_chan s' = next_chan s + 1"
    "children s' = fmupd key c (children s)" "pending s' = pending s"
    "authorizeChild s' = authorizeChild s" "srv_authn s' = srv_authn s" "grpcServer s' = grpcServer s"
    "chan_buf d s' = (if d = c then [] else chan_buf d s)" "key \<noteq> ''''"
  using assms by (auto simp: registerChild_eq Let_def chan_buf_def split: if_splits)

lemma server_ok_registerChild:
  assumes "server_ok s" and "registerChild i s = ((key, c), s')"
  shows "server_ok s'"
proof -
  note fr = registerChild_frame [OF assms(2)]
  show ?thesis
    unfolding server_ok_def fr(2-4)
    using server_okD [OF assms(1)] fr(1,8,9) by (auto simp: less_Suc_eq fr(8))
qed

lemma server_ok_Downstream_open:
  "server_ok s \<Longrightarrow> Downstream_open now c s m = (r, s', m') \<Longrightarrow> server_ok s'"
  by (auto simp: Downstream_open_def Let_def split: prod.splits option.splits
      dest: server_ok_authorize server_ok_registerChild)

lemma server_ok_Downstream_turn:
  "server_ok s \<Longrightarrow> Downstream_turn c ch s = Some (r, out, s') \<Longrightarrow> server_ok s'"
  by (auto simp: Downstream_turn_def split: downstream_choice.splits option.splits
      dest: server_ok_chan_recv)

subsection \<open>The effect of a broadcast\<close>

definition can_accept :: "server \<Rightarrow> string \<Rightarrow> bool" where
  "can_accept s k =
     (case fmlookup (children s) k of None \<Rightarrow> False | Some c \<Rightarrow> length (chan_buf c s) < chan_cap)"

lemma inc_commute: "inc_sent d (inc_dropped e r m) = inc_dropped e r (inc_sent d m)"
  by (simp add: metrics_defs)

lemma inc_sent_funpow:
  "(inc_dropped e r ^^ n) (inc_sent d m) = inc_sent d ((inc_dropped e r ^^ n) m)"
  by (induction n) (simp_all add: inc_commute)

text \<open>
  Delivering to one child leaves what the other children can accept unchanged, because no two
  children share a channel.
\<close>

lemma can_accept_other:
  assumes "server_ok s" and "fmlookup (children s) k = Some c" and "k' \<noteq> k"
  shows "can_accept (s\<lparr>chans := fmupd c b (chans s)\<rparr>) k' = can_accept s k'"
  using server_okD(3) [OF assms(1,2), of k'] assms(3)
  by (auto simp: can_accept_def split: option.splits)

lemma broadcast_loop_effect:
  assumes "server_ok s" and "distinct ks" and "\<forall>k\<in>set ks. fmlookup (children s) k \<noteq> None"
    and "broadcast_loop env ks r s m = (r', s', m')"
  shows "Delivered r' = Delivered r + length (filter (can_accept s) ks)
    \<and> Dropped r' = Dropped r @ filter (\<lambda>k. \<not> can_accept s k) ks
    \<and> s' = s\<lparr>chans := chans s'\<rparr>
    \<and> (\<forall>c. fmlookup (chans s') c =
          (if \<exists>k\<in>set ks. can_accept s k \<and> fmlookup (children s) k = Some c
           then Some (chan_buf c s @ [env]) else fmlookup (chans s) c))
    \<and> m' = (inc_sent ''downstream'' ^^ length (filter (can_accept s) ks))
           ((inc_dropped ''downstream'' ''buffer_full'' ^^ length (filter (\<lambda>k. \<not> can_accept s k) ks)) m)"
  using assms
proof (induction ks arbitrary: r s m)
  case Nil
  then show ?case by simp
next
  case (Cons k ks)
  then obtain c where c: "fmlookup (children s) k = Some c" by auto
  show ?case
  proof (cases "length (chan_buf c s) < chan_cap")
    case True
    let ?s = "s\<lparr>chans := fmupd c (chan_buf c s @ [env]) (chans s)\<rparr>"
    have acc: "can_accept s k" using c True by (simp add: can_accept_def)
    have ok: "server_ok ?s" using Cons.prems(1) True by (intro server_ok_set_buf) simp_all
    have same: "can_accept ?s k' = can_accept s k'" if "k' \<in> set ks" for k'
      by (rule can_accept_other [OF Cons.prems(1) c]) (use that Cons.prems(2) in auto)
    have neq: "fmlookup (children s) k' \<noteq> Some c" if "k' \<in> set ks" for k'
      using server_okD(3) [OF Cons.prems(1) c, of k'] that Cons.prems(2) by auto
    have filt: "filter (can_accept ?s) ks = filter (can_accept s) ks"
      "filter (\<lambda>k. \<not> can_accept ?s k) ks = filter (\<lambda>k. \<not> can_accept s k) ks"
      using same by (auto intro: filter_cong)
    have ex: "(\<exists>k'\<in>set ks. can_accept ?s k' \<and> fmlookup (children ?s) k' = Some d) \<longleftrightarrow>
        (\<exists>k'\<in>set ks. can_accept s k' \<and> fmlookup (children s) k' = Some d)" for d
      using same by auto
    have run: "broadcast_loop env ks (r\<lparr>Delivered := Delivered r + 1\<rparr>) ?s (inc_sent ''downstream'' m) = (r', s', m')"
      using Cons.prems(4) c True by (simp add: try_send_eq)
    have "\<forall>k\<in>set ks. fmlookup (children ?s) k \<noteq> None" using Cons.prems(3) by simp
    from Cons.IH [OF ok _ this run] Cons.prems(2)
    show ?thesis
      unfolding filt ex using acc c neq
      by (auto simp: funpow_swap1 inc_sent_funpow)
  next
    case False
    then have "\<not> can_accept s k" using c by (simp add: can_accept_def)
    moreover have "broadcast_loop env ks (r\<lparr>Dropped := Dropped r @ [k]\<rparr>) s
        (inc_dropped ''downstream'' ''buffer_full'' m) = (r', s', m')"
      using Cons.prems(4) c False by (simp add: try_send_eq)
    ultimately show ?thesis
      using Cons.IH [OF Cons.prems(1)] Cons.prems(2,3) c
      by (auto simp: funpow_swap1)
  qed
qed

text \<open>The whole broadcast, for any order in which the map is visited.\<close>

lemma BroadcastDownstream_effect:
  assumes ok: "server_ok s" and ord: "range_order ks (children s)"
    and run: "BroadcastDownstream ks env s m = ((r, e), s', m')"
  shows "Delivered r = length (filter (can_accept s) ks)"
    and "Dropped r = filter (\<lambda>k. \<not> can_accept s k) ks"
    and "e = None \<longleftrightarrow> Dropped r = []"
    and "s' = s\<lparr>chans := chans s'\<rparr>"
    and "fmlookup (chans s') c =
          (if \<exists>k. can_accept s k \<and> fmlookup (children s) k = Some c
           then Some (chan_buf c s @ [env]) else fmlookup (chans s) c)"
    and "m' = (inc_sent ''downstream'' ^^ Delivered r)
           ((inc_dropped ''downstream'' ''buffer_full'' ^^ length (Dropped r)) m)"
proof -
  from run obtain r0 where loop: "broadcast_loop env ks \<lparr>Delivered = 0, Dropped = []\<rparr> s m = (r0, s', m')"
    and r: "r = r0"
    and e: "e = None \<longleftrightarrow> Dropped r = []"
    by (auto simp: BroadcastDownstream_def split: prod.splits if_splits)
  have dist: "distinct ks" and all: "\<forall>k\<in>set ks. fmlookup (children s) k \<noteq> None"
    using ord by (auto simp: range_order_def fmlookup_dom'_iff)
  note eff = broadcast_loop_effect [OF ok dist all loop]
  show "e = None \<longleftrightarrow> Dropped r = []" by (rule e)
  show "Delivered r = length (filter (can_accept s) ks)"
    and "Dropped r = filter (\<lambda>k. \<not> can_accept s k) ks"
    and "s' = s\<lparr>chans := chans s'\<rparr>"
    and "m' = (inc_sent ''downstream'' ^^ Delivered r)
           ((inc_dropped ''downstream'' ''buffer_full'' ^^ length (Dropped r)) m)"
    using eff r by simp_all
  have "(\<exists>k\<in>set ks. can_accept s k \<and> fmlookup (children s) k = Some c) \<longleftrightarrow>
      (\<exists>k. can_accept s k \<and> fmlookup (children s) k = Some c)"
    using ord by (auto simp: range_order_lookup)
  then show "fmlookup (chans s') c =
          (if \<exists>k. can_accept s k \<and> fmlookup (children s) k = Some c
           then Some (chan_buf c s @ [env]) else fmlookup (chans s) c)"
    using eff by simp
qed

lemma BroadcastDownstream_total:
  assumes "server_ok s" and "range_order ks (children s)"
    and "BroadcastDownstream ks env s m = ((r, e), s', m')"
  shows "Delivered r + length (Dropped r) = ChildrenCount s"
  using BroadcastDownstream_effect(1,2) [OF assms] range_order_length [OF assms(2)]
    sum_length_filter_compl [of "can_accept s" ks]
  by (simp add: ChildrenCount_def)

lemma BroadcastDownstream_order:
  assumes ok: "server_ok s"
    and ord: "range_order ks (children s)" "range_order ks' (children s)"
    and run: "BroadcastDownstream ks env s m = ((r, e), s1, m1)"
    and run': "BroadcastDownstream ks' env s m = ((r', e'), s1', m1')"
  shows "Delivered r = Delivered r' \<and> mset (Dropped r) = mset (Dropped r') \<and>
    (e = None \<longleftrightarrow> e' = None) \<and> s1 = s1' \<and> m1 = m1'"
proof -
  note eff = BroadcastDownstream_effect [OF ok ord(1) run]
  note eff' = BroadcastDownstream_effect [OF ok ord(2) run']
  have "mset ks = mset ks'"
    using ord by (metis range_order_def set_eq_iff_mset_eq_distinct)
  then have d: "mset (Dropped r) = mset (Dropped r')"
    and n: "mset (filter (can_accept s) ks) = mset (filter (can_accept s) ks')"
    by (simp_all add: eff(2) eff'(2))
  from n have n': "Delivered r = Delivered r'"
    unfolding eff(1) eff'(1) by (rule mset_eq_length)
  from d have l: "length (Dropped r) = length (Dropped r')" by (rule mset_eq_length)
  have "chans s1 = chans s1'"
    by (rule fmap_ext) (simp only: eff(5) eff'(5))
  then have "s1 = s1'" using eff(4) eff'(4) by simp
  moreover have "m1 = m1'" unfolding eff(6) eff'(6) n' l ..
  moreover have "e = None \<longleftrightarrow> e' = None" using l by (auto simp: eff(3) eff'(3))
  ultimately show ?thesis using d n' by simp
qed

lemma server_ok_Broadcast:
  assumes ok: "server_ok s" and ord: "range_order ks (children s)"
    and run: "BroadcastDownstream ks env s m = (re, s', m')"
  shows "server_ok s'"
proof -
  obtain r e where re: "re = (r, e)" by (cases re)
  note eff = BroadcastDownstream_effect [OF ok ord run [unfolded re]]
  have fr: "children s' = children s" "pending s' = pending s" "next_chan s' = next_chan s"
    by (subst eff(4), simp)+
  have "length (chan_buf c s') \<le> chan_cap" for c
    using server_okD(4) [OF ok, of c] eff(5) [of c]
    by (auto simp: chan_buf_def [of c s'] can_accept_def chan_buf_def [of c s] split: option.splits if_splits)
  then show ?thesis using ok by (simp add: server_ok_def fr)
qed

subsection \<open>Sending to one child\<close>

lemma SendToChild_eq:
  "SendToChild k env s m =
     (case fmlookup (children s) k of
        None \<Rightarrow> (Some (Errorf ''no child with node-id %q currently connected'' [k] []), s, m)
      | Some c \<Rightarrow>
          if can_accept s k
          then (None, s\<lparr>chans := fmupd c (chan_buf c s @ [env]) (chans s)\<rparr>, inc_sent ''downstream'' m)
          else (Some (Errorf ''send buffer full for child %q, dropped downstream kind=%q'' [k, Kind env] []),
                s, inc_dropped ''downstream'' ''buffer_full'' m))"
  by (auto simp: SendToChild_def try_send_eq can_accept_def split: option.splits)

lemma server_ok_SendToChild: "server_ok s \<Longrightarrow> SendToChild k env s m = (e, s', m') \<Longrightarrow> server_ok s'"
  by (auto simp: SendToChild_eq can_accept_def intro!: server_ok_set_buf split: option.splits if_splits)

subsection \<open>Pending children: the abstract specification\<close>

text \<open>
  What an administrator is promised: a node id is pending exactly when its latest authorization
  was a rejection, and the entry shows the first rejection since its latest acceptance. The
  specification looks at the whole history of authorizations, oldest first, each with its time
  and its verdict (\<open>None\<close> for acceptance); the server keeps one entry per node id instead.
\<close>

type_synonym verdict = "string \<times> int \<times> go_error option"

fun pending_since :: "(int \<times> go_error option) list \<Rightarrow> (int \<times> go_error) option" where
  "pending_since [] = None"
| "pending_since ((t, None) # h) = pending_since h"
| "pending_since ((t, Some e) # h) =
     (if list_all (\<lambda>v. snd v \<noteq> None) h then Some (t, e) else pending_since h)"

definition pending_spec :: "string \<Rightarrow> verdict list \<Rightarrow> PendingChild option" where
  "pending_spec i h =
     map_option (\<lambda>(t, e). \<lparr>NodeID = i, FirstSeen = t, LastReason = e\<rparr>)
       (pending_since (map snd (filter (\<lambda>v. fst v = i) h)))"

text \<open>Running a sequence of authorizations: each a time, a context and a claimed node id.\<close>

fun authorize_all ::
  "(int \<times> ctx \<times> string) list \<Rightarrow> server \<Rightarrow> metrics \<Rightarrow> server \<times> metrics"
where
  "authorize_all [] s m = (s, m)"
| "authorize_all ((now, c, i) # as) s m =
     (case authorize now c i s m of (_, s', m') \<Rightarrow> authorize_all as s' m')"

lemma server_ok_authorize_all:
  "server_ok s \<Longrightarrow> authorize_all as s m = (s', m') \<Longrightarrow> server_ok s'"
proof (induction as arbitrary: s m)
  case (Cons a as)
  obtain now c i where a: "a = (now, c, i)" by (rule prod_cases3)
  obtain r s1 m1 where x: "authorize now c i s m = (r, s1, m1)" by (rule prod_cases3)
  from Cons server_ok_authorize [OF Cons.prems(1) x] show ?case by (simp add: a x)
qed simp

definition verdicts :: "authorize_hook \<Rightarrow> (int \<times> ctx \<times> string) list \<Rightarrow> verdict list" where
  "verdicts h = map (\<lambda>(now, c, i). (i, now, h c i))"

lemma pending_since_snoc:
  "pending_since (h @ [(t, v)]) =
     (case v of
        None \<Rightarrow> None
      | Some e \<Rightarrow> (case pending_since h of None \<Rightarrow> Some (t, e) | Some p \<Rightarrow> Some p))"
proof (induction h)
  case Nil
  then show ?case by (cases v) auto
next
  case (Cons a h)
  obtain u w where "a = (u, w)" by (cases a)
  with Cons show ?case by (cases w; cases v) (auto split: option.splits)
qed

lemma authorize_pending:
  assumes "authorize now c i s m = (r, s', m')" and "k \<noteq> ''''"
  shows "fmlookup (pending s') k =
     (if k \<noteq> i then fmlookup (pending s) k
      else (case authorizeChild s c i of
              None \<Rightarrow> None
            | Some e \<Rightarrow>
                (case fmlookup (pending s) i of
                   None \<Rightarrow> Some \<lparr>NodeID = i, FirstSeen = now, LastReason = e\<rparr>
                 | Some p \<Rightarrow> Some p)))"
    and "authorizeChild s' = authorizeChild s"
  using assms
  by (auto simp: authorize_def recordRejection_def clearRejection_def split: option.splits if_splits)

lemma pending_spec_snoc:
  "pending_spec k (h @ [(i, t, v)]) =
     (if k \<noteq> i then pending_spec k h
      else (case v of
              None \<Rightarrow> None
            | Some e \<Rightarrow>
                (case pending_spec k h of
                   None \<Rightarrow> Some \<lparr>NodeID = k, FirstSeen = t, LastReason = e\<rparr>
                 | Some p \<Rightarrow> Some p)))"
  by (auto simp: pending_spec_def pending_since_snoc split: option.splits)

lemma authorize_all_refines:
  assumes "authorizeChild s = h" and "k \<noteq> ''''"
    and "fmlookup (pending s) k = pending_spec k h0"
    and "authorize_all as s m = (s', m')"
  shows "fmlookup (pending s') k = pending_spec k (h0 @ verdicts h as)"
  using assms
proof (induction as arbitrary: s m h0)
  case Nil
  then show ?case by (simp add: verdicts_def)
next
  case (Cons a as)
  obtain now c i where a: "a = (now, c, i)" by (cases a)
  obtain r s1 m1 where run: "authorize now c i s m = (r, s1, m1)" by (cases "authorize now c i s m")
  have "fmlookup (pending s1) k = pending_spec k (h0 @ [(i, now, h c i)])"
    unfolding pending_spec_snoc authorize_pending(1) [OF run Cons.prems(2)] Cons.prems(1)
    using Cons.prems(3) by (cases "h c i") auto
  moreover have "authorizeChild s1 = h"
    using authorize_pending(2) [OF run Cons.prems(2)] Cons.prems(1) by simp
  moreover have "authorize_all as s1 m1 = (s', m')" using Cons.prems(4) by (simp add: a run)
  ultimately have "fmlookup (pending s') k = pending_spec k ((h0 @ [(i, now, h c i)]) @ verdicts h as)"
    using Cons.IH Cons.prems(2) by blast
  then show ?case by (simp add: verdicts_def a)
qed

subsection \<open>The Upstream loop\<close>

text \<open>What a hook that never fails does with a sequence of envelopes.\<close>

definition up_all :: "'u up_hook \<Rightarrow> ctx \<Rightarrow> envelope list \<Rightarrow> metrics \<times> 'u \<Rightarrow> metrics \<times> 'u" where
  "up_all h c envs mu = foldl (\<lambda>(m, u) env. snd (h c env (inc_received ''upstream'' m, u))) mu envs"

lemma Upstream_loop_all:
  assumes nofail: "\<And>env mu. fst (h c env mu) = None"
  shows "Upstream_loop (Some h) ack c (map RecvEnv envs @ RecvErr err # rest) mu =
     (Return (if err = Io_EOF then ack else Some err), up_all h c envs mu)"
proof (induction envs arbitrary: mu)
  case Nil
  obtain m u where "mu = (m, u)" by (cases mu)
  then show ?case by (simp add: up_all_def)
next
  case (Cons env envs)
  obtain m u where mu: "mu = (m, u)" by (cases mu)
  obtain m' u' where "h c env (inc_received ''upstream'' m, u) = (None, m', u')"
    using nofail [of env] by (metis prod.collapse)
  with Cons show ?case by (simp add: up_all_def mu)
qed

subsection \<open>Fresh keys\<close>

lemma sint_succ:
  assumes "0 \<le> sint (w :: 64 word)" and "sint w + 1 < 2 ^ 63"
  shows "sint (w + 1) = sint w + 1"
  using assms by (simp add: sint_word_ariths signed_take_bit_int_eq_self)

text \<open>
  The keys a server hands out: a claimed id that does not look synthetic, or a synthetic key
  with a sequence number that has been used.
\<close>

definition own_key :: "int \<Rightarrow> string \<Rightarrow> bool" where
  "own_key n k \<longleftrightarrow>
     \<not> is_synthetic k \<or> (\<exists>j. 1 \<le> j \<and> j \<le> n \<and> (k = anon_key j \<or> (\<exists>b. k = dup_key b j)))"

lemma own_key_mono: "own_key n k \<Longrightarrow> n \<le> n' \<Longrightarrow> own_key n' k"
  unfolding own_key_def by (metis order_trans)

lemma own_key_next:
  assumes "0 \<le> n"
  shows "\<not> own_key n (anon_key (n + 1))" and "\<not> own_key n (dup_key b (n + 1))"
    and "own_key (n + 1) (anon_key (n + 1))" and "own_key (n + 1) (dup_key b (n + 1))"
proof -
  show "\<not> own_key n (anon_key (n + 1))"
    using assms synthetic_keys_unique(1) [of "n + 1"] synthetic_keys_unique(3) [of "n + 1"]
    by (auto simp: own_key_def)
  show "\<not> own_key n (dup_key b (n + 1))"
    using assms synthetic_keys_unique(2) [of "n + 1"] synthetic_keys_unique(3) [of _ "n + 1"]
    by (auto simp: own_key_def dest: sym)
  show "own_key (n + 1) (anon_key (n + 1))" and "own_key (n + 1) (dup_key b (n + 1))"
    unfolding own_key_def using assms by (intro disjI2 exI [of _ "n + 1"]; auto)+
qed

lemma registerChild_fresh:
  assumes seq: "0 \<le> sint (anonSeq s)" "sint (anonSeq s) + 1 < 2 ^ 63"
    and claim: "\<not> is_synthetic i"
    and own: "\<forall>k c. fmlookup (children s) k = Some c \<longrightarrow> own_key (sint (anonSeq s)) k"
    and reg: "registerChild i s = ((key, c), s')"
  shows "fmlookup (children s) key = None" and "own_key (sint (anonSeq s')) key"
    and "sint (anonSeq s) \<le> sint (anonSeq s')" and "sint (anonSeq s') \<le> sint (anonSeq s) + 1"
proof -
  note nxt = own_key_next [OF seq(1)]
  have none: "fmlookup (children s) k = None" if "\<not> own_key (sint (anonSeq s)) k" for k
    using own that by (cases "fmlookup (children s) k") auto
  show "fmlookup (children s) key = None" and "own_key (sint (anonSeq s')) key"
    and "sint (anonSeq s) \<le> sint (anonSeq s')" and "sint (anonSeq s') \<le> sint (anonSeq s) + 1"
    using reg claim none [OF nxt(1)] none [OF nxt(2)] nxt(3,4)
    by (auto simp: registerChild_eq Let_def sint_succ [OF seq] own_key_def split: if_splits)
qed

end
