(* ===== verification/Server_System.thy ===== *)
theory Server_System
  imports Server_Facts
begin

text \<open>
  The server with all its goroutines: any number of Downstream and Upstream handlers, and
  callers of \<open>BroadcastDownstream\<close>, \<open>SendToChild\<close> and \<open>SetAuthorizeChild\<close>, interleaved at
  the granularity of the critical sections of \<open>s.mu\<close>. A Downstream handler authorizes, then
  registers, then takes turns of its loop until one returns, then runs its deferred cleanup;
  anything else may happen between these. A metric that a handler updates right after a
  critical section is updated in the same step.

  \<open>wire\<close> records what each handler has sent on its stream and \<open>put\<close> what was ever put into
  its channel; neither is read by the code.
\<close>

datatype phase = Running | Returning

record srv_sys =
  srv :: server
  mx :: metrics
  admitted :: "string multiset"
  live :: "(chan, string \<times> phase) fmap"
  ups :: nat
  wire :: "chan \<Rightarrow> envelope list"
  put :: "chan \<Rightarrow> envelope list"

definition init_sys :: "authenticator option \<Rightarrow> srv_sys" where
  "init_sys a =
     \<lparr>srv = NewServer a, mx = initial_metrics, admitted = {#}, live = fmempty, ups = 0,
      wire = (\<lambda>_. []), put = (\<lambda>_. [])\<rparr>"

text \<open>What an operation appended to each channel.\<close>

definition appended :: "server \<Rightarrow> server \<Rightarrow> chan \<Rightarrow> envelope list" where
  "appended s s' c = drop (length (chan_buf c s)) (chan_buf c s')"

text \<open>
  One step. The parameter \<open>P\<close> restricts the node ids that children claim. An Upstream
  handler's hook is any function, chosen anew at every step (so the state it may keep elsewhere
  in the process need not be carried along); it leaves the connection gauges alone, which are
  the server's own.
\<close>

inductive server_step :: "(string \<Rightarrow> bool) \<Rightarrow> srv_sys \<Rightarrow> srv_sys \<Rightarrow> bool" for P where
  down_authorized:
    "P (childNodeID c) \<Longrightarrow> authorize now c (childNodeID c) (srv y) (mx y) = (None, s', m') \<Longrightarrow>
     server_step P y (y\<lparr>srv := s', mx := m', admitted := add_mset (childNodeID c) (admitted y)\<rparr>)"
| down_rejected:
    "authorize now c (childNodeID c) (srv y) (mx y) = (Some e, s', m') \<Longrightarrow>
     server_step P y (y\<lparr>srv := s', mx := m'\<rparr>)"
| down_register:
    "i \<in># admitted y \<Longrightarrow> registerChild i (srv y) = ((key, ch), s') \<Longrightarrow>
     server_step P y (y\<lparr>srv := s', mx := inc_conn ''downstream'' (mx y),
       admitted := admitted y - {#i#}, live := fmupd ch (key, Running) (live y)\<rparr>)"
| down_continue:
    "fmlookup (live y) ch = Some (key, Running) \<Longrightarrow>
     Downstream_turn ch choice (srv y) = Some (Continue, out, s') \<Longrightarrow>
     server_step P y (y\<lparr>srv := s', wire := (wire y)(ch := wire y ch @ out)\<rparr>)"
| down_return:
    "fmlookup (live y) ch = Some (key, Running) \<Longrightarrow>
     Downstream_turn ch choice (srv y) = Some (Return res, out, s') \<Longrightarrow>
     server_step P y (y\<lparr>srv := s', wire := (wire y)(ch := wire y ch @ out),
       live := fmupd ch (key, Returning) (live y)\<rparr>)"
| down_cleanup:
    "fmlookup (live y) ch = Some (key, Returning) \<Longrightarrow>
     Downstream_cleanup key (srv y) (mx y) = (s', m') \<Longrightarrow>
     server_step P y (y\<lparr>srv := s', mx := m', live := fmdrop ch (live y)\<rparr>)"
| broadcast:
    "range_order ks (children (srv y)) \<Longrightarrow>
     BroadcastDownstream ks env (srv y) (mx y) = (res, s', m') \<Longrightarrow>
     server_step P y (y\<lparr>srv := s', mx := m', put := (\<lambda>c. put y c @ appended (srv y) s' c)\<rparr>)"
| send_to_child:
    "SendToChild i env (srv y) (mx y) = (err, s', m') \<Longrightarrow>
     server_step P y (y\<lparr>srv := s', mx := m', put := (\<lambda>c. put y c @ appended (srv y) s' c)\<rparr>)"
| up_opened:
    "Upstream_open now c (srv y) (mx y) = (None, s', m') \<Longrightarrow>
     server_step P y (y\<lparr>srv := s', mx := m', ups := ups y + 1\<rparr>)"
| up_rejected:
    "Upstream_open now c (srv y) (mx y) = (Some e, s', m') \<Longrightarrow>
     server_step P y (y\<lparr>srv := s', mx := m'\<rparr>)"
| up_continue:
    "0 < ups y \<Longrightarrow> Upstream_turn onUp ack c r (mx y, ()) = (Continue, m', ()) \<Longrightarrow>
     ChildConnections m' = ChildConnections (mx y) \<Longrightarrow>
     server_step P y (y\<lparr>mx := m'\<rparr>)"
| up_return:
    "0 < ups y \<Longrightarrow> Upstream_turn onUp ack c r (mx y, ()) = (Return res, m', ()) \<Longrightarrow>
     ChildConnections m' = ChildConnections (mx y) \<Longrightarrow>
     server_step P y (y\<lparr>mx := dec_conn ''upstream'' m', ups := ups y - 1\<rparr>)"
| set_hook:
    "server_step P y (y\<lparr>srv := SetAuthorizeChild h (srv y)\<rparr>)"

inductive server_reach :: "(string \<Rightarrow> bool) \<Rightarrow> srv_sys \<Rightarrow> bool" for P where
  reach_init: "server_reach P (init_sys a)"
| reach_step: "server_reach P y \<Longrightarrow> server_step P y y' \<Longrightarrow> server_reach P y'"

subsection \<open>How single operations act on channels, children and gauges\<close>

lemma authorize_frame:
  assumes "authorize now c i s m = (r, s', m')"
  shows "children s' = children s" "chan_buf d s' = chan_buf d s" "next_chan s' = next_chan s"
    "anonSeq s' = anonSeq s" "ChildConnections m' = ChildConnections m"
  using assms
  by (auto simp: authorize_def recordRejection_def clearRejection_def chan_buf_def
      split: option.splits if_splits)

lemma Upstream_open_frame:
  assumes "Upstream_open now c s m = (r, s', m')"
  shows "children s' = children s" "chan_buf d s' = chan_buf d s" "next_chan s' = next_chan s"
    "anonSeq s' = anonSeq s"
    "ChildConnections m' = (if r = None then ChildConnections (inc_conn ''upstream'' m) else ChildConnections m)"
    "server_ok s \<Longrightarrow> server_ok s'"
proof -
  obtain r0 s0 m0 where a: "authorize now c (childNodeID c) s m = (r0, s0, m0)"
    by (cases "authorize now c (childNodeID c) s m")
  note fr = authorize_frame [OF a]
  have "s' = s0" and "r = r0" and "m' = (if r = None then inc_conn ''upstream'' m0 else m0)"
    using assms a by (auto simp: Upstream_open_def split: option.splits)
  then show "children s' = children s" "chan_buf d s' = chan_buf d s" "next_chan s' = next_chan s"
    "anonSeq s' = anonSeq s"
    "ChildConnections m' = (if r = None then ChildConnections (inc_conn ''upstream'' m) else ChildConnections m)"
    "server_ok s \<Longrightarrow> server_ok s'"
    using fr a by (auto simp: inc_conn_def intro: server_ok_authorize)
qed

lemma Downstream_turn_frame:
  assumes "Downstream_turn ch choice s = Some (r, out, s')"
  shows "children s' = children s" "next_chan s' = next_chan s" "anonSeq s' = anonSeq s"
    "chan_buf ch s = out @ chan_buf ch s'" "d \<noteq> ch \<Longrightarrow> chan_buf d s' = chan_buf d s"
  using assms
  by (auto simp: Downstream_turn_def chan_recv_eq chan_buf_def
      split: downstream_choice.splits option.splits list.splits)

lemma unregisterChild_frame [simp]:
  "children (unregisterChild k s) = fmdrop k (children s)"
  "chan_buf c (unregisterChild k s) = chan_buf c s"
  "next_chan (unregisterChild k s) = next_chan s"
  "anonSeq (unregisterChild k s) = anonSeq s"
  by (simp_all add: unregisterChild_def)

lemma SetAuthorizeChild_frame [simp]:
  "children (SetAuthorizeChild h s) = children s"
  "chan_buf c (SetAuthorizeChild h s) = chan_buf c s"
  "next_chan (SetAuthorizeChild h s) = next_chan s"
  "anonSeq (SetAuthorizeChild h s) = anonSeq s"
  by (simp_all add: SetAuthorizeChild_def)

lemmas [frames] = authorize_frame Upstream_open_frame(1-4) Downstream_turn_frame(1-3)

text \<open>The sending operations only append to channels that belong to a child.\<close>

definition sends_only :: "server \<Rightarrow> server \<Rightarrow> bool" where
  "sends_only s s' \<longleftrightarrow>
     children s' = children s \<and> next_chan s' = next_chan s \<and> anonSeq s' = anonSeq s \<and>
     (\<forall>c. (\<exists>es. chan_buf c s' = chan_buf c s @ es) \<and>
          (chan_buf c s' \<noteq> chan_buf c s \<longrightarrow> (\<exists>k. fmlookup (children s) k = Some c)))"

lemma sends_only_Broadcast:
  assumes "server_ok s" and "range_order ks (children s)"
    and "BroadcastDownstream ks env s m = (re, s', m')"
  shows "sends_only s s'" and "ChildConnections m' = ChildConnections m"
proof -
  obtain r e where "re = (r, e)" by (cases re)
  note eff = BroadcastDownstream_effect [OF assms(1,2) assms(3) [unfolded this]]
  have fr: "children s' = children s" "next_chan s' = next_chan s" "anonSeq s' = anonSeq s"
    by (subst eff(4), simp)+
  have "chan_buf c s' = (if \<exists>k. can_accept s k \<and> fmlookup (children s) k = Some c
      then chan_buf c s @ [env] else chan_buf c s)" for c
    using eff(5) [of c] by (auto simp: chan_buf_def)
  then show "sends_only s s'" by (auto simp: sends_only_def fr)
  have "ChildConnections ((inc_sent a ^^ n) m) = ChildConnections m"
    and "ChildConnections ((inc_dropped a b ^^ n) m) = ChildConnections m" for a b n m
    by (induction n) simp_all
  then show "ChildConnections m' = ChildConnections m" using eff(6) by simp
qed

lemma sends_only_SendToChild:
  assumes "SendToChild k env s m = (e, s', m')"
  shows "sends_only s s'" and "ChildConnections m' = ChildConnections m"
  using assms by (auto simp: SendToChild_eq sends_only_def split: option.splits if_splits)

lemma appended_sends_only: "sends_only s s' \<Longrightarrow> chan_buf c s @ appended s s' c = chan_buf c s'"
  by (metis append_eq_conv_conj appended_def sends_only_def)

subsection \<open>The invariant\<close>

definition sys_fifo :: "srv_sys \<Rightarrow> bool" where
  "sys_fifo y \<longleftrightarrow>
     (\<forall>c. put y c = wire y c @ chan_buf c (srv y)) \<and>
     (\<forall>c. next_chan (srv y) \<le> c \<longrightarrow> put y c = [])"

definition sys_live :: "srv_sys \<Rightarrow> bool" where
  "sys_live y \<longleftrightarrow>
     (\<forall>c kp. fmlookup (live y) c = Some kp \<longrightarrow> c < next_chan (srv y)) \<and>
     (\<forall>k c. fmlookup (children (srv y)) k = Some c \<longrightarrow> (\<exists>ph. fmlookup (live y) c = Some (k, ph)))"

definition sys_gauges :: "srv_sys \<Rightarrow> bool" where
  "sys_gauges y \<longleftrightarrow>
     ChildConnections (mx y) ''downstream'' = int (fcard (fmdom (live y))) \<and>
     ChildConnections (mx y) ''upstream'' = int (ups y)"

definition sys_inv :: "srv_sys \<Rightarrow> bool" where
  "sys_inv y \<longleftrightarrow> server_ok (srv y) \<and> sys_fifo y \<and> sys_live y \<and> sys_gauges y"

lemma sys_inv_init: "sys_inv (init_sys a)"
  by (simp add: sys_inv_def sys_fifo_def sys_live_def sys_gauges_def init_sys_def NewServer_def
      chan_buf_def initial_metrics_def server_ok_def)

lemma server_step_ok: "server_step P y y' \<Longrightarrow> server_ok (srv y) \<Longrightarrow> server_ok (srv y')"
proof (induction rule: server_step.induct)
  case (down_cleanup y ch key s' m')
  then show ?case by (auto simp: Downstream_cleanup_def server_ok_unregisterChild)
qed (auto dest: server_ok_authorize server_ok_registerChild server_ok_Downstream_turn
      server_ok_Broadcast server_ok_SendToChild Upstream_open_frame(6))

lemma sys_fifoD:
  assumes "sys_fifo y"
  shows "put y c = wire y c @ chan_buf c (srv y)"
    and "next_chan (srv y) \<le> c \<Longrightarrow> put y c = [] \<and> wire y c = [] \<and> chan_buf c (srv y) = []"
  using assms by (simp_all add: sys_fifo_def) (metis append_is_Nil_conv)

lemma sys_fifo_sends:
  assumes fifo: "sys_fifo y" and only: "sends_only (srv y) s'"
    and lt: "\<forall>k c. fmlookup (children (srv y)) k = Some c \<longrightarrow> c < next_chan (srv y)"
  shows "sys_fifo (y\<lparr>srv := s', mx := m', put := (\<lambda>c. put y c @ appended (srv y) s' c)\<rparr>)"
proof -
  have "put y c @ appended (srv y) s' c = wire y c @ chan_buf c s'" for c
    using sys_fifoD(1) [OF fifo, of c] appended_sends_only [OF only, of c] by simp
  moreover have "put y c @ appended (srv y) s' c = []" if "next_chan s' \<le> c" for c
  proof -
    have "next_chan s' = next_chan (srv y)" using only by (simp add: sends_only_def)
    moreover from this that lt have "chan_buf c s' = chan_buf c (srv y)"
      using only unfolding sends_only_def by (metis leD)
    ultimately show ?thesis
      using sys_fifoD(2) [OF fifo, of c] that by (simp add: appended_def)
  qed
  ultimately show ?thesis by (simp add: sys_fifo_def)
qed

lemma server_step_fifo:
  assumes "server_step P y y'" and "server_ok (srv y)" and "sys_fifo y" and "sys_live y"
  shows "sys_fifo y'"
  using assms
proof (induction rule: server_step.induct)
  case (down_register i y key ch s')
  note fr = registerChild_frame [OF down_register(2)]
  show ?case
    using sys_fifoD [OF down_register(4)] fr by (auto simp: sys_fifo_def fr(8))
next
  case (down_continue y ch key choice out s')
  note fr = Downstream_turn_frame [OF down_continue(2)]
  have "ch < next_chan (srv y)" using down_continue by (auto simp: sys_live_def)
  then show ?case
    using sys_fifoD [OF down_continue(4)] fr by (auto simp: sys_fifo_def)
next
  case (down_return y ch key choice res out s')
  note fr = Downstream_turn_frame [OF down_return(2)]
  have "ch < next_chan (srv y)" using down_return by (auto simp: sys_live_def)
  then show ?case
    using sys_fifoD [OF down_return(4)] fr by (auto simp: sys_fifo_def)
next
  case (broadcast ks y env res s' m')
  show ?case
    by (rule sys_fifo_sends [OF broadcast(4)])
      (use broadcast sends_only_Broadcast(1) server_okD(1) in blast)+
next
  case (send_to_child i env y err s' m')
  show ?case
    by (rule sys_fifo_sends [OF send_to_child(3)])
      (use send_to_child sends_only_SendToChild(1) server_okD(1) in blast)+
qed (auto simp: sys_fifo_def Downstream_cleanup_def frames)

lemma sys_liveD:
  assumes "sys_live y"
  shows "fmlookup (live y) c = Some kp \<Longrightarrow> c < next_chan (srv y)"
    and "fmlookup (children (srv y)) k = Some c \<Longrightarrow> \<exists>ph. fmlookup (live y) c = Some (k, ph)"
  using assms by (simp_all add: sys_live_def)

lemma server_step_live:
  assumes "server_step P y y'" and "server_ok (srv y)" and "sys_live y"
  shows "sys_live y'"
  using assms
proof (induction rule: server_step.induct)
  case (down_register i y key ch s')
  note fr = registerChild_frame [OF down_register(2)]
  show ?case
    using down_register(4) server_okD(1) [OF down_register(3)] fr
    by (fastforce simp: sys_live_def less_Suc_eq)
next
  case (down_continue y ch key choice out s')
  then show ?case using Downstream_turn_frame [OF down_continue(2)] by (simp add: sys_live_def)
next
  case (down_return y ch key choice res out s')
  note fr = Downstream_turn_frame(1,2) [OF down_return(2)]
  have "\<exists>ph. fmlookup (fmupd ch (key, Returning) (live y)) c = Some (k, ph)"
    if "fmlookup (children (srv y)) k = Some c" for k c
    using sys_liveD(2) [OF down_return(4) that] down_return(1) by (cases "c = ch") auto
  then show ?case
    using sys_liveD(1) [OF down_return(4)] down_return(1) by (auto simp: sys_live_def fr)
next
  case (down_cleanup y ch key s' m')
  have other: "c \<noteq> ch \<and> (\<exists>ph. fmlookup (live y) c = Some (k, ph))"
    if "fmlookup (children (srv y)) k = Some c" and "k \<noteq> key" for k c
    using sys_liveD(2) [OF down_cleanup(4) that(1)] that(2) down_cleanup(1) by (cases "c = ch") auto
  then have "sys_live (y\<lparr>srv := unregisterChild key (srv y), mx := m', live := fmdrop ch (live y)\<rparr>)"
    using sys_liveD(1) [OF down_cleanup(4)] unfolding sys_live_def by simp blast
  then show ?case using down_cleanup(2) by (simp add: Downstream_cleanup_def)
next
  case (broadcast ks y env res s' m')
  then show ?case
    using sends_only_Broadcast(1) [OF broadcast(3,1,2)] by (simp add: sys_live_def sends_only_def)
next
  case (send_to_child i env y err s' m')
  then show ?case
    using sends_only_SendToChild(1) [OF send_to_child(1)] by (simp add: sys_live_def sends_only_def)
qed (auto simp: sys_live_def frames)

lemma server_step_gauges:
  assumes "server_step P y y'" and "server_ok (srv y)" and "sys_live y" and "sys_gauges y"
  shows "sys_gauges y'"
  using assms
proof (induction rule: server_step.induct)
  case (down_register i y key ch s')
  have "fmlookup (live y) ch = None"
    using down_register(4) registerChild_frame(1) [OF down_register(2)]
    by (cases "fmlookup (live y) ch") (auto simp: sys_live_def)
  then show ?case using down_register(5) by (simp add: sys_gauges_def fcard_fmdom_upd del: fmdom_fmupd)
next
  case (down_return y ch key choice res out s')
  then show ?case by (simp add: sys_gauges_def fcard_fmdom_upd del: fmdom_fmupd)
next
  case (down_cleanup y ch key s' m')
  then have "0 < fcard (fmdom (live y))"
    by (metis fcard_fempty fmdomI fmlookup_dom_iff fcard_0_eq gr0I fempty_iff)
  with down_cleanup show ?case
    by (auto simp: sys_gauges_def fcard_fmdom_drop Downstream_cleanup_def of_nat_diff simp del: fmdom_drop)
next
  case (broadcast ks y env res s' m')
  then show ?case using sends_only_Broadcast(2) [OF broadcast(3,1,2)] by (simp add: sys_gauges_def)
next
  case (send_to_child i env y err s' m')
  then show ?case using sends_only_SendToChild(2) [OF send_to_child(1)] by (simp add: sys_gauges_def)
qed (auto simp: sys_gauges_def authorize_frame of_nat_diff Upstream_open_frame(5))

lemma server_reach_inv: "server_reach P y \<Longrightarrow> sys_inv y"
proof (induction rule: server_reach.induct)
  case (reach_init a)
  show ?case by (rule sys_inv_init)
next
  case (reach_step y y')
  then show ?case
    unfolding sys_inv_def
    by (blast intro: server_step_ok server_step_fifo server_step_live server_step_gauges)
qed

subsection \<open>Distinct keys, as long as no child claims a synthetic one\<close>

definition sys_keys :: "srv_sys \<Rightarrow> bool" where
  "sys_keys y \<longleftrightarrow>
     (\<forall>i. i \<in># admitted y \<longrightarrow> \<not> is_synthetic i) \<and>
     0 \<le> sint (anonSeq (srv y)) \<and> sint (anonSeq (srv y)) \<le> int (next_chan (srv y)) \<and>
     (\<forall>c k ph. fmlookup (live y) c = Some (k, ph) \<longrightarrow>
        own_key (sint (anonSeq (srv y))) k \<and> fmlookup (children (srv y)) k = Some c)"

lemma sys_keysD:
  assumes "sys_keys y"
  shows "i \<in># admitted y \<Longrightarrow> \<not> is_synthetic i"
    and "0 \<le> sint (anonSeq (srv y))" and "sint (anonSeq (srv y)) \<le> int (next_chan (srv y))"
    and "fmlookup (live y) c = Some (k, ph) \<Longrightarrow> own_key (sint (anonSeq (srv y))) k"
    and "fmlookup (live y) c = Some (k, ph) \<Longrightarrow> fmlookup (children (srv y)) k = Some c"
  using assms by (auto simp: sys_keys_def)

lemma sys_keys_init: "sys_keys (init_sys a)"
  by (simp add: sys_keys_def init_sys_def NewServer_def)

lemma sys_keys_frame:
  assumes "sys_keys y" and "children s' = children (srv y)" and "next_chan s' = next_chan (srv y)"
    and "anonSeq s' = anonSeq (srv y)"
  shows "sys_keys (y\<lparr>srv := s', mx := m'\<rparr>)" "sys_keys (y\<lparr>srv := s', mx := m', put := pt\<rparr>)"
    "sys_keys (y\<lparr>srv := s', wire := w\<rparr>)" "sys_keys (y\<lparr>srv := s', mx := m', ups := u\<rparr>)"
    "sys_keys (y\<lparr>srv := s'\<rparr>)"
    "\<not> is_synthetic i \<Longrightarrow> sys_keys (y\<lparr>srv := s', mx := m', admitted := add_mset i (admitted y)\<rparr>)"
  using assms by (auto simp: sys_keys_def)

lemma sys_keys_metrics: "sys_keys y \<Longrightarrow> sys_keys (y\<lparr>mx := m'\<rparr>)" "sys_keys y \<Longrightarrow> sys_keys (y\<lparr>mx := m', ups := u\<rparr>)"
  by (simp_all add: sys_keys_def)

lemma server_step_keys:
  assumes "server_step P y y'" and "\<forall>i. P i \<longrightarrow> \<not> is_synthetic i"
    and "sys_inv y" and "sys_keys y" and "next_chan (srv y') < 2 ^ 63"
  shows "sys_keys y'"
  using assms
proof (induction rule: server_step.induct)
  case (down_register i y key ch s')
  note fr = registerChild_frame [OF down_register(2)]
  note kD = sys_keysD [OF down_register(5)]
  have liv: "sys_live y" using down_register(4) by (simp add: sys_inv_def)
  have lim: "sint (anonSeq (srv y)) + 1 < 2 ^ 63"
    using kD(3) down_register(6) fr(1,2) by simp
  have own: "\<forall>k c. fmlookup (children (srv y)) k = Some c \<longrightarrow> own_key (sint (anonSeq (srv y))) k"
    using sys_liveD(2) [OF liv] kD(4) by blast
  note fresh = registerChild_fresh [OF kD(2) lim kD(1) [OF down_register(1)] own down_register(2)]
  have "own_key (sint (anonSeq s')) k \<and> key \<noteq> k \<and> fmlookup (children (srv y)) k = Some c"
    if "fmlookup (live y) c = Some (k, ph)" for c k ph
    using kD(4,5) [OF that] fresh(1) own_key_mono [OF _ fresh(3)] by auto
  then show ?case
    using fresh(2-4) kD(1-3) fr(1-3) by (auto simp: sys_keys_def dest: in_diffD)
next
  case (down_return y ch key choice res out s')
  then show ?case
    using Downstream_turn_frame(1-3) [OF down_return(2)] sys_keysD(4,5) [OF down_return(5) down_return(1)]
    by (auto simp: sys_keys_def)
next
  case (down_cleanup y ch key s' m')
  note kD = sys_keysD [OF down_cleanup(5)]
  have "fmlookup (children (srv y)) k = Some c \<and> k \<noteq> key"
    if "fmlookup (live y) c = Some (k, ph)" "c \<noteq> ch" for c k ph
    using kD(5) [OF that(1)] kD(5) [OF down_cleanup(1)] that(2) by auto
  then show ?case
    using kD(1-4) down_cleanup(2) by (auto simp: sys_keys_def Downstream_cleanup_def)
next
  case (broadcast ks y env res s' m')
  have "server_ok (srv y)" using broadcast(4) by (simp add: sys_inv_def)
  then have "sends_only (srv y) s'" using sends_only_Broadcast(1) broadcast(1,2) by blast
  then show ?case using broadcast(5) by (auto simp: sends_only_def intro: sys_keys_frame)
next
  case (send_to_child i env y err s' m')
  then have "sends_only (srv y) s'" using sends_only_SendToChild(1) by blast
  then show ?case using send_to_child(4) by (auto simp: sends_only_def intro: sys_keys_frame)
qed (auto intro!: sys_keys_frame sys_keys_metrics
      simp: frames)

lemma server_step_next_chan: "server_step P y y' \<Longrightarrow> sys_inv y \<Longrightarrow> next_chan (srv y) \<le> next_chan (srv y')"
proof (induction rule: server_step.induct)
  case (broadcast ks y env res s' m')
  have "server_ok (srv y)" using broadcast(3) by (simp add: sys_inv_def)
  then have "sends_only (srv y) s'" using sends_only_Broadcast(1) broadcast(1,2) by blast
  then show ?case by (simp add: sends_only_def)
next
  case (send_to_child i env y err s' m')
  then have "sends_only (srv y) s'" using sends_only_SendToChild(1) by blast
  then show ?case by (simp add: sends_only_def)
qed (auto simp: frames
      registerChild_frame(1,2) Downstream_cleanup_def)

lemma server_reach_keys:
  assumes "server_reach P y" and "\<forall>i. P i \<longrightarrow> \<not> is_synthetic i" and "next_chan (srv y) < 2 ^ 63"
  shows "sys_keys y"
  using assms
proof (induction rule: server_reach.induct)
  case (reach_init a)
  show ?case by (rule sys_keys_init)
next
  case (reach_step y y')
  have inv: "sys_inv y" by (rule server_reach_inv [OF reach_step(1)])
  have "next_chan (srv y) < 2 ^ 63"
    using server_step_next_chan [OF reach_step(2) inv] reach_step(5) by simp
  then show ?case using server_step_keys [OF reach_step(2)] reach_step inv by blast
qed

subsection \<open>Whole connections as runs of steps\<close>

lemma reach_connect:
  assumes "server_reach P y" and "P (childNodeID c)"
    and "authorizeChild (srv y) c (childNodeID c) = None"
    and "registerChild (childNodeID c) (clearRejection (childNodeID c) (srv y)) = ((key, ch), s')"
  shows "server_reach P (y\<lparr>srv := s', mx := inc_conn ''downstream'' (mx y),
     live := fmupd ch (key, Running) (live y)\<rparr>)"
proof -
  let ?i = "childNodeID c"
  let ?y = "y\<lparr>srv := clearRejection ?i (srv y), mx := mx y, admitted := add_mset ?i (admitted y)\<rparr>"
  have "authorize 0 c ?i (srv y) (mx y) = (None, clearRejection ?i (srv y), mx y)"
    using assms(3) by (simp add: authorize_def)
  then have "server_reach P ?y"
    using assms(1,2) by (blast intro: server_reach.intros server_step.down_authorized)
  moreover have "server_step P ?y (?y\<lparr>srv := s', mx := inc_conn ''downstream'' (mx ?y),
       admitted := admitted ?y - {#?i#}, live := fmupd ch (key, Running) (live ?y)\<rparr>)"
    by (rule server_step.down_register) (use assms(4) in simp_all)
  ultimately show ?thesis
    by (auto dest: server_reach.reach_step)
qed

lemma reach_disconnect:
  assumes "server_reach P y" and "fmlookup (live y) ch = Some (key, Running)"
  shows "server_reach P (y\<lparr>srv := unregisterChild key (srv y), mx := dec_conn ''downstream'' (mx y),
     live := fmdrop ch (live y)\<rparr>)"
proof -
  let ?y = "y\<lparr>srv := srv y, wire := (wire y)(ch := wire y ch @ []), live := fmupd ch (key, Returning) (live y)\<rparr>"
  have "server_step P y ?y"
    by (rule server_step.down_return [where choice = "CtxDone Ctx_Canceled" and res = "Some Ctx_Canceled"])
      (simp_all add: assms(2) Downstream_turn_def)
  then have y: "server_reach P ?y" using assms(1) by (blast intro: server_reach.reach_step)
  have "server_step P ?y (?y\<lparr>srv := unregisterChild key (srv ?y), mx := dec_conn ''downstream'' (mx ?y),
      live := fmdrop ch (live ?y)\<rparr>)"
    by (rule server_step.down_cleanup [where key = key]) (simp_all add: Downstream_cleanup_def)
  with y have "server_reach P (?y\<lparr>srv := unregisterChild key (srv ?y),
      mx := dec_conn ''downstream'' (mx ?y), live := fmdrop ch (live ?y)\<rparr>)"
    by (rule server_reach.reach_step)
  then show ?thesis by (simp add: fmdrop_fmupd_same)
qed

end
