(* ===== verification/Server_Properties.thy ===== *)
theory Server_Properties
  imports Server_System
begin

text \<open>
  The properties of the server, each with a witness on a concrete run or input. The runs are
  built from whole connections (\<open>connect\<close>, \<open>disconnect\<close>) and broadcasts.
\<close>

subsection \<open>Concrete runs\<close>

definition claiming :: "string \<Rightarrow> ctx" where
  "claiming i = \<lparr>incoming_md = Some (fmupd nodeIDMetadataKey [i] fmempty), peer_auth = None\<rparr>"

lemma childNodeID_claiming [simp]: "childNodeID (claiming i) = i"
  by (simp add: claiming_def childNodeID_def)

definition connect :: "string \<Rightarrow> srv_sys \<Rightarrow> srv_sys" where
  "connect i y =
     (case registerChild i (clearRejection i (srv y)) of
        ((key, ch), s') \<Rightarrow>
          y\<lparr>srv := s', mx := inc_conn ''downstream'' (mx y), live := fmupd ch (key, Running) (live y)\<rparr>)"

definition disconnect :: "chan \<Rightarrow> string \<Rightarrow> srv_sys \<Rightarrow> srv_sys" where
  "disconnect ch key y =
     y\<lparr>srv := unregisterChild key (srv y), mx := dec_conn ''downstream'' (mx y), live := fmdrop ch (live y)\<rparr>"

lemma reach_connect_claiming:
  assumes "server_reach P y" and "P i" and "authorizeChild (srv y) = noopAuthorizeChild"
  shows "server_reach P (connect i y)"
proof -
  obtain key ch s' where r: "registerChild i (clearRejection i (srv y)) = ((key, ch), s')"
    by (metis prod.collapse)
  show ?thesis
    unfolding connect_def r prod.case
    by (rule reach_connect [where c = "claiming i"]) (simp_all add: assms r noopAuthorizeChild_def)
qed

lemma reach_disconnect_of:
  "server_reach P y \<Longrightarrow> fmlookup (live y) ch = Some (key, Running) \<Longrightarrow>
   server_reach P (disconnect ch key y)"
  unfolding disconnect_def by (rule reach_disconnect)

lemma connect_sel:
  "live (connect i y) = fmupd (next_chan (srv y)) (fst (fst (registerChild i (clearRejection i (srv y)))), Running) (live y)"
  "srv (connect i y) = snd (registerChild i (clearRejection i (srv y)))"
  by (auto simp: connect_def clearRejection_def split: prod.splits dest!: registerChild_frame(1))

lemma connect_known:
  "i \<noteq> '''' \<Longrightarrow> fmlookup (children (srv y)) i = None \<Longrightarrow>
     fst (fst (registerChild i (clearRejection i (srv y)))) = i"
  by (simp add: registerChild_eq clearRejection_def Let_def)

text \<open>Two children \<open>a\<close> and \<open>b\<close> of a fresh server.\<close>

definition two_children :: srv_sys where
  "two_children = connect ''b'' (connect ''a'' (init_sys None))"

lemma init_sys_sel [simp]:
  "srv (init_sys a) = NewServer a" "live (init_sys a) = fmempty" "mx (init_sys a) = initial_metrics"
  "admitted (init_sys a) = {#}"
  by (simp_all add: init_sys_def)

lemma NewServer_sel [simp]:
  "children (NewServer a) = fmempty" "chans (NewServer a) = fmempty" "next_chan (NewServer a) = 0"
  "authorizeChild (NewServer a) = noopAuthorizeChild" "anonSeq (NewServer a) = 0"
  "pending (NewServer a) = fmempty" "grpcServer (NewServer a) = None"
  by (simp_all add: NewServer_def)

lemma two_children_sel:
  "children (srv two_children) = fmupd ''b'' 1 (fmupd ''a'' 0 fmempty)"
  "live two_children = fmupd 1 (''b'', Running) (fmupd 0 (''a'', Running) fmempty)"
  "authorizeChild (srv two_children) = noopAuthorizeChild" "next_chan (srv two_children) = 2"
  "chans (srv two_children) = fmupd 1 [] (fmupd 0 [] fmempty)"
  by (simp_all add: two_children_def connect_sel registerChild_eq clearRejection_def Let_def)

lemma two_children_anon: "anonSeq (srv two_children) = 0"
  by (simp add: two_children_def connect_sel registerChild_eq clearRejection_def Let_def)

lemma two_children_reach: "P ''a'' \<Longrightarrow> P ''b'' \<Longrightarrow> server_reach P two_children"
  unfolding two_children_def
  by (intro reach_connect_claiming server_reach.reach_init)
    (simp_all add: connect_sel registerChild_eq clearRejection_def Let_def)

lemma two_children_ok: "server_ok (srv two_children)"
  using server_reach_inv [OF two_children_reach [where P = "\<lambda>_. True"]] by (simp add: sys_inv_def)

lemma two_children_order: "range_order [''a'', ''b''] (children (srv two_children))"
  "range_order [''b'', ''a''] (children (srv two_children))"
  by (auto simp: range_order_def two_children_sel)

definition greeting :: envelope where
  "greeting = \<lparr>EnvId = ''n-1'', Kind = ''config'', Payload = ''x'', Timestamp = 1\<rparr>"

subsection \<open>Streams\<close>

text \<open>
  C1. In every reachable state, whatever the interleaving of handlers, broadcasts and targeted
  sends: what was put into a child's channel is, in this order, what its handler has sent on the
  stream followed by what is still buffered; nothing is lost, duplicated or reordered between the
  two, and the buffer never holds more than 16 envelopes.
\<close>

theorem child_stream_fifo:
  assumes "server_reach P y"
  shows "put y c = wire y c @ chan_buf c (srv y) \<and> length (chan_buf c (srv y)) \<le> 16"
  using server_reach_inv [OF assms] server_okD(4) [of "srv y" c] sys_fifoD(1) [of y c]
  by (simp add: sys_inv_def chan_cap_def)

definition after_greeting :: srv_sys where
  "after_greeting =
     (case BroadcastDownstream [''a'', ''b''] greeting (srv two_children) (mx two_children) of
        (res, s', m') \<Rightarrow> two_children\<lparr>srv := s', mx := m',
           put := (\<lambda>c. put two_children c @ appended (srv two_children) s' c)\<rparr>)"

lemma after_greeting_reach: "P ''a'' \<Longrightarrow> P ''b'' \<Longrightarrow> server_reach P after_greeting"
proof -
  assume "P ''a''" "P ''b''"
  then have r: "server_reach P two_children" by (rule two_children_reach)
  obtain res s' m' where b:
    "BroadcastDownstream [''a'', ''b''] greeting (srv two_children) (mx two_children) = (res, s', m')"
    by (rule prod_cases3)
  show ?thesis
    unfolding after_greeting_def b prod.case
    by (rule server_reach.reach_step [OF r server_step.broadcast [OF two_children_order(1) b]])
qed

lemma after_greeting_buf: "chan_buf 0 (srv after_greeting) = [greeting]"
  by (simp add: after_greeting_def BroadcastDownstream_def try_send_eq chan_buf_def two_children_sel
      chan_cap_def ChildrenCount_def)

theorem child_stream_fifo_witness:
  "put after_greeting 0 = wire after_greeting 0 @ [greeting]"
  using child_stream_fifo [OF after_greeting_reach [where P = "\<lambda>_. True"], of 0] after_greeting_buf
  by simp

subsection \<open>Registration\<close>

text \<open>
  C20. As long as no child claims an id of the form the server itself makes up, the map of
  children lists exactly the Downstream handlers that are running or about to clean up, each
  under its key, and the count reported equals the connection gauge. (The bound is on the number
  of connections ever made.)
\<close>

theorem children_are_the_live_handlers:
  assumes "server_reach P y" and "\<forall>i. P i \<longrightarrow> \<not> is_synthetic i" and "next_chan (srv y) < 2 ^ 63"
  shows "(fmlookup (children (srv y)) k = Some c \<longleftrightarrow> (\<exists>ph. fmlookup (live y) c = Some (k, ph))) \<and>
    int (ChildrenCount (srv y)) = ChildConnections (mx y) ''downstream''"
proof -
  note inv = server_reach_inv [OF assms(1)] and keys = server_reach_keys [OF assms]
  have liv: "sys_live y" and ok: "server_ok (srv y)" and g: "sys_gauges y"
    using inv by (simp_all add: sys_inv_def)
  have iff: "fmlookup (children (srv y)) k = Some c \<longleftrightarrow> (\<exists>ph. fmlookup (live y) c = Some (k, ph))"
    for k c using sys_liveD(2) [OF liv] sys_keysD(5) [OF keys] by blast
  let ?f = "\<lambda>k. the (fmlookup (children (srv y)) k)"
  have "bij_betw ?f (fmdom' (children (srv y))) (fmdom' (live y))"
  proof (rule bij_betwI')
    fix k k' assume "k \<in> fmdom' (children (srv y))" "k' \<in> fmdom' (children (srv y))"
    then obtain c c' where "fmlookup (children (srv y)) k = Some c" "fmlookup (children (srv y)) k' = Some c'"
      by (auto simp: fmlookup_dom'_iff)
    then show "(?f k = ?f k') = (k = k')" using server_okD(3) [OF ok] by auto
  next
    fix k assume "k \<in> fmdom' (children (srv y))"
    then obtain c where c: "fmlookup (children (srv y)) k = Some c" by (auto simp: fmlookup_dom'_iff)
    then obtain ph where "fmlookup (live y) c = Some (k, ph)" using iff by blast
    with c show "?f k \<in> fmdom' (live y)" by (simp add: fmlookup_dom'_iff)
  next
    fix c assume "c \<in> fmdom' (live y)"
    then obtain k ph where "fmlookup (live y) c = Some (k, ph)" by (auto simp: fmlookup_dom'_iff)
    then have "fmlookup (children (srv y)) k = Some c" using iff by blast
    then show "\<exists>k\<in>fmdom' (children (srv y)). c = ?f k" by (force simp: fmlookup_dom'_iff)
  qed
  then have "card (fmdom' (children (srv y))) = card (fmdom' (live y))" by (rule bij_betw_same_card)
  then have "int (ChildrenCount (srv y)) = ChildConnections (mx y) ''downstream''"
    using g by (simp add: ChildrenCount_def sys_gauges_def fcard.rep_eq fmdom'_alt_def)
  with iff show ?thesis by blast
qed

theorem children_are_the_live_handlers_witness:
  "(fmlookup (children (srv two_children)) ''b'' = Some 1 \<longleftrightarrow>
      (\<exists>ph. fmlookup (live two_children) 1 = Some (''b'', ph))) \<and>
    int (ChildrenCount (srv two_children)) = ChildConnections (mx two_children) ''downstream''"
  by (rule children_are_the_live_handlers [where P = "\<lambda>i. i = ''a'' \<or> i = ''b''"])
    (simp_all add: two_children_reach two_children_sel is_synthetic_def)

lemma gauges_count_handlers:
  assumes "server_reach P y"
  shows "ChildConnections (mx y) ''downstream'' = int (fcard (fmdom (live y))) \<and>
    ChildConnections (mx y) ''upstream'' = int (ups y)"
  using server_reach_inv [OF assms] by (simp add: sys_inv_def sys_gauges_def)

text \<open>
  C29. The synthetic keys are not reserved: a child may claim the id \<open>(anonymous-1)\<close>, the first
  child without an id then takes over its entry, and when the former disconnects it removes the
  entry of the latter, whose handler goes on running but is no child of the server any more.
\<close>

theorem synthetic_key_collision:
  "\<exists>y. server_reach (\<lambda>_. True) y \<and> fmlookup (live y) 1 = Some (''(anonymous-1)'', Running) \<and>
     fmlookup (children (srv y)) ''(anonymous-1)'' = None \<and> ChildrenCount (srv y) = 0"
proof -
  have key: "anon_key 1 = ''(anonymous-1)''"
    by (simp add: anon_key_def fmt_d_def nat_digits.simps digit_char_def char_of_def bit_0)
  let ?y1 = "connect ''(anonymous-1)'' (init_sys None)" let ?y2 = "connect '''' ?y1"
  let ?y3 = "disconnect 0 ''(anonymous-1)'' ?y2"
  have s1: "children (srv ?y1) = fmupd ''(anonymous-1)'' 0 fmempty" "anonSeq (srv ?y1) = 0"
    "live ?y1 = fmupd 0 (''(anonymous-1)'', Running) fmempty"
    "authorizeChild (srv ?y1) = noopAuthorizeChild" "next_chan (srv ?y1) = 1"
    by (simp_all add: connect_sel registerChild_eq clearRejection_def Let_def)
  have s2: "children (srv ?y2) = fmupd ''(anonymous-1)'' 1 fmempty"
    "live ?y2 = fmupd 1 (''(anonymous-1)'', Running) (fmupd 0 (''(anonymous-1)'', Running) fmempty)"
    using s1 by (simp_all add: connect_sel registerChild_eq clearRejection_def Let_def key)
  have "server_reach (\<lambda>_. True) ?y1" by (intro reach_connect_claiming server_reach.reach_init) simp_all
  then have "server_reach (\<lambda>_. True) ?y2" by (rule reach_connect_claiming) (simp_all add: s1)
  then have "server_reach (\<lambda>_. True) ?y3" by (rule reach_disconnect_of) (simp add: s2)
  moreover have "children (srv ?y3) = fmempty" by (simp add: disconnect_def s2 fmdrop_fmupd_same)
  moreover have "live ?y3 = fmdrop 0 (live ?y2)" by (simp add: disconnect_def)
  ultimately show ?thesis by (intro exI [of _ ?y3]) (simp add: s2 ChildrenCount_def)
qed

subsection \<open>Sending down\<close>

text \<open>
  C13. A broadcast hands the envelope to exactly the children whose buffer has room, appending it
  to their channel, and touches nothing else; it reports how many, and by their keys all the
  others; it returns an error exactly when there is one of those; every child is counted once,
  in the result as in the metrics.
\<close>

theorem broadcast_exact:
  assumes "server_ok s" and "range_order ks (children s)"
    and "BroadcastDownstream ks env s m = ((r, e), s', m')"
  shows "Delivered r = length (filter (can_accept s) ks) \<and>
    Dropped r = filter (\<lambda>k. \<not> can_accept s k) ks \<and>
    (e = None \<longleftrightarrow> Dropped r = []) \<and>
    Delivered r + length (Dropped r) = ChildrenCount s \<and>
    s' = s\<lparr>chans := chans s'\<rparr> \<and>
    (\<forall>k c. fmlookup (children s) k = Some c \<longrightarrow>
       chan_buf c s' = (if can_accept s k then chan_buf c s @ [env] else chan_buf c s)) \<and>
    m' = (inc_sent ''downstream'' ^^ Delivered r)
           ((inc_dropped ''downstream'' ''buffer_full'' ^^ length (Dropped r)) m)"
proof -
  note eff = BroadcastDownstream_effect [OF assms]
  have "chan_buf c s' = (if can_accept s k then chan_buf c s @ [env] else chan_buf c s)"
    if "fmlookup (children s) k = Some c" for k c
  proof -
    have "(\<exists>k'. can_accept s k' \<and> fmlookup (children s) k' = Some c) \<longleftrightarrow> can_accept s k"
      using server_okD(3) [OF assms(1) that] that by blast
    then show ?thesis unfolding chan_buf_def [of c s'] eff(5) [of c]
      by (simp add: chan_buf_def)
  qed
  then have buf: "\<forall>k c. fmlookup (children s) k = Some c \<longrightarrow>
      chan_buf c s' = (if can_accept s k then chan_buf c s @ [env] else chan_buf c s)"
    by blast
  show ?thesis
    by (intro conjI) (rule eff(1) eff(2) eff(3) BroadcastDownstream_total [OF assms] eff(4) buf eff(6))+
qed

lemma two_children_accept: "can_accept (srv two_children) k \<longleftrightarrow> k = ''a'' \<or> k = ''b''"
  by (simp add: can_accept_def two_children_sel chan_buf_def chan_cap_def)

theorem broadcast_exact_witness:
  "Delivered (fst (fst (BroadcastDownstream [''b'', ''a''] greeting (srv two_children) initial_metrics))) = 2"
proof -
  obtain r e s' m' where b: "BroadcastDownstream [''b'', ''a''] greeting (srv two_children) initial_metrics = ((r, e), s', m')"
    by (metis prod.collapse)
  show ?thesis
    using broadcast_exact [OF two_children_ok two_children_order(2) b] by (simp add: b two_children_accept)
qed

text \<open>
  C33. The order in which Go happens to range over the map of children does not matter: two
  broadcasts of the same envelope in the same state differ at most in the order of the list of
  dropped children; state, metrics and counts are the same.
\<close>

theorem broadcast_order_irrelevant:
  assumes "server_ok s" and "range_order ks (children s)" and "range_order ks' (children s)"
    and "BroadcastDownstream ks env s m = ((r, e), s1, m1)"
    and "BroadcastDownstream ks' env s m = ((r', e'), s2, m2)"
  shows "s1 = s2 \<and> m1 = m2 \<and> Delivered r = Delivered r' \<and> mset (Dropped r) = mset (Dropped r') \<and>
    (e = None \<longleftrightarrow> e' = None)"
  using BroadcastDownstream_order [OF assms] by blast

theorem broadcast_order_irrelevant_witness:
  "fst (snd (BroadcastDownstream [''a'', ''b''] greeting (srv two_children) initial_metrics)) =
   fst (snd (BroadcastDownstream [''b'', ''a''] greeting (srv two_children) initial_metrics))"
proof -
  obtain r e s1 m1 where b: "BroadcastDownstream [''a'', ''b''] greeting (srv two_children) initial_metrics = ((r, e), s1, m1)"
    by (metis prod.collapse)
  obtain r' e' s2 m2 where b': "BroadcastDownstream [''b'', ''a''] greeting (srv two_children) initial_metrics = ((r', e'), s2, m2)"
    by (metis prod.collapse)
  show ?thesis
    using broadcast_order_irrelevant [OF two_children_ok two_children_order b b'] by (simp add: b b')
qed

text \<open>
  Sending to one child reaches that child only: it fails without any change when no child has
  the id, it fails and counts a drop when the buffer is full, and otherwise appends the envelope
  to that child's channel and to no other.
\<close>

theorem send_to_child_exact:
  assumes "server_ok s" and "SendToChild k env s m = (e, s', m')"
  shows "case fmlookup (children s) k of
      None \<Rightarrow> e \<noteq> None \<and> s' = s \<and> m' = m
    | Some c \<Rightarrow>
        if length (chan_buf c s) < 16
        then e = None \<and> m' = inc_sent ''downstream'' m \<and> chan_buf c s' = chan_buf c s @ [env] \<and>
          children s' = children s \<and>
          (\<forall>k' c'. k' \<noteq> k \<and> fmlookup (children s) k' = Some c' \<longrightarrow> chan_buf c' s' = chan_buf c' s)
        else e \<noteq> None \<and> s' = s \<and> m' = inc_dropped ''downstream'' ''buffer_full'' m"
proof (cases "fmlookup (children s) k")
  case None
  with assms(2) show ?thesis by (auto simp: SendToChild_eq)
next
  case (Some c)
  have other: "c' \<noteq> c" if "k' \<noteq> k" "fmlookup (children s) k' = Some c'" for k' c'
    using server_okD(3) [OF assms(1) Some, of k'] that by auto
  from assms(2) Some other show ?thesis
    by (auto simp: SendToChild_eq can_accept_def chan_cap_def split: if_splits)
qed

theorem send_to_child_exact_witness:
  "chan_buf 1 (fst (snd (SendToChild ''b'' greeting (srv two_children) initial_metrics))) = [greeting] \<and>
   chan_buf 0 (fst (snd (SendToChild ''b'' greeting (srv two_children) initial_metrics))) = []"
proof -
  obtain e s' m' where b: "SendToChild ''b'' greeting (srv two_children) initial_metrics = (e, s', m')"
    by (rule prod_cases3)
  have "chan_buf 1 (srv two_children) = []" "chan_buf 0 (srv two_children) = []"
    by (simp_all add: chan_buf_def two_children_sel)
  then show ?thesis
    using send_to_child_exact [OF two_children_ok b]
    by (auto simp: b two_children_sel elim!: allE [of _ "''a''"])
qed

text \<open>
  Every child is addressable for as long as it is registered, by the key it was given: the one
  it claimed, or the synthetic one when it claimed none or its id was in use. A targeted send
  right after registration reaches its channel.
\<close>

theorem registered_child_addressable:
  assumes "server_ok s" and "registerChild i s = ((key, c), s')"
  shows "SendToChild key env s' m =
      (None, s'\<lparr>chans := fmupd c [env] (chans s')\<rparr>, inc_sent ''downstream'' m) \<and>
    (key = i \<longleftrightarrow> i \<noteq> '''' \<and> fmlookup (children s) i = None)"
proof -
  note fr = registerChild_frame [OF assms(2)]
  have "fmlookup (children s') key = Some c" "chan_buf c s' = []" by (simp_all add: fr(3,8))
  moreover have "key = i \<longleftrightarrow> i \<noteq> '''' \<and> fmlookup (children s) i = None"
    using assms(2) fr(9)
    by (cases "fmlookup (children s) i") (auto simp: registerChild_eq Let_def dup_key_def)
  ultimately show ?thesis by (simp add: SendToChild_eq can_accept_def chan_cap_def)
qed

theorem registered_child_addressable_witness:
  "case registerChild ''a'' (srv two_children) of ((key, c), s') \<Rightarrow>
     fst (SendToChild key greeting s' initial_metrics) = None \<and> key \<noteq> ''a''"
proof -
  obtain key c s' where r: "registerChild ''a'' (srv two_children) = ((key, c), s')"
    by (metis prod.collapse)
  show ?thesis
    using registered_child_addressable [OF two_children_ok r] by (simp add: r two_children_sel)
qed

text \<open>
  C34. A child that reconnects before the handler of its previous connection has noticed cannot be
  addressed by its id any more. As long as both handlers run, a targeted send is accepted but
  goes to the channel of the previous connection; once that handler has cleaned up, the send
  fails with the error for children that are not connected, while the child is registered on its
  new channel, under a synthetic key, for the rest of its connection.
\<close>

theorem reconnect_loses_address:
  assumes ok: "server_ok s" and old: "fmlookup (children s) i = Some c0"
    and open1: "Downstream_open now cx s m = (Inr (key, c), s1, m1)" and "childNodeID cx = i"
    and clean: "Downstream_cleanup i s1 m1 = (s2, m2)"
  shows "fmlookup (children s1) key = Some c \<and> fmlookup (children s2) key = Some c \<and> key \<noteq> i \<and> c \<noteq> c0 \<and>
    chan_buf c (fst (snd (SendToChild i env s1 m1))) = [] \<and>
    (length (chan_buf c0 s) < chan_cap \<longrightarrow>
       fst (SendToChild i env s1 m1) = None \<and>
       chan_buf c0 (fst (snd (SendToChild i env s1 m1))) = chan_buf c0 s @ [env]) \<and>
    SendToChild i env s2 m2 =
      (Some (Errorf ''no child with node-id %q currently connected'' [i] []), s2, m2)"
proof -
  obtain r s0 m0 where a: "authorize now cx i s m = (r, s0, m0)" by (rule prod_cases3)
  note fr0 = authorize_frame [OF a]
  from open1 a assms(4) have reg: "registerChild i s0 = ((key, c), s1)"
    by (auto simp: Downstream_open_def Let_def split: option.splits prod.splits)
  note fr = registerChild_frame [OF reg]
  have old0: "fmlookup (children s0) i = Some c0" "i \<noteq> ''''"
    using old server_okD(2) [OF ok old] by (simp_all add: fr0)
  have key: "key \<noteq> i" using reg old0 by (auto simp: registerChild_eq Let_def dup_key_def)
  have c: "c \<noteq> c0" using server_okD(1) [OF ok old] by (simp add: fr(1) fr0)
  have s1: "fmlookup (children s1) i = Some c0" "chan_buf c s1 = []" "chan_buf c0 s1 = chan_buf c0 s"
    using key c old0 by (simp_all add: fr(3,8) fr0)
  have s2: "children s2 = fmdrop i (children s1)"
    using clean by (auto simp: Downstream_cleanup_def unregisterChild_def)
  have "fmlookup (children s1) key = Some c" by (simp add: fr(3))
  moreover from this key have "fmlookup (children s2) key = Some c" by (simp add: s2)
  moreover have "SendToChild i env s2 m2 =
      (Some (Errorf ''no child with node-id %q currently connected'' [i] []), s2, m2)"
    by (simp add: SendToChild_def s2)
  ultimately show ?thesis using key c s1 by (simp add: SendToChild_eq can_accept_def)
qed

theorem reconnect_loses_address_witness:
  "case Downstream_open 9 (claiming ''a'') (srv two_children) initial_metrics of
     (r, s1, m1) \<Rightarrow> r = Inr (dup_key ''a'' 1, 2) \<and>
       fst (SendToChild ''a'' greeting (fst (Downstream_cleanup ''a'' s1 m1)) initial_metrics) \<noteq> None"
proof -
  obtain r s1 m1 where o: "Downstream_open 9 (claiming ''a'') (srv two_children) initial_metrics = (r, s1, m1)"
    by (rule prod_cases3)
  have r: "r = Inr (dup_key ''a'' 1, 2)"
    using o by (auto simp: Downstream_open_def authorize_def two_children_sel noopAuthorizeChild_def
        clearRejection_def registerChild_eq Let_def
        two_children_anon)
  obtain s2 m2 where c: "Downstream_cleanup ''a'' s1 m1 = (s2, m2)" by (rule prod.exhaust)
  have a: "fmlookup (children (srv two_children)) ''a'' = Some 0" by (simp add: two_children_sel)
  note eq = reconnect_loses_address [OF two_children_ok a o [unfolded r] childNodeID_claiming c, of greeting]
  then have "SendToChild ''a'' greeting s2 m2 =
      (Some (Errorf ''no child with node-id %q currently connected'' [''a''] []), s2, m2)" by blast
  then have "fmlookup (children s2) ''a'' = None" by (auto simp: SendToChild_def split: option.splits if_splits prod.splits)
  then show ?thesis by (simp add: o r c SendToChild_def)
qed

subsection \<open>Admission\<close>

text \<open>
  C19. What the administrator sees as pending is what the history of authorizations says: after any
  sequence of them on a fresh server, a node id is listed exactly when its latest authorization
  was a rejection, once, with the time and the reason of the first rejection since it was last
  accepted; children without an id are never listed.
\<close>

theorem pending_children_refine_history:
  assumes "s0 = SetAuthorizeChild (Some h) (NewServer a)" and "authorize_all as s0 m = (s, m')"
    and "range_order ks (pending s)"
  shows "set (PendingChildren ks s) =
      {p. NodeID p \<noteq> '''' \<and> pending_spec (NodeID p) (verdicts h as) = Some p} \<and>
    distinct (map NodeID (PendingChildren ks s))"
proof -
  have ok: "server_ok s"
    by (rule server_ok_authorize_all [OF _ assms(2)]) (simp add: assms(1))
  have spec: "fmlookup (pending s) k = pending_spec k (verdicts h as)" if "k \<noteq> ''''" for k
    using authorize_all_refines [of s0 h k "[]" as m s m'] assms(1,2) that
    by (simp add: SetAuthorizeChild_def pending_spec_def)
  have look: "p \<in> set (PendingChildren ks s) \<longleftrightarrow> fmlookup (pending s) (NodeID p) = Some p" for p
    using range_order_lookup [OF assms(3)] server_okD(5) [OF ok]
    by (auto simp: PendingChildren_def in_set_map_filter)
  have "distinct (map NodeID (PendingChildren ks s))"
  proof -
    have "map NodeID (PendingChildren ks s) = filter (\<lambda>k. fmlookup (pending s) k \<noteq> None) ks"
      using server_okD(5) [OF ok] by (induction ks) (auto simp: PendingChildren_def map_filter_simps)
    then show ?thesis using assms(3) by (simp add: range_order_def)
  qed
  moreover have "fmlookup (pending s) (NodeID p) = Some p \<longleftrightarrow>
      NodeID p \<noteq> '''' \<and> pending_spec (NodeID p) (verdicts h as) = Some p" for p
    using spec server_okD(6) [OF ok] by metis
  ultimately show ?thesis using look by blast
qed

definition reject_b :: authorize_hook where
  "reject_b c i = (if i = ''b'' then Some (Errorf ''no'' [] []) else None)"

theorem pending_children_refine_history_witness:
  "NodeID ` set (PendingChildren [''b'']
     (fst (authorize_all [(1, claiming ''b'', ''b''), (2, claiming ''a'', ''a''), (3, claiming ''b'', ''b'')]
       (SetAuthorizeChild (Some reject_b) (NewServer None)) initial_metrics))) = {''b''}"
proof -
  let ?as = "[(1, claiming ''b'', ''b''), (2, claiming ''a'', ''a''), (3, claiming ''b'', ''b'')]"
  let ?s0 = "SetAuthorizeChild (Some reject_b) (NewServer None)"
  let ?p = "\<lparr>NodeID = ''b'', FirstSeen = 1, LastReason = Errorf ''no'' [] []\<rparr>"
  obtain s m' where run: "authorize_all ?as ?s0 initial_metrics = (s, m')"
    by (cases "authorize_all ?as ?s0 initial_metrics")
  have "pending s = fmupd ''b'' ?p fmempty"
    using run by (auto simp: authorize_def reject_b_def SetAuthorizeChild_def recordRejection_def
        clearRejection_def intro!: fmap_ext)
  then have ord: "range_order [''b''] (pending s)" by (simp add: range_order_def)
  have "?p \<in> set (PendingChildren [''b''] s)"
    using \<open>pending s = fmupd ''b'' ?p fmempty\<close> by (simp add: PendingChildren_def map_filter_simps)
  moreover have "NodeID q = ''b''" if "q \<in> set (PendingChildren [''b''] s)" for q
    using that pending_children_refine_history [OF refl run ord]
    by (auto simp: pending_spec_def verdicts_def reject_b_def split: if_splits)
  ultimately have "NodeID ` set (PendingChildren [''b''] s) = {''b''}" by force
  then show ?thesis by (simp only: run fst_conv)
qed

text \<open>
  The hook decides admission: a Downstream call that it rejects registers nothing, changes no
  channel and no gauge, counts one rejection and ends with the hook's error; one that it accepts
  clears the pending entry of the id, registers the child on a new, empty channel under a key of
  its own, and raises the gauge.
\<close>

theorem downstream_admission:
  assumes "server_ok s" and "Downstream_open now c s m = (r, s', m')"
  shows "case authorizeChild s c (childNodeID c) of
      Some err \<Rightarrow> r = Inl (Errorf ''connection rejected: %w'' [] [err]) \<and> children s' = children s \<and>
        chans s' = chans s \<and> m' = inc_rejections m
    | None \<Rightarrow> \<exists>key ch. r = Inr (key, ch) \<and> key \<noteq> '''' \<and> fmlookup (children s') key = Some ch \<and>
        (\<forall>k. fmlookup (children s) k \<noteq> Some ch) \<and> chan_buf ch s' = [] \<and>
        fmlookup (pending s') (childNodeID c) = None \<and> m' = inc_conn ''downstream'' m"
proof (cases "authorizeChild s c (childNodeID c)")
  case (Some err)
  with assms(2) show ?thesis
    by (auto simp: Downstream_open_def authorize_def recordRejection_def Let_def)
next
  case None
  obtain key ch s2 where reg: "registerChild (childNodeID c) (clearRejection (childNodeID c) s) = ((key, ch), s2)"
    by (metis prod.collapse)
  note fr = registerChild_frame [OF reg]
  have "r = Inr (key, ch)" "s' = s2" "m' = inc_conn ''downstream'' m"
    using assms(2) None reg by (auto simp: Downstream_open_def authorize_def Let_def)
  moreover have "ch = next_chan s" using fr(1) by (simp add: clearRejection_def)
  moreover have "fmlookup (children s) k \<noteq> Some (next_chan s)" for k
    using server_okD(1) [OF assms(1), of k "next_chan s"] by auto
  ultimately show ?thesis
    using None fr by (simp add: fr(8) clearRejection_def)
qed

theorem downstream_admission_witness:
  "\<exists>key ch. fst (Downstream_open 5 (claiming ''a'') (srv two_children) initial_metrics) = Inr (key, ch) \<and> key \<noteq> ''''"
proof -
  obtain r s' m' where d: "Downstream_open 5 (claiming ''a'') (srv two_children) initial_metrics = (r, s', m')"
    by (rule prod_cases3)
  show ?thesis
    using downstream_admission [OF two_children_ok d]
    by (auto simp: d two_children_sel noopAuthorizeChild_def)
qed

text \<open>
  An accepted Upstream call hands every envelope it receives to the hook, in the order of the
  stream and counted once each, and ends with the stream's error, or with the acknowledgement at
  the end of the stream; the gauge is raised before the first and lowered after the last.
\<close>

theorem upstream_in_order:
  assumes "authorizeChild s c (childNodeID c) = None" and "\<And>env mu. fst (h c env mu) = None"
  shows "Upstream (Some h) ack now c (map RecvEnv envs @ [RecvErr err]) s m u =
    (case up_all h c envs (inc_conn ''upstream'' m, u) of
       (m', u') \<Rightarrow> (Return (if err = Io_EOF then ack else Some err),
                   clearRejection (childNodeID c) s, dec_conn ''upstream'' m', u'))"
proof -
  have "Upstream_open now c s m = (None, clearRejection (childNodeID c) s, inc_conn ''upstream'' m)"
    using assms(1) by (simp add: Upstream_open_def authorize_def)
  moreover have "Upstream_loop (Some h) ack c (map RecvEnv envs @ [RecvErr err]) (inc_conn ''upstream'' m, u) =
      (Return (if err = Io_EOF then ack else Some err), up_all h c envs (inc_conn ''upstream'' m, u))"
    by (rule Upstream_loop_all [where h = h and c = c and rest = "[]"]) (rule assms(2))
  ultimately show ?thesis
    by (cases "up_all h c envs (inc_conn ''upstream'' m, u)") (simp add: Upstream_def)
qed

theorem upstream_in_order_witness:
  "snd (snd (snd (Upstream (Some (\<lambda>c env (m, u). (None, m, u @ [EnvId env]))) None 3 (claiming ''a'')
     (map RecvEnv [greeting, greeting\<lparr>EnvId := ''n-2''\<rparr>] @ [RecvErr Io_EOF]) (srv two_children) initial_metrics []))) =
   [''n-1'', ''n-2'']"
proof -
  have acc: "authorizeChild (srv two_children) (claiming ''a'') (childNodeID (claiming ''a'')) = None"
    by (simp add: two_children_sel noopAuthorizeChild_def)
  show ?thesis
    by (subst upstream_in_order [OF acc]) (auto simp: up_all_def greeting_def)
qed

subsection \<open>Transport security\<close>

text \<open>
  C27. A server with an mTLS authenticator never listens without it: \<open>Listen\<close> either fails before
  a gRPC server exists, leaving the field as it was, or serves with the configured certificate,
  requiring from every child a certificate that the configured pool verifies.
\<close>

theorem listen_requires_client_certs:
  assumes "srv_authn s = Some (mtls lib au)" and "Listen net serve a s = (e, s')"
  shows "(s' = s \<and> e \<noteq> None) \<or>
    (\<exists>pem pool cert cfg. ReadFile lib (caCertPath au) = Inr pem \<and>
       AppendCertsFromPEM lib pem = Some pool \<and> LoadX509KeyPair lib (certPath au) (keyPath au) = Inr cert \<and>
       ClientAuth cfg = RequireAndVerifyClientCert \<and> ClientCAs cfg = Some pool \<and>
       Certificates cfg = [cert] \<and> e = serve (TLS cfg) \<and>
       s' = s\<lparr>grpcServer := Some (GrpcServer (TLS cfg) False)\<rparr>)"
proof (cases "net a")
  case (Some err)
  with assms show ?thesis by (auto simp: Listen_def)
next
  case None
  show ?thesis
  proof (cases "ServerTLSConfig lib au")
    case (Inl err)
    with assms None show ?thesis by (auto simp: Listen_def mtls_def)
  next
    case (Inr cfg)
    with assms None have "e = serve (TLS cfg)" "s' = s\<lparr>grpcServer := Some (GrpcServer (TLS cfg) False)\<rparr>"
      by (auto simp: Listen_def mtls_def)
    moreover obtain pem pool cert where c: "ReadFile lib (caCertPath au) = Inr pem"
      "AppendCertsFromPEM lib pem = Some pool" "LoadX509KeyPair lib (certPath au) (keyPath au) = Inr cert"
      "cfg = \<lparr>Certificates = [cert], RootCAs = None, ClientCAs = Some pool,
             ClientAuth = RequireAndVerifyClientCert\<rparr>"
      using Inr [unfolded ServerTLSConfig_cases] by blast
    ultimately show ?thesis
      by (intro disjI2 exI [of _ pem] exI [of _ pool] exI [of _ cert] exI [of _ cfg]) simp
  qed
qed

definition demo_tls :: tls_lib where
  "demo_tls = \<lparr>ReadFile = (\<lambda>p. Inr p), AppendCertsFromPEM = (\<lambda>pem. Some pem),
     LoadX509KeyPair = (\<lambda>c k. Inr c)\<rparr>"

definition demo_auth :: MTLSAuthenticator where
  "demo_auth = \<lparr>caCertPath = ''ca'', certPath = ''cert'', keyPath = ''key''\<rparr>"

theorem listen_requires_client_certs_witness:
  "\<exists>cfg. grpcServer (snd (Listen (\<lambda>_. None) (\<lambda>_. None) '':1'' (NewServer (Some (mtls demo_tls demo_auth))))) =
      Some (GrpcServer (TLS cfg) False) \<and> ClientAuth cfg = RequireAndVerifyClientCert"
proof -
  let ?s = "NewServer (Some (mtls demo_tls demo_auth))"
  obtain e s' where l: "Listen (\<lambda>_. None) (\<lambda>_. None) '':1'' ?s = (e, s')"
    by (cases "Listen (\<lambda>_. None) (\<lambda>_. None) '':1'' ?s")
  have "e = None"
    using l by (auto simp: Listen_def NewServer_def mtls_def ServerTLSConfig_def loadCAPool_def
        loadKeyPair_def demo_tls_def split: sum.splits)
  moreover have "srv_authn ?s = Some (mtls demo_tls demo_auth)" by (simp add: NewServer_def)
  ultimately show ?thesis
    using listen_requires_client_certs [OF _ l, of demo_tls demo_auth] by (auto simp: l)
qed

end
