(* ===== verification/Client.thy ===== *)
theory Client
  imports Envelope Metrics Resolver_Auth
begin

text \<open>
  \<open>transport/client.go\<close>: the client side of a node, two independent RPCs to the parent.

  Everything the client asks of its resolver, of gRPC and of the \<open>context\<close> package is a field
  of \<open>grpc\<close>, a function that transforms the state \<open>'w\<close> of the world outside the client and
  gives the call's result. Connections, streams and cancel functions are handles.
\<close>

type_synonym conn = nat
type_synonym stream = nat
type_synonym cancel = nat

record 'w grpc =
  g_parentAddr :: "'w \<Rightarrow> (go_error + string) \<times> 'w"
  g_newClient :: "string \<Rightarrow> creds \<Rightarrow> 'w \<Rightarrow> (go_error + conn) \<times> 'w"
  g_withCancel :: "'w \<Rightarrow> cancel \<times> 'w"
  g_upstream :: "conn \<Rightarrow> string \<Rightarrow> 'w \<Rightarrow> (go_error + stream) \<times> 'w"
  g_downstream :: "conn \<Rightarrow> string \<Rightarrow> cancel \<Rightarrow> 'w \<Rightarrow> (go_error + stream) \<times> 'w"
  g_send :: "stream \<Rightarrow> envelope \<Rightarrow> 'w \<Rightarrow> go_error option \<times> 'w"
  g_cancel :: "cancel \<Rightarrow> 'w \<Rightarrow> 'w"
  g_close :: "conn \<Rightarrow> 'w \<Rightarrow> go_error option \<times> 'w"

record client =
  cl_nodeID :: string
  cl_authn :: "authenticator option"
  cl_dialer :: bool
  closed :: bool
  upstreamConn :: "conn option"
  upstreamStream :: "stream option"
  downstreamConn :: "conn option"
  downstreamStream :: "stream option"
  downstreamCancel :: "cancel option"

definition NewClient :: "string \<Rightarrow> authenticator option \<Rightarrow> client" where
  "NewClient nodeID a =
     \<lparr>cl_nodeID = nodeID, cl_authn = a, cl_dialer = False, closed = False,
      upstreamConn = None, upstreamStream = None, downstreamConn = None,
      downstreamStream = None, downstreamCancel = None\<rparr>"

subsection \<open>Dialling and reopening\<close>

definition client_creds :: "client \<Rightarrow> go_error + creds" where
  "client_creds c =
     (case cl_authn c of
        None \<Rightarrow> Inr Insecure
      | Some au \<Rightarrow>
          (case authClientTLS au of
             Inl err \<Rightarrow> Inl (Errorf ''client tls config: %w'' [] [err])
           | Inr cfg \<Rightarrow> Inr (TLS cfg)))"

definition dialParent :: "'w grpc \<Rightarrow> client \<Rightarrow> 'w \<Rightarrow> (go_error + conn) \<times> 'w" where
  "dialParent N c w =
     (case g_parentAddr N w of
        (Inl err, w1) \<Rightarrow> (Inl (Errorf ''resolve parent address: %w'' [] [err]), w1)
      | (Inr a, w1) \<Rightarrow>
          (case client_creds c of
             Inl err \<Rightarrow> (Inl err, w1)
           | Inr cr \<Rightarrow>
               (case g_newClient N (if cl_dialer c then ''passthrough:///'' @ a else a) cr w1 of
                  (Inl err, w2) \<Rightarrow> (Inl (Errorf ''dial parent %s: %w'' [a] [err]), w2)
                | (Inr k, w2) \<Rightarrow> (Inr k, w2))))"

text \<open>
  \<open>reopenUpstream\<close> and \<open>reopenDownstream\<close> hold \<open>c.mu\<close> twice, briefly, and dial in between
  without it. The three parts are separate definitions, because other goroutines may run
  between them.
\<close>

definition reopen_check :: "client \<Rightarrow> go_error option" where
  "reopen_check c = (if closed c then Some (Errorf ''client is closed'' [] []) else None)"

definition openUpstream :: "'w grpc \<Rightarrow> client \<Rightarrow> 'w \<Rightarrow> (go_error + conn \<times> stream) \<times> 'w" where
  "openUpstream N c w =
     (case dialParent N c w of
        (Inl err, w1) \<Rightarrow> (Inl err, w1)
      | (Inr k, w1) \<Rightarrow>
          (case g_upstream N k (cl_nodeID c) w1 of
             (Inl err, w2) \<Rightarrow>
               (Inl (Errorf ''open upstream to parent: %w'' [] [err]), snd (g_close N k w2))
           | (Inr st, w2) \<Rightarrow> (Inr (k, st), w2)))"

definition close_previous :: "'w grpc \<Rightarrow> conn option \<Rightarrow> 'w \<Rightarrow> 'w" where
  "close_previous N old w = (case old of None \<Rightarrow> w | Some k \<Rightarrow> snd (g_close N k w))"

definition commitUpstream :: "'w grpc \<Rightarrow> conn \<Rightarrow> stream \<Rightarrow> client \<Rightarrow> 'w \<Rightarrow> client \<times> 'w" where
  "commitUpstream N k st c w =
     (c\<lparr>upstreamConn := Some k, upstreamStream := Some st\<rparr>, close_previous N (upstreamConn c) w)"

definition reopenUpstream :: "'w grpc \<Rightarrow> client \<Rightarrow> 'w \<Rightarrow> go_error option \<times> client \<times> 'w" where
  "reopenUpstream N c w =
     (case reopen_check c of
        Some err \<Rightarrow> (Some err, c, w)
      | None \<Rightarrow>
          (case openUpstream N c w of
             (Inl err, w1) \<Rightarrow> (Some err, c, w1)
           | (Inr (k, st), w1) \<Rightarrow> (None, commitUpstream N k st c w1)))"

definition cancel_previous :: "'w grpc \<Rightarrow> client \<Rightarrow> 'w \<Rightarrow> 'w" where
  "cancel_previous N c w =
     (case downstreamCancel c of None \<Rightarrow> w | Some prev \<Rightarrow> g_cancel N prev w)"

definition openDownstream ::
  "'w grpc \<Rightarrow> client \<Rightarrow> 'w \<Rightarrow> (go_error + conn \<times> stream \<times> cancel) \<times> 'w"
where
  "openDownstream N c w =
     (case dialParent N c w of
        (Inl err, w1) \<Rightarrow> (Inl err, w1)
      | (Inr k, w1) \<Rightarrow>
          (case g_withCancel N w1 of
             (cn, w2) \<Rightarrow>
               (case g_downstream N k (cl_nodeID c) cn w2 of
                  (Inl err, w3) \<Rightarrow>
                    (Inl (Errorf ''open downstream to parent: %w'' [] [err]),
                     snd (g_close N k (g_cancel N cn w3)))
                | (Inr st, w3) \<Rightarrow> (Inr (k, st, cn), w3))))"

definition commitDownstream ::
  "'w grpc \<Rightarrow> conn \<Rightarrow> stream \<Rightarrow> cancel \<Rightarrow> client \<Rightarrow> 'w \<Rightarrow> client \<times> 'w"
where
  "commitDownstream N k st cn c w =
     (c\<lparr>downstreamConn := Some k, downstreamStream := Some st, downstreamCancel := Some cn\<rparr>,
      close_previous N (downstreamConn c) w)"

text \<open>On success the stream whose \<open>recvLoop\<close> is started is the new \<open>downstreamStream\<close>.\<close>

definition reopenDownstream :: "'w grpc \<Rightarrow> client \<Rightarrow> 'w \<Rightarrow> go_error option \<times> client \<times> 'w" where
  "reopenDownstream N c w =
     (case reopen_check c of
        Some err \<Rightarrow> (Some err, c, w)
      | None \<Rightarrow>
          (case openDownstream N c (cancel_previous N c w) of
             (Inl err, w1) \<Rightarrow> (Some err, c, w1)
           | (Inr (k, st, cn), w1) \<Rightarrow> (None, commitDownstream N k st cn c w1)))"

text \<open>\<open>Connect\<close> drops both errors and starts the reconnect loop.\<close>

definition Connect :: "'w grpc \<Rightarrow> client \<Rightarrow> 'w \<Rightarrow> go_error option \<times> client \<times> 'w" where
  "Connect N c w =
     (case reopenUpstream N c w of
        (_, c1, w1) \<Rightarrow>
          (case reopenDownstream N c1 w1 of (_, c2, w2) \<Rightarrow> (None, c2, w2)))"

text \<open>One tick of \<open>reconnectLoop\<close>; the flag says whether the loop goes on.\<close>

definition reconnect_tick :: "'w grpc \<Rightarrow> client \<Rightarrow> 'w \<Rightarrow> bool \<times> client \<times> 'w" where
  "reconnect_tick N c w =
     (if closed c then (False, c, w)
      else
        (let needsUp = upstreamStream c = None; needsDown = downstreamStream c = None;
             (c1, w1) = (if needsUp then snd (reopenUpstream N c w) else (c, w));
             (c2, w2) = (if needsDown then snd (reopenDownstream N c1 w1) else (c1, w1))
         in (True, c2, w2)))"

subsection \<open>Receiving\<close>

text \<open>What \<open>onDownstream\<close> does to the rest of the process is a state \<open>'u\<close> it transforms.\<close>

type_synonym 'u down_hook = "envelope \<Rightarrow> metrics \<times> 'u \<Rightarrow> metrics \<times> 'u"

definition recvLoop_failed :: "stream \<Rightarrow> client \<Rightarrow> client" where
  "recvLoop_failed st c =
     (if downstreamStream c = Some st then c\<lparr>downstreamStream := None\<rparr> else c)"

definition recvLoop_received :: "'u down_hook option \<Rightarrow> envelope \<Rightarrow> metrics \<times> 'u \<Rightarrow> metrics \<times> 'u" where
  "recvLoop_received onDown env mu =
     (case mu of
        (m, u) \<Rightarrow>
          (case onDown of
             None \<Rightarrow> (inc_received ''downstream'' m, u)
           | Some h \<Rightarrow> h env (inc_received ''downstream'' m, u)))"

text \<open>
  The loop over what a stream yields (\<open>Inl\<close> an error, which ends it): whether it has ended,
  and the resulting client, metrics and process state.
\<close>

fun recvLoop ::
  "'u down_hook option \<Rightarrow> stream \<Rightarrow> (go_error + envelope) list \<Rightarrow> client \<Rightarrow> metrics \<times> 'u
    \<Rightarrow> bool \<times> client \<times> metrics \<times> 'u"
where
  "recvLoop onDown st [] c mu = (False, c, mu)"
| "recvLoop onDown st (Inl err # rs) c mu = (True, recvLoop_failed st c, mu)"
| "recvLoop onDown st (Inr env # rs) c mu = recvLoop onDown st rs c (recvLoop_received onDown env mu)"

subsection \<open>Sending\<close>

text \<open>
  \<open>Panicked\<close> is the nil dereference a \<open>Send\<close> on a nil stream would be.
\<close>

datatype 'a outcome = Panicked | Returned 'a

definition send_on ::
  "'w grpc \<Rightarrow> envelope \<Rightarrow> stream \<Rightarrow> client \<Rightarrow> 'w \<Rightarrow> go_error option outcome \<times> client \<times> 'w"
where
  "send_on N env st c w =
     (case g_send N st env w of
        (None, w1) \<Rightarrow> (Returned None, c, w1)
      | (Some err, w1) \<Rightarrow>
          (case reopenUpstream N c w1 of
             (Some reopenErr, c2, w2) \<Rightarrow>
               (Returned (Some (Errorf ''send upstream: %w (reopen also failed: %v)'' [] [err, reopenErr])), c2, w2)
           | (None, c2, w2) \<Rightarrow>
               (Returned (Some (Errorf ''send upstream on stale stream, reopened for next attempt: %w'' [] [err])), c2, w2)))"

definition sendUpstream ::
  "'w grpc \<Rightarrow> envelope \<Rightarrow> client \<Rightarrow> 'w \<Rightarrow> go_error option outcome \<times> client \<times> 'w"
where
  "sendUpstream N env c w =
     (case upstreamStream c of
        Some st \<Rightarrow> send_on N env st c w
      | None \<Rightarrow>
          (case reopenUpstream N c w of
             (Some err, c1, w1) \<Rightarrow> (Returned (Some (Errorf ''client not connected: %w'' [] [err])), c1, w1)
           | (None, c1, w1) \<Rightarrow>
               (case upstreamStream c1 of
                  None \<Rightarrow> (Panicked, c1, w1)
                | Some st \<Rightarrow> send_on N env st c1 w1)))"

definition SendUpstream ::
  "'w grpc \<Rightarrow> envelope \<Rightarrow> client \<Rightarrow> metrics \<Rightarrow> 'w \<Rightarrow> go_error option outcome \<times> client \<times> metrics \<times> 'w"
where
  "SendUpstream N env c m w =
     (case sendUpstream N env c w of
        (Panicked, c1, w1) \<Rightarrow> (Panicked, c1, m, w1)
      | (Returned (Some err), c1, w1) \<Rightarrow> (Returned (Some err), c1, observe_latency ''failure'' m, w1)
      | (Returned None, c1, w1) \<Rightarrow>
          (Returned None, c1, observe_latency ''success'' (inc_sent ''upstream'' m), w1))"

subsection \<open>Status and shutdown\<close>

definition Connected :: "client \<Rightarrow> bool" where
  "Connected c \<longleftrightarrow> \<not> closed c \<and> upstreamStream c \<noteq> None \<and> downstreamStream c \<noteq> None"

definition close_conn :: "'w grpc \<Rightarrow> conn option \<Rightarrow> go_error option \<Rightarrow> 'w \<Rightarrow> go_error option \<times> 'w" where
  "close_conn N k firstErr w =
     (case k of
        None \<Rightarrow> (firstErr, w)
      | Some k \<Rightarrow>
          (case g_close N k w of
             (err, w1) \<Rightarrow> (if err \<noteq> None \<and> firstErr = None then err else firstErr, w1)))"

definition Close :: "'w grpc \<Rightarrow> client \<Rightarrow> 'w \<Rightarrow> go_error option \<times> client \<times> 'w" where
  "Close N c w =
     (let c1 = c\<lparr>closed := True\<rparr>;
          w1 = (case downstreamCancel c of None \<Rightarrow> w | Some cn \<Rightarrow> g_cancel N cn w);
          (e1, w2) = close_conn N (upstreamConn c) None w1;
          (e2, w3) = close_conn N (downstreamConn c) e1 w2
      in (e2, c1, w3))"

end
