(* ===== verification/Client_Facts.thy ===== *)
theory Client_Facts
  imports Client
begin

text \<open>
  Facts about the single operations of \<open>Client\<close>: what reopening changes, that an upstream
  stream once opened stays set, that sending never meets a nil stream, and the ledger of sends
  that counts what one call of \<open>SendUpstream\<close> puts on the wire.
\<close>

subsection \<open>Reopening\<close>

lemma reopenUpstream_cases:
  assumes "reopenUpstream N c w = (r, c', w')"
  obtains (failed) e where "r = Some e" "c' = c"
    | (opened) k st where "r = None" "\<not> closed c"
        "c' = c\<lparr>upstreamConn := Some k, upstreamStream := Some st\<rparr>"
  using assms
  by (auto simp: reopenUpstream_def reopen_check_def commitUpstream_def
      split: if_splits option.splits sum.splits prod.splits)

lemma reopenDownstream_cases:
  assumes "reopenDownstream N c w = (r, c', w')"
  obtains (failed) e where "r = Some e" "c' = c"
    | (opened) k st cn where "r = None" "\<not> closed c"
        "c' = c\<lparr>downstreamConn := Some k, downstreamStream := Some st, downstreamCancel := Some cn\<rparr>"
  using assms
  by (auto simp: reopenDownstream_def reopen_check_def commitDownstream_def
      split: if_splits option.splits sum.splits prod.splits)

lemma reopen_closed:
  assumes "closed c"
  shows "reopenUpstream N c w = (Some (Errorf ''client is closed'' [] []), c, w)"
    and "reopenDownstream N c w = (Some (Errorf ''client is closed'' [] []), c, w)"
  using assms by (simp_all add: reopenUpstream_def reopenDownstream_def reopen_check_def)

text \<open>What an operation of the upstream side may change: the two upstream fields.\<close>

definition up_only :: "client \<Rightarrow> client \<Rightarrow> bool" where
  "up_only c c' \<longleftrightarrow>
     c' = c\<lparr>upstreamConn := upstreamConn c', upstreamStream := upstreamStream c'\<rparr> \<and>
     (upstreamStream c \<noteq> None \<longrightarrow> upstreamStream c' \<noteq> None)"

lemma up_only_refl [simp]: "up_only c c"
  by (simp add: up_only_def)

lemma up_only_trans: "up_only c c' \<Longrightarrow> up_only c' c'' \<Longrightarrow> up_only c c''"
  unfolding up_only_def by (cases c; cases c'; cases c'') auto

lemma up_only_set [simp]: "up_only c (c\<lparr>upstreamConn := k, upstreamStream := Some st\<rparr>)"
  by (simp add: up_only_def)

lemma reopenUpstream_up_only: "reopenUpstream N c w = (r, c', w') \<Longrightarrow> up_only c c'"
  by (erule reopenUpstream_cases) simp_all

lemma up_onlyD:
  assumes "up_only c c'"
  shows "closed c' = closed c" "downstreamStream c' = downstreamStream c"
    "downstreamConn c' = downstreamConn c" "downstreamCancel c' = downstreamCancel c"
    "cl_nodeID c' = cl_nodeID c" "cl_authn c' = cl_authn c"
    "upstreamStream c \<noteq> None \<Longrightarrow> upstreamStream c' \<noteq> None"
proof -
  have eq: "c' = c\<lparr>upstreamConn := upstreamConn c', upstreamStream := upstreamStream c'\<rparr>"
    using assms by (simp add: up_only_def)
  show "closed c' = closed c" "downstreamStream c' = downstreamStream c"
    "downstreamConn c' = downstreamConn c" "downstreamCancel c' = downstreamCancel c"
    "cl_nodeID c' = cl_nodeID c" "cl_authn c' = cl_authn c"
    by (subst eq, simp)+
  show "upstreamStream c \<noteq> None \<Longrightarrow> upstreamStream c' \<noteq> None"
    using assms by (simp add: up_only_def)
qed

lemma reopenDownstream_keeps_up:
  "reopenDownstream N c w = (r, c', w') \<Longrightarrow>
     upstreamStream c' = upstreamStream c \<and> upstreamConn c' = upstreamConn c \<and> closed c' = closed c"
  by (erule reopenDownstream_cases) simp_all

subsection \<open>Sending\<close>

lemma send_on_returns:
  assumes "send_on N env st c w = (r, c', w')"
  shows "r \<noteq> Panicked" and "up_only c c'"
  using assms
  by (auto simp: send_on_def split: prod.splits option.splits dest: reopenUpstream_up_only)

lemma sendUpstream_returns:
  assumes run: "sendUpstream N env c w = (r, c', w')"
  shows "r \<noteq> Panicked \<and> up_only c c'"
proof (cases "upstreamStream c")
  case (Some st)
  with run show ?thesis by (auto simp: sendUpstream_def dest: send_on_returns)
next
  case None
  obtain r1 c1 w1 where re: "reopenUpstream N c w = (r1, c1, w1)" by (cases "reopenUpstream N c w")
  then show ?thesis
  proof (cases rule: reopenUpstream_cases)
    case (failed e)
    with run None re show ?thesis by (auto simp: sendUpstream_def)
  next
    case (opened k st)
    then have "send_on N env st c1 w1 = (r, c', w')"
      using run None re by (simp add: sendUpstream_def)
    then show ?thesis
      using send_on_returns [of N env st c1 w1 r c' w'] opened(3) up_only_trans [of c c1 c'] by auto
  qed
qed

lemma SendUpstream_cases:
  assumes "SendUpstream N env c m w = (r, c', m', w')"
  obtains (sent) "r = Returned None" "sendUpstream N env c w = (Returned None, c', w')"
        "m' = observe_latency ''success'' (inc_sent ''upstream'' m)" "up_only c c'"
    | (failed) e where "r = Returned (Some e)" "sendUpstream N env c w = (Returned (Some e), c', w')"
        "m' = observe_latency ''failure'' m" "up_only c c'"
proof -
  obtain r0 c0 w0 where s: "sendUpstream N env c w = (r0, c0, w0)" by (cases "sendUpstream N env c w")
  note ret = sendUpstream_returns [OF s]
  then show thesis
    using assms s sent failed
    by (cases r0) (auto simp: SendUpstream_def split: option.splits)
qed

subsection \<open>A ledger of sends\<close>

text \<open>
  The same network, with the log of every \<open>Send\<close> on an upstream stream and of whether it
  succeeded kept next to its state.
\<close>

type_synonym send_log = "(stream \<times> envelope \<times> bool) list"

definition with_log :: "('w \<Rightarrow> 'r \<times> 'w) \<Rightarrow> 'w \<times> send_log \<Rightarrow> 'r \<times> 'w \<times> send_log" where
  "with_log f wl = (case wl of (w, l) \<Rightarrow> (case f w of (r, w') \<Rightarrow> (r, w', l)))"

definition logged :: "'w grpc \<Rightarrow> ('w \<times> send_log) grpc" where
  "logged N =
     \<lparr>g_parentAddr = with_log (g_parentAddr N),
      g_newClient = (\<lambda>a cr. with_log (g_newClient N a cr)),
      g_withCancel = with_log (g_withCancel N),
      g_upstream = (\<lambda>k i. with_log (g_upstream N k i)),
      g_downstream = (\<lambda>k i cn. with_log (g_downstream N k i cn)),
      g_send = (\<lambda>st env (w, l). case g_send N st env w of (e, w') \<Rightarrow> (e, w', l @ [(st, env, e = None)])),
      g_cancel = (\<lambda>cn (w, l). (g_cancel N cn w, l)),
      g_close = (\<lambda>k. with_log (g_close N k))\<rparr>"

lemma with_log_snd: "with_log f (w, l) = (r, w', l') \<Longrightarrow> l' = l"
  by (auto simp: with_log_def split: prod.splits)

lemma dialParent_logged: "dialParent (logged N) c (w, l) = (r, w', l') \<Longrightarrow> l' = l"
  by (auto simp: dialParent_def logged_def split: prod.splits sum.splits dest!: with_log_snd)

lemma openUpstream_logged: "openUpstream (logged N) c (w, l) = (r, w', l') \<Longrightarrow> l' = l"
  by (auto simp: openUpstream_def split: prod.splits sum.splits dest!: dialParent_logged)
    (auto simp: logged_def with_log_def split: prod.splits)

lemma reopenUpstream_logged: "reopenUpstream (logged N) c (w, l) = (r, c', w', l') \<Longrightarrow> l' = l"
  by (auto simp: reopenUpstream_def commitUpstream_def close_previous_def
      split: option.splits prod.splits sum.splits dest!: openUpstream_logged)
    (auto simp: logged_def with_log_def split: prod.splits)

lemma send_on_logged:
  assumes "send_on (logged N) env st c (w, l) = (r, c', w', l')"
  shows "\<exists>ok. l' = l @ [(st, env, ok)] \<and> (r = Returned None \<longleftrightarrow> ok)"
proof -
  obtain e w1 where s: "g_send N st env w = (e, w1)" by (cases "g_send N st env w")
  then have "g_send (logged N) st env (w, l) = (e, w1, l @ [(st, env, e = None)])"
    by (simp add: logged_def)
  with assms show ?thesis
    by (cases e) (auto simp: send_on_def split: prod.splits option.splits dest!: reopenUpstream_logged)
qed

lemma SendUpstream_logged:
  assumes run: "SendUpstream (logged N) env c m (w, l) = (r, c', m', w', l')"
  shows "(r = Returned None \<and> (\<exists>st. l' = l @ [(st, env, True)])) \<or>
    (\<exists>e. r = Returned (Some e) \<and> (l' = l \<or> (\<exists>st. l' = l @ [(st, env, False)])))"
proof -
  obtain r0 where s: "sendUpstream (logged N) env c (w, l) = (r0, c', w', l')" and r0: "r = r0"
    using run by (cases rule: SendUpstream_cases) auto
  have np: "r0 \<noteq> Panicked" using sendUpstream_returns [OF s] by simp
  have on: ?thesis if "send_on (logged N) env st c1 (w1, l) = (r0, c', w', l')" for st c1 w1
    using send_on_logged [OF that] r0 np by (cases r0; cases "r0 = Returned None") auto
  show ?thesis
  proof (cases "upstreamStream c")
    case (Some st)
    with s show ?thesis by (intro on [of st c w]) (simp add: sendUpstream_def)
  next
    case None
    obtain r1 c1 w1 l1 where re: "reopenUpstream (logged N) c (w, l) = (r1, c1, w1, l1)"
      by (metis surj_pair)
    then have [simp]: "l1 = l" by (rule reopenUpstream_logged)
    from re show ?thesis
    proof (cases rule: reopenUpstream_cases)
      case (failed e)
      with s None re r0 show ?thesis by (auto simp: sendUpstream_def)
    next
      case (opened k st)
      with s None re show ?thesis by (intro on [of st c1 w1]) (simp add: sendUpstream_def)
    qed
  qed
qed

subsection \<open>What the network leaves alone\<close>

text \<open>
  A part \<open>I\<close> of the world that no call of the network changes (a database of the service, say)
  is not changed by the client either.
\<close>

definition net_frame :: "('w \<Rightarrow> 'a) \<Rightarrow> 'w grpc \<Rightarrow> bool" where
  "net_frame I N \<longleftrightarrow>
     (\<forall>w. I (snd (g_parentAddr N w)) = I w) \<and> (\<forall>w. I (snd (g_withCancel N w)) = I w) \<and>
     (\<forall>a cr w. I (snd (g_newClient N a cr w)) = I w) \<and> (\<forall>k i w. I (snd (g_upstream N k i w)) = I w) \<and>
     (\<forall>k i cn w. I (snd (g_downstream N k i cn w)) = I w) \<and>
     (\<forall>st env w. I (snd (g_send N st env w)) = I w) \<and> (\<forall>cn w. I (g_cancel N cn w) = I w) \<and>
     (\<forall>k w. I (snd (g_close N k w)) = I w)"

lemma net_frameD:
  assumes "net_frame I N"
  shows "g_parentAddr N w = (r1, w') \<Longrightarrow> I w' = I w"
    and "g_newClient N a cr w = (r3, w') \<Longrightarrow> I w' = I w"
    and "g_upstream N k i w = (r3, w') \<Longrightarrow> I w' = I w"
    and "g_send N st env w = (r5, w') \<Longrightarrow> I w' = I w"
    and "I (snd (g_close N k w)) = I w" and "I (g_cancel N cn w) = I w"
  using assms unfolding net_frame_def by (metis snd_conv)+

lemma net_frame_dial:
  assumes fr: "net_frame I N" and run: "dialParent N c w = (r, w')"
  shows "I w' = I w"
  using run net_frameD(1,2) [OF fr]
  by (auto simp: dialParent_def split: prod.splits sum.splits)

lemma net_frame_close_previous: "net_frame I N \<Longrightarrow> I (close_previous N k w) = I w"
  by (simp add: close_previous_def net_frameD(5) split: option.split)

lemma net_frame_reopenUpstream:
  assumes fr: "net_frame I N" and run: "reopenUpstream N c w = (r, c', w')"
  shows "I w' = I w"
proof -
  have "I w1 = I w" if "openUpstream N c w = (r1, w1)" for r1 w1
    using that net_frame_dial [OF fr] net_frameD(3,5) [OF fr]
    by (auto simp: openUpstream_def split: prod.splits sum.splits)
  then show ?thesis
    using run net_frame_close_previous [OF fr]
    by (auto simp: reopenUpstream_def commitUpstream_def split: option.splits prod.splits sum.splits)
qed

lemma net_frame_openDownstream:
  assumes fr: "net_frame I N" and run: "openDownstream N c w = (r, w')"
  shows "I w' = I w"
proof (cases "dialParent N c w")
  case (Pair d w1)
  then have w1: "I w1 = I w" by (rule net_frame_dial [OF fr])
  show ?thesis
  proof (cases d)
    case (Inl err)
    with Pair run w1 show ?thesis by (simp add: openDownstream_def)
  next
    case (Inr k)
    obtain cn w2 where cn: "g_withCancel N w1 = (cn, w2)" by (cases "g_withCancel N w1")
    obtain s w3 where st: "g_downstream N k (cl_nodeID c) cn w2 = (s, w3)"
      by (cases "g_downstream N k (cl_nodeID c) cn w2")
    have "I w3 = I w"
      using fr w1 cn st unfolding net_frame_def by (metis snd_conv)
    then show ?thesis
      using Pair Inr cn st run net_frameD(5,6) [OF fr]
      by (auto simp: openDownstream_def split: sum.splits)
  qed
qed

lemma net_frame_reopenDownstream:
  assumes fr: "net_frame I N" and run: "reopenDownstream N c w = (r, c', w')"
  shows "I w' = I w"
proof (cases "reopen_check c")
  case None
  have prev: "I (cancel_previous N c w) = I w"
    by (simp add: cancel_previous_def net_frameD(6) [OF fr] split: option.split)
  obtain o1 w1 where op: "openDownstream N c (cancel_previous N c w) = (o1, w1)"
    by (cases "openDownstream N c (cancel_previous N c w)")
  have "I w1 = I w" using net_frame_openDownstream [OF fr op] prev by simp
  with run None op show ?thesis
    by (auto simp: reopenDownstream_def commitDownstream_def net_frame_close_previous [OF fr]
        split: sum.splits)
qed (use run in \<open>simp add: reopenDownstream_def\<close>)

lemma net_frame_Connect:
  assumes fr: "net_frame I N" and run: "Connect N c w = (r, c', w')"
  shows "I w' = I w"
  using run
  by (auto simp: Connect_def split: prod.splits
      dest!: net_frame_reopenUpstream [OF fr] net_frame_reopenDownstream [OF fr])

lemma Connect_returns_nil: "fst (Connect N c w) = None"
  by (simp add: Connect_def split: prod.split)

lemma net_frame_send_on:
  assumes fr: "net_frame I N" and run: "send_on N env st c w = (r, c', w')"
  shows "I w' = I w"
proof -
  obtain e w1 where s: "g_send N st env w = (e, w1)" by (cases "g_send N st env w")
  have "I w1 = I w" by (rule net_frameD(4) [OF fr s])
  with run s show ?thesis
    by (auto simp: send_on_def split: prod.splits option.splits dest: net_frame_reopenUpstream [OF fr])
qed

lemma net_frame_SendUpstream:
  assumes fr: "net_frame I N" and run: "SendUpstream N env c m w = (r, c', m', w')"
  shows "I w' = I w"
proof -
  obtain r0 where s: "sendUpstream N env c w = (r0, c', w')"
    using run by (cases rule: SendUpstream_cases) auto
  show ?thesis
  proof (cases "upstreamStream c")
    case (Some st)
    with s show ?thesis by (simp add: sendUpstream_def net_frame_send_on [OF fr])
  next
    case None
    obtain r1 c1 w1 where re: "reopenUpstream N c w = (r1, c1, w1)"
      by (cases "reopenUpstream N c w")
    have "I w1 = I w" by (rule net_frame_reopenUpstream [OF fr re])
    with s None re show ?thesis
      by (auto simp: sendUpstream_def split: option.splits dest: net_frame_send_on [OF fr])
  qed
qed

subsection \<open>The receive loop\<close>

text \<open>
  The envelopes of the stream are handled in order, up to the first error, which clears the
  downstream stream if it is still the loop's own.
\<close>

lemma recvLoop_all:
  "recvLoop onDown st (map Inr envs) c mu =
     (False, c, foldl (\<lambda>mu env. recvLoop_received onDown env mu) mu envs)"
  by (induction envs arbitrary: mu) simp_all

lemma recvLoop_ends:
  "recvLoop onDown st (map Inr envs @ Inl err # rest) c mu =
     (True, recvLoop_failed st c, foldl (\<lambda>mu env. recvLoop_received onDown env mu) mu envs)"
  by (induction envs arbitrary: mu) simp_all

end
