(* ===== verification/Client_System.thy ===== *)
theory Client_System
  imports Client_Facts "HOL-Library.Multiset"
begin

text \<open>
  The client with all its goroutines: reopenings by \<open>Connect\<close>, the reconnect loop and senders,
  receive loops, and \<open>Close\<close>, interleaved at the granularity of the critical sections of
  \<open>c.mu\<close>. A reopening checks \<open>closed\<close>, dials without the lock, then installs the result.

  Which connections are open is a function \<open>opens\<close> of the state of gRPC. The documented
  behaviour the code relies on is \<open>grpc_ledger\<close>: \<open>grpc.NewClient\<close> opens a connection that was
  not open before, \<open>Close\<close> closes the given one, nothing else changes what is open.
\<close>

definition keeps :: "('w \<Rightarrow> conn set) \<Rightarrow> ('w \<Rightarrow> 'r \<times> 'w) \<Rightarrow> bool" where
  "keeps opens f \<longleftrightarrow> (\<forall>w. opens (snd (f w)) = opens w)"

definition grpc_ledger :: "'w grpc \<Rightarrow> ('w \<Rightarrow> conn set) \<Rightarrow> bool" where
  "grpc_ledger N opens \<longleftrightarrow>
     keeps opens (g_parentAddr N) \<and> keeps opens (g_withCancel N) \<and>
     (\<forall>k i. keeps opens (g_upstream N k i)) \<and> (\<forall>k i cn. keeps opens (g_downstream N k i cn)) \<and>
     (\<forall>st env. keeps opens (g_send N st env)) \<and> (\<forall>cn w. opens (g_cancel N cn w) = opens w) \<and>
     (\<forall>k w. opens (snd (g_close N k w)) = opens w - {k}) \<and>
     (\<forall>a cr w. case g_newClient N a cr w of
        (Inl e, w') \<Rightarrow> opens w' = opens w
      | (Inr k, w') \<Rightarrow> k \<notin> opens w \<and> opens w' = insert k (opens w))"

record 'w cl_sys =
  cl :: client
  wd :: 'w
  up_checked :: nat
  up_flight :: "(conn \<times> stream) multiset"
  down_checked :: nat
  down_flight :: "(conn \<times> stream \<times> cancel) multiset"
  loops :: "stream multiset"

definition init_cl_sys :: "string \<Rightarrow> authenticator option \<Rightarrow> 'w \<Rightarrow> 'w cl_sys" where
  "init_cl_sys i a w =
     \<lparr>cl = NewClient i a, wd = w, up_checked = 0, up_flight = {#}, down_checked = 0,
      down_flight = {#}, loops = {#}\<rparr>"

inductive client_step :: "'w grpc \<Rightarrow> ('w \<Rightarrow> conn set) \<Rightarrow> 'w cl_sys \<Rightarrow> 'w cl_sys \<Rightarrow> bool"
  for N opens where
  up_check:
    "reopen_check (cl y) = None \<Longrightarrow> client_step N opens y (y\<lparr>up_checked := up_checked y + 1\<rparr>)"
| up_dial_failed:
    "0 < up_checked y \<Longrightarrow> openUpstream N (cl y) (wd y) = (Inl e, w') \<Longrightarrow>
     client_step N opens y (y\<lparr>wd := w', up_checked := up_checked y - 1\<rparr>)"
| up_dialled:
    "0 < up_checked y \<Longrightarrow> openUpstream N (cl y) (wd y) = (Inr (k, st), w') \<Longrightarrow>
     client_step N opens y (y\<lparr>wd := w', up_checked := up_checked y - 1,
       up_flight := add_mset (k, st) (up_flight y)\<rparr>)"
| up_commit:
    "(k, st) \<in># up_flight y \<Longrightarrow> commitUpstream N k st (cl y) (wd y) = (c', w') \<Longrightarrow>
     client_step N opens y (y\<lparr>cl := c', wd := w', up_flight := up_flight y - {#(k, st)#}\<rparr>)"
| down_check:
    "reopen_check (cl y) = None \<Longrightarrow>
     client_step N opens y (y\<lparr>wd := cancel_previous N (cl y) (wd y), down_checked := down_checked y + 1\<rparr>)"
| down_dial_failed:
    "0 < down_checked y \<Longrightarrow> openDownstream N (cl y) (wd y) = (Inl e, w') \<Longrightarrow>
     client_step N opens y (y\<lparr>wd := w', down_checked := down_checked y - 1\<rparr>)"
| down_dialled:
    "0 < down_checked y \<Longrightarrow> openDownstream N (cl y) (wd y) = (Inr (k, st, cn), w') \<Longrightarrow>
     client_step N opens y (y\<lparr>wd := w', down_checked := down_checked y - 1,
       down_flight := add_mset (k, st, cn) (down_flight y)\<rparr>)"
| down_commit:
    "(k, st, cn) \<in># down_flight y \<Longrightarrow> commitDownstream N k st cn (cl y) (wd y) = (c', w') \<Longrightarrow>
     client_step N opens y (y\<lparr>cl := c', wd := w', down_flight := down_flight y - {#(k, st, cn)#},
       loops := add_mset st (loops y)\<rparr>)"
| recv_failed:
    "st \<in># loops y \<Longrightarrow>
     client_step N opens y (y\<lparr>cl := recvLoop_failed st (cl y), loops := loops y - {#st#}\<rparr>)"
| send:
    "upstreamStream (cl y) = Some st \<Longrightarrow> g_send N st env (wd y) = (e, w') \<Longrightarrow>
     client_step N opens y (y\<lparr>wd := w'\<rparr>)"
| close:
    "Close N (cl y) (wd y) = (e, c', w') \<Longrightarrow> client_step N opens y (y\<lparr>cl := c', wd := w'\<rparr>)"
| environment:
    "opens w' = opens (wd y) \<Longrightarrow> client_step N opens y (y\<lparr>wd := w'\<rparr>)"

inductive client_reach :: "'w grpc \<Rightarrow> ('w \<Rightarrow> conn set) \<Rightarrow> 'w cl_sys \<Rightarrow> bool" for N opens where
  reach_new: "opens w = {} \<Longrightarrow> client_reach N opens (init_cl_sys i a w)"
| reach_next: "client_reach N opens y \<Longrightarrow> client_step N opens y y' \<Longrightarrow> client_reach N opens y'"

subsection \<open>What the parts of a reopening do to the open connections\<close>

lemma ledger_snd:
  assumes "grpc_ledger N opens"
  shows "opens (snd (g_parentAddr N w)) = opens w" "opens (snd (g_withCancel N w)) = opens w"
    "opens (snd (g_upstream N k i w)) = opens w" "opens (snd (g_downstream N k i cn w)) = opens w"
    "opens (snd (g_send N st env w)) = opens w" "opens (g_cancel N cn w) = opens w"
    "opens (snd (g_close N k w)) = opens w - {k}"
    "case g_newClient N a cr w of (Inl e, w') \<Rightarrow> opens w' = opens w
      | (Inr k, w') \<Rightarrow> k \<notin> opens w \<and> opens w' = insert k (opens w)"
  using assms by (simp_all add: grpc_ledger_def keeps_def)

lemma ledgerD:
  assumes "grpc_ledger N opens"
  shows "g_parentAddr N w = (r1, w') \<Longrightarrow> opens w' = opens w"
    and "g_withCancel N w = (r2, w') \<Longrightarrow> opens w' = opens w"
    and "g_upstream N k i w = (r3, w') \<Longrightarrow> opens w' = opens w"
    and "g_downstream N k i cn w = (r4, w') \<Longrightarrow> opens w' = opens w"
    and "g_send N st env w = (r5, w') \<Longrightarrow> opens w' = opens w"
    and "g_close N k w = (r6, w') \<Longrightarrow> opens w' = opens w - {k}"
    and "g_newClient N a cr w = (Inl e, w') \<Longrightarrow> opens w' = opens w"
    and "g_newClient N a cr w = (Inr k, w') \<Longrightarrow> k \<notin> opens w \<and> opens w' = insert k (opens w)"
proof (goal_cases)
  case 1
  then show ?case using ledger_snd(1) [OF assms, where w = w] by simp
next
  case 2
  then show ?case using ledger_snd(2) [OF assms, where w = w] by simp
next
  case 3
  then show ?case using ledger_snd(3) [OF assms, where w = w and k = k and i = i] by simp
next
  case 4
  then show ?case using ledger_snd(4) [OF assms, where w = w and k = k and i = i and cn = cn] by simp
next
  case 5
  then show ?case using ledger_snd(5) [OF assms, where w = w and st = st and env = env] by simp
next
  case 6
  then show ?case using ledger_snd(7) [OF assms, where w = w and k = k] by simp
next
  case 7
  then show ?case using ledger_snd(8) [OF assms, where w = w and a = a and cr = cr] by simp
next
  case 8
  then show ?case using ledger_snd(8) [OF assms, where w = w and a = a and cr = cr] by simp
qed

lemma dialParent_ledger:
  assumes "grpc_ledger N opens" and "dialParent N c w = (r, w')"
  shows "case r of Inl e \<Rightarrow> opens w' = opens w | Inr k \<Rightarrow> k \<notin> opens w \<and> opens w' = insert k (opens w)"
  using assms(2)
  by (auto simp: dialParent_def split: prod.splits sum.splits
      dest: ledgerD(1) [OF assms(1)] ledgerD(7) [OF assms(1)] ledgerD(8) [OF assms(1)])

lemma openUpstream_ledger:
  assumes led: "grpc_ledger N opens" and run: "openUpstream N c w = (r, w')"
  shows "case r of Inl e \<Rightarrow> opens w' = opens w | Inr (k, st) \<Rightarrow> k \<notin> opens w \<and> opens w' = insert k (opens w)"
proof -
  obtain d w1 where d: "dialParent N c w = (d, w1)" by (cases "dialParent N c w")
  note dial = dialParent_ledger [OF led d]
  show ?thesis
  proof (cases d)
    case (Inl e)
    with run d dial show ?thesis by (auto simp: openUpstream_def)
  next
    case (Inr k)
    obtain u w2 where u: "g_upstream N k (cl_nodeID c) w1 = (u, w2)"
      by (cases "g_upstream N k (cl_nodeID c) w1")
    have "opens w2 = opens w1" by (rule ledgerD(3) [OF led u])
    with run d dial Inr u show ?thesis
      by (cases u) (auto simp: openUpstream_def ledger_snd(7) [OF led])
  qed
qed

lemma openDownstream_ledger:
  assumes led: "grpc_ledger N opens" and run: "openDownstream N c w = (r, w')"
  shows "case r of Inl e \<Rightarrow> opens w' = opens w
    | Inr (k, st, cn) \<Rightarrow> k \<notin> opens w \<and> opens w' = insert k (opens w)"
proof -
  obtain d w1 where d: "dialParent N c w = (d, w1)" by (cases "dialParent N c w")
  note dial = dialParent_ledger [OF led d]
  show ?thesis
  proof (cases d)
    case (Inl e)
    with run d dial show ?thesis by (auto simp: openDownstream_def)
  next
    case (Inr k)
    obtain cn w2 where cn: "g_withCancel N w1 = (cn, w2)" by (cases "g_withCancel N w1")
    obtain u w3 where u: "g_downstream N k (cl_nodeID c) cn w2 = (u, w3)"
      by (cases "g_downstream N k (cl_nodeID c) cn w2")
    have "opens w3 = opens w1" using ledgerD(2) [OF led cn] ledgerD(4) [OF led u] by simp
    with run d dial Inr cn u show ?thesis
      by (cases u) (auto simp: openDownstream_def ledger_snd(6,7) [OF led])
  qed
qed

lemma close_previous_ledger:
  "grpc_ledger N opens \<Longrightarrow> opens (close_previous N old w) = opens w - set_option old"
  by (cases old) (simp_all add: close_previous_def ledger_snd(7))

lemma cancel_previous_ledger: "grpc_ledger N opens \<Longrightarrow> opens (cancel_previous N c w) = opens w"
  by (simp add: cancel_previous_def ledger_snd(6) split: option.splits)

lemma close_conn_ledger:
  "grpc_ledger N opens \<Longrightarrow> opens (snd (close_conn N k e w)) = opens w - set_option k"
  by (cases k) (auto simp: close_conn_def split: prod.splits dest: ledgerD(6))

lemma Close_ledger:
  assumes led: "grpc_ledger N opens" and "Close N c w = (e, c', w')"
  shows "c' = c\<lparr>closed := True\<rparr>"
    and "opens w' = opens w - set_option (upstreamConn c) - set_option (downstreamConn c)"
proof -
  let ?w1 = "case downstreamCancel c of None \<Rightarrow> w | Some cn \<Rightarrow> g_cancel N cn w"
  obtain e1 w2 where one: "close_conn N (upstreamConn c) None ?w1 = (e1, w2)"
    by (cases "close_conn N (upstreamConn c) None ?w1")
  obtain e2 w3 where two: "close_conn N (downstreamConn c) e1 w2 = (e2, w3)"
    by (cases "close_conn N (downstreamConn c) e1 w2")
  have "opens ?w1 = opens w" by (simp add: ledger_snd(6) [OF led] split: option.splits)
  then show "c' = c\<lparr>closed := True\<rparr>"
    and "opens w' = opens w - set_option (upstreamConn c) - set_option (downstreamConn c)"
    using assms(2) one two close_conn_ledger [OF led, of "upstreamConn c" None ?w1]
      close_conn_ledger [OF led, of "downstreamConn c" e1 w2]
    by (auto simp: Close_def Let_def)
qed

subsection \<open>Every open connection has exactly one owner\<close>

definition opt_mset :: "'a option \<Rightarrow> 'a multiset" where
  "opt_mset x = (case x of None \<Rightarrow> {#} | Some a \<Rightarrow> {#a#})"

lemma opt_mset_simps [simp]: "opt_mset None = {#}" "opt_mset (Some a) = {#a#}"
  by (simp_all add: opt_mset_def)

definition unique_mset :: "'a multiset \<Rightarrow> bool" where
  "unique_mset M \<longleftrightarrow> (\<forall>x. count M x \<le> 1)"

text \<open>
  The owners of connections: a reopening that has dialled and not yet installed its result, and
  the two fields of the client.
\<close>

definition owned :: "'w cl_sys \<Rightarrow> conn multiset" where
  "owned y = image_mset fst (up_flight y) + image_mset fst (down_flight y)
     + opt_mset (upstreamConn (cl y)) + opt_mset (downstreamConn (cl y))"

definition cl_inv :: "('w \<Rightarrow> conn set) \<Rightarrow> 'w cl_sys \<Rightarrow> bool" where
  "cl_inv opens y \<longleftrightarrow>
     (\<not> closed (cl y) \<longrightarrow> opens (wd y) = set_mset (owned y) \<and> unique_mset (owned y))"

lemma unique_mset_add: "unique_mset (add_mset x M) \<longleftrightarrow> x \<notin># M \<and> unique_mset M"
proof
  assume u: "unique_mset (add_mset x M)"
  have "count M y \<le> 1" for y using u unfolding unique_mset_def by (metis count_add_mset le_SucI not_less_eq_eq)
  moreover have "count M x = 0" using u unfolding unique_mset_def by (metis One_nat_def Suc_le_mono count_add_mset le_zero_eq)
  ultimately show "x \<notin># M \<and> unique_mset M" by (simp add: unique_mset_def not_in_iff)
qed (auto simp: unique_mset_def not_in_iff)

lemma owned_simps [simp]:
  "owned (y\<lparr>wd := w\<rparr>) = owned y"
  "owned (y\<lparr>up_checked := n\<rparr>) = owned y"
  "owned (y\<lparr>wd := w, up_checked := n\<rparr>) = owned y"
  "owned (y\<lparr>wd := w, down_checked := n\<rparr>) = owned y"
  "owned (y\<lparr>wd := w, up_checked := n, up_flight := add_mset (k, st) (up_flight y)\<rparr>) = add_mset k (owned y)"
  "owned (y\<lparr>wd := w, down_checked := n, down_flight := add_mset (k, st, cn) (down_flight y)\<rparr>) =
     add_mset k (owned y)"
  by (simp_all add: owned_def)

lemma owned_up_commit:
  assumes "(k, st) \<in># up_flight y"
  shows "owned y = owned (y\<lparr>cl := (cl y)\<lparr>upstreamConn := Some k, upstreamStream := s\<rparr>, wd := w,
      up_flight := up_flight y - {#(k, st)#}\<rparr>) + opt_mset (upstreamConn (cl y))"
proof -
  obtain F where "up_flight y = add_mset (k, st) F" using assms by (metis mset_add)
  then show ?thesis by (simp add: owned_def)
qed

lemma owned_down_commit:
  assumes "(k, st, cn) \<in># down_flight y"
  shows "owned y = owned (y\<lparr>cl := (cl y)\<lparr>downstreamConn := Some k, downstreamStream := s, downstreamCancel := x\<rparr>,
      wd := w, down_flight := down_flight y - {#(k, st, cn)#}, loops := l\<rparr>) + opt_mset (downstreamConn (cl y))"
proof -
  obtain F where "down_flight y = add_mset (k, st, cn) F" using assms by (metis mset_add)
  then show ?thesis by (simp add: owned_def)
qed

lemma unique_mset_minus:
  assumes "unique_mset (M + opt_mset x)"
  shows "unique_mset M" and "set_mset (M + opt_mset x) - set_option x = set_mset M"
  using assms by (cases x; simp add: unique_mset_add; auto)+

lemma client_step_inv:
  assumes led: "grpc_ledger N opens" and "client_step N opens y y'" and "cl_inv opens y"
  shows "cl_inv opens y'"
  using assms(2,3)
proof (induction rule: client_step.induct)
  case (up_dial_failed y e w')
  then show ?case using openUpstream_ledger [OF led up_dial_failed(2)] by (simp add: cl_inv_def)
next
  case (up_dialled y k st w')
  then show ?case
    using openUpstream_ledger [OF led up_dialled(2)] by (auto simp: cl_inv_def unique_mset_add)
next
  case (up_commit k st y c' w')
  let ?y' = "y\<lparr>cl := c', wd := w', up_flight := up_flight y - {#(k, st)#}\<rparr>"
  have own: "owned y = owned ?y' + opt_mset (upstreamConn (cl y))"
    and c': "closed c' = closed (cl y)"
    and w': "opens w' = opens (wd y) - set_option (upstreamConn (cl y))"
    using up_commit(2) owned_up_commit [OF up_commit(1)]
    by (auto simp: commitUpstream_def close_previous_ledger [OF led])
  then show ?case
    using up_commit(3) unique_mset_minus [of "owned ?y'" "upstreamConn (cl y)"] by (auto simp: cl_inv_def)
next
  case (down_check y)
  then show ?case by (simp add: cl_inv_def cancel_previous_ledger [OF led])
next
  case (down_dial_failed y e w')
  then show ?case using openDownstream_ledger [OF led down_dial_failed(2)] by (simp add: cl_inv_def)
next
  case (down_dialled y k st cn w')
  then show ?case
    using openDownstream_ledger [OF led down_dialled(2)] by (auto simp: cl_inv_def unique_mset_add)
next
  case (down_commit k st cn y c' w')
  let ?y' = "y\<lparr>cl := c', wd := w', down_flight := down_flight y - {#(k, st, cn)#}, loops := add_mset st (loops y)\<rparr>"
  have own: "owned y = owned ?y' + opt_mset (downstreamConn (cl y))"
    and c': "closed c' = closed (cl y)"
    and w': "opens w' = opens (wd y) - set_option (downstreamConn (cl y))"
    using down_commit(2) owned_down_commit [OF down_commit(1)]
    by (auto simp: commitDownstream_def close_previous_ledger [OF led])
  then show ?case
    using down_commit(3) unique_mset_minus [of "owned ?y'" "downstreamConn (cl y)"] by (auto simp: cl_inv_def)
next
  case (recv_failed st y)
  then show ?case by (simp add: cl_inv_def recvLoop_failed_def owned_def)
next
  case (send y st env e w')
  then show ?case using ledgerD(5) [OF led send(2)] by (simp add: cl_inv_def)
next
  case (close y e c' w')
  then show ?case using Close_ledger(1) [OF led close(1)] by (simp add: cl_inv_def)
qed (simp_all add: cl_inv_def)

lemma client_reach_inv:
  assumes led: "grpc_ledger N opens" and "client_reach N opens y"
  shows "cl_inv opens y"
  using assms(2)
proof (induction rule: client_reach.induct)
  case (reach_new w i a)
  then show ?case
    by (simp add: cl_inv_def init_cl_sys_def owned_def NewClient_def unique_mset_def)
next
  case (reach_next y y')
  then show ?case by (blast intro: client_step_inv [OF led])
qed

subsection \<open>The upstream stream is never cleared\<close>

lemma client_step_upstream:
  assumes "client_step N opens y y'" and "upstreamStream (cl y) \<noteq> None"
  shows "upstreamStream (cl y') \<noteq> None"
  using assms
  by (induction rule: client_step.induct)
    (auto simp: commitUpstream_def commitDownstream_def recvLoop_failed_def Close_def Let_def
      split: prod.splits)

end
