(* ===== verification/Client_Properties.thy ===== *)
theory Client_Properties
  imports Client_System
begin

text \<open>
  The properties of the client, each with a witness on a concrete network: one whose state is the
  list of open connections, that always accepts, and gives every stream the number of its
  connection.
\<close>

definition fresh_conn :: "conn list \<Rightarrow> conn" where
  "fresh_conn ks = Suc (sum_list ks)"

definition demo_net :: "conn list grpc" where
  "demo_net =
     \<lparr>g_parentAddr = (\<lambda>w. (Inr ''parent:1'', w)),
      g_newClient = (\<lambda>a cr w. (Inr (fresh_conn w), fresh_conn w # w)),
      g_withCancel = (\<lambda>w. (7, w)),
      g_upstream = (\<lambda>k i w. (Inr k, w)),
      g_downstream = (\<lambda>k i cn w. (Inr k, w)),
      g_send = (\<lambda>st env w. (if st \<in> set w then None else Some Io_EOF, w)),
      g_cancel = (\<lambda>cn w. w),
      g_close = (\<lambda>k w. (None, filter (\<lambda>j. j \<noteq> k) w))\<rparr>"

lemma fresh_conn_fresh: "fresh_conn w \<notin> set w"
proof
  assume "fresh_conn w \<in> set w"
  then have "fresh_conn w \<le> sum_list w" by (rule member_le_sum_list) simp
  then show False by (simp add: fresh_conn_def)
qed

lemma demo_ledger: "grpc_ledger demo_net set"
  using fresh_conn_fresh by (auto simp: grpc_ledger_def keeps_def demo_net_def)

lemma demo_dial: "cl_authn c = None \<Longrightarrow> dialParent demo_net c w = (Inr (fresh_conn w), fresh_conn w # w)"
  by (simp add: dialParent_def client_creds_def demo_net_def)

lemma demo_open:
  assumes "cl_authn c = None"
  shows "openUpstream demo_net c w = (Inr (fresh_conn w, fresh_conn w), fresh_conn w # w)"
    "openDownstream demo_net c w = (Inr (fresh_conn w, fresh_conn w, 7), fresh_conn w # w)"
  unfolding openUpstream_def openDownstream_def demo_dial [OF assms]
  by (simp_all add: demo_net_def)

definition new_client :: client where
  "new_client = NewClient ''leaf'' None"

lemma new_client_sel [simp]:
  "cl_authn new_client = None" "closed new_client = False" "upstreamConn new_client = None"
  "downstreamConn new_client = None" "upstreamStream new_client = None"
  "downstreamStream new_client = None" "downstreamCancel new_client = None"
  by (simp_all add: new_client_def NewClient_def)

text \<open>A connected client of that network.\<close>

definition up_client :: client where
  "up_client = new_client\<lparr>upstreamConn := Some 1, upstreamStream := Some 1, downstreamConn := Some 2,
     downstreamStream := Some 2, downstreamCancel := Some 7\<rparr>"

lemma demo_Connect: "Connect demo_net new_client [] = (None, up_client, [2, 1])"
  by (simp add: Connect_def reopenUpstream_def reopenDownstream_def reopen_check_def demo_open
      commitUpstream_def commitDownstream_def close_previous_def cancel_previous_def up_client_def
      fresh_conn_def)

subsection \<open>Connections\<close>

text \<open>
  C8. No connection leaks while the client is open: in every reachable state, whatever the
  interleaving of the initial connect, reconnect ticks, senders that reopen and receive loops,
  the connections gRPC holds open are exactly those of the two fields and of the reopenings still
  in flight, each belonging to one of them only.
\<close>

theorem no_connection_leak:
  assumes "grpc_ledger N opens" and "client_reach N opens y" and "\<not> closed (cl y)"
  shows "opens (wd y) = set_mset (owned y) \<and> unique_mset (owned y)"
  using client_reach_inv [OF assms(1,2)] assms(3) by (simp add: cl_inv_def)

definition dialled :: "conn list cl_sys" where
  "dialled = (init_cl_sys ''leaf'' None [])\<lparr>wd := [1], up_flight := {#(1, 1)#}\<rparr>"

lemma dialled_reach: "client_reach demo_net set dialled"
proof -
  let ?y = "init_cl_sys ''leaf'' None [] :: conn list cl_sys"
  let ?y1 = "?y\<lparr>up_checked := up_checked ?y + 1\<rparr>"
  have cl: "cl ?y = new_client" by (simp add: init_cl_sys_def new_client_def)
  have "client_reach demo_net set ?y" by (rule client_reach.reach_new) simp
  then have y1: "client_reach demo_net set ?y1"
    by (rule client_reach.reach_next) (rule client_step.up_check, simp add: cl reopen_check_def)
  have "client_step demo_net set ?y1 (?y1\<lparr>wd := [1], up_checked := up_checked ?y1 - 1,
      up_flight := add_mset (1, 1) (up_flight ?y1)\<rparr>)"
    by (rule client_step.up_dialled) (simp_all add: init_cl_sys_def NewClient_def demo_open fresh_conn_def)
  with y1 have "client_reach demo_net set (?y1\<lparr>wd := [1], up_checked := up_checked ?y1 - 1,
      up_flight := add_mset (1, 1) (up_flight ?y1)\<rparr>)"
    by (rule client_reach.reach_next)
  then show ?thesis by (simp add: dialled_def init_cl_sys_def)
qed

lemma dialled_sel [simp]: "cl dialled = new_client" "wd dialled = [1]" "up_flight dialled = {#(1, 1)#}"
  "down_flight dialled = {#}" "up_checked dialled = 0" "down_checked dialled = 0"
  by (simp_all add: dialled_def init_cl_sys_def new_client_def)

theorem no_connection_leak_witness: "set (wd dialled) = set_mset (owned dialled)"
  using no_connection_leak [OF demo_ledger dialled_reach] by simp

text \<open>
  C30. Closing while a reopening is in flight leaks its connection: \<open>reopenUpstream\<close> does not look
  at \<open>closed\<close> again before it installs what it dialled, so a run exists that ends with the client
  closed, no reopening left, and a connection open that nothing will close.
\<close>

theorem close_race_leaks:
  "\<exists>N opens. \<exists>y :: conn list cl_sys. grpc_ledger N opens \<and> client_reach N opens y \<and> closed (cl y) \<and>
     up_checked y = 0 \<and> down_checked y = 0 \<and> up_flight y = {#} \<and> down_flight y = {#} \<and>
     opens (wd y) \<noteq> {}"
proof -
  let ?c = "new_client\<lparr>closed := True\<rparr>"
  let ?y1 = "dialled\<lparr>cl := ?c, wd := [1]\<rparr>"
  have "client_step demo_net set dialled ?y1"
    by (rule client_step.close [where e = None]) (simp add: Close_def close_conn_def)
  with dialled_reach have y1: "client_reach demo_net set ?y1" by (rule client_reach.reach_next)
  let ?c2 = "?c\<lparr>upstreamConn := Some 1, upstreamStream := Some 1\<rparr>"
  let ?y2 = "?y1\<lparr>cl := ?c2, wd := [1], up_flight := up_flight ?y1 - {#(1, 1)#}\<rparr>"
  have "client_step demo_net set ?y1 ?y2"
    by (rule client_step.up_commit) (simp_all add: commitUpstream_def close_previous_def)
  with y1 have "client_reach demo_net set ?y2" by (rule client_reach.reach_next)
  then show ?thesis
    by (intro exI [of _ demo_net] exI [of _ set] exI [of _ ?y2]) (simp add: demo_ledger)
qed

text \<open>
  Closing is final: \<open>Close\<close> closes both connections and no other, and afterwards the client
  reports no connection, the reconnect loop ends at its next tick, and reopening either side
  fails without touching the network.
\<close>

theorem close_is_final:
  assumes "grpc_ledger N opens" and "Close N c w = (e, c', w')"
  shows "opens w' = opens w - set_option (upstreamConn c) - set_option (downstreamConn c) \<and>
    \<not> Connected c' \<and> reconnect_tick N c' w'' = (False, c', w'') \<and>
    reopenUpstream N c' w'' = (Some (Errorf ''client is closed'' [] []), c', w'') \<and>
    reopenDownstream N c' w'' = (Some (Errorf ''client is closed'' [] []), c', w'')"
proof -
  note cl = Close_ledger [OF assms]
  have "closed c'" by (simp add: cl(1))
  with reopen_closed [of c' N w''] cl(2) show ?thesis
    by (simp add: Connected_def reconnect_tick_def)
qed

theorem close_is_final_witness:
  "snd (snd (Close demo_net up_client [2, 1])) = [] \<and> \<not> Connected (fst (snd (Close demo_net up_client [2, 1])))"
proof -
  obtain e c' w' where c: "Close demo_net up_client [2, 1] = (e, c', w')" by (rule prod_cases3)
  note final = close_is_final [OF demo_ledger c, of "[]"]
  have k: "upstreamConn up_client = Some 1" "downstreamConn up_client = Some 2"
    by (simp_all add: up_client_def)
  have "set w' = set [2, 1] - {1} - {2}" using final unfolding k option.set by (rule conjunct1)
  then have "set w' = {}" by auto
  then have "w' = []" by simp
  moreover have "\<not> Connected c'" using final by blast
  ultimately show ?thesis unfolding c by simp
qed

subsection \<open>Reconnecting\<close>

text \<open>
  One tick of the reconnect loop, with a parent that accepts both calls, leaves an open client
  connected on both sides, whatever its state was; a side that has a stream is left as it is.
\<close>

theorem tick_reconnects:
  assumes "\<not> closed c"
    and "\<And>d w. cl_authn d = cl_authn c \<Longrightarrow> cl_nodeID d = cl_nodeID c \<Longrightarrow>
      (\<exists>k st w'. openUpstream N d w = (Inr (k, st), w')) \<and>
      (\<exists>k st cn w'. openDownstream N d w = (Inr (k, st, cn), w'))"
    and "reconnect_tick N c w = (go, c', w')"
  shows "go \<and> Connected c' \<and>
    (upstreamStream c \<noteq> None \<longrightarrow> upstreamStream c' = upstreamStream c \<and> upstreamConn c' = upstreamConn c) \<and>
    (downstreamStream c \<noteq> None \<longrightarrow> downstreamStream c' = downstreamStream c)"
proof -
  obtain r1 c1 w1 where up: "reopenUpstream N c w = (r1, c1, w1)" by (rule prod_cases3)
  define d w2 where "d = (if upstreamStream c = None then c1 else c)"
    and "w2 = (if upstreamStream c = None then w1 else w)"
  obtain r2 c2 w3 where down: "reopenDownstream N d w2 = (r2, c2, w3)" by (rule prod_cases3)
  have r1: "r1 = None"
    using up assms(1) assms(2) [of c w]
    by (auto simp: reopenUpstream_def reopen_check_def split: prod.splits)
  have d: "\<not> closed d" "upstreamStream d \<noteq> None" "downstreamStream d = downstreamStream c"
    "upstreamStream c \<noteq> None \<Longrightarrow> d = c" "cl_authn d = cl_authn c" "cl_nodeID d = cl_nodeID c"
    using up assms(1) r1 by (auto simp: d_def elim: reopenUpstream_cases)
  have "r2 = None"
    using down d(1) assms(2) [of d "cancel_previous N d w2"] d(5,6)
    by (auto simp: reopenDownstream_def reopen_check_def split: prod.splits)
  with down have c2: "\<not> closed c2" "downstreamStream c2 \<noteq> None" "upstreamStream c2 = upstreamStream d"
    "upstreamConn c2 = upstreamConn d"
    using d(1) by (auto elim: reopenDownstream_cases)
  have "go \<and> c' = (if downstreamStream c = None then c2 else d)"
    using assms(1,3) up down by (auto simp: reconnect_tick_def Let_def d_def w2_def split: if_splits)
  with c2 d show ?thesis by (auto simp: Connected_def)
qed

theorem tick_reconnects_witness:
  "Connected (fst (snd (reconnect_tick demo_net (up_client\<lparr>downstreamStream := None\<rparr>) [2, 1])))"
proof -
  let ?c = "up_client\<lparr>downstreamStream := None\<rparr>"
  obtain go c' w' where t: "reconnect_tick demo_net ?c [2, 1] = (go, c', w')" by (rule prod_cases3)
  have "\<not> closed ?c" "cl_authn ?c = None" by (simp_all add: up_client_def)
  then show ?thesis
    using tick_reconnects [of ?c demo_net, OF _ _ t] unfolding t by (simp add: demo_open)
qed

text \<open>
  C35. The reconnect loop never replaces an upstream: no step of any goroutine clears the upstream
  stream once it is set, so from then on every tick leaves the upstream alone, however long the
  parent has been gone. Only a failing send reopens it.
\<close>

theorem upstream_never_redialled_by_tick:
  assumes "(client_step N opens)\<^sup>*\<^sup>* y y'" and "upstreamStream (cl y) \<noteq> None"
    and "reconnect_tick N (cl y') w = (go, c', w')"
  shows "upstreamStream (cl y') \<noteq> None \<and> upstreamStream c' = upstreamStream (cl y') \<and>
    upstreamConn c' = upstreamConn (cl y')"
proof -
  have up: "upstreamStream (cl y') \<noteq> None" using assms(1,2)
  proof (induction rule: rtranclp_induct)
    case (step z z')
    from client_step_upstream [OF step(2)] step(3,4) show ?case by blast
  qed
  obtain r2 c2 w2 where down: "reopenDownstream N (cl y') w = (r2, c2, w2)" by (rule prod_cases3)
  have "c' = cl y' \<or> c' = c2"
    using assms(3) up down by (auto simp: reconnect_tick_def Let_def split: if_splits)
  with reopenDownstream_keeps_up [OF down] up show ?thesis by auto
qed

theorem upstream_never_redialled_by_tick_witness:
  "upstreamConn (fst (snd (reconnect_tick demo_net up_client []))) = Some 1"
proof -
  let ?y = "(init_cl_sys ''leaf'' None ([] :: conn list))\<lparr>cl := up_client\<rparr>"
  have y: "cl ?y = up_client" by simp
  obtain go c' w' where t: "reconnect_tick demo_net (cl ?y) [] = (go, c', w')" by (rule prod_cases3)
  show ?thesis
    using upstream_never_redialled_by_tick [where opens = set, OF rtranclp.rtrancl_refl _ t]
    unfolding t [unfolded y] fst_conv snd_conv by (simp add: up_client_def)
qed

subsection \<open>Sending\<close>

text \<open>
  C23. One call of \<open>SendUpstream\<close> never meets a nil stream, puts its envelope on the wire at most
  once, and returns nil exactly when a send of it succeeded; it counts the envelope as sent in
  that case only, and observes the latency once, under the label of its outcome.
\<close>

theorem send_upstream_once:
  assumes "SendUpstream (logged N) env c m (w, l) = (r, c', m', w', l')"
  shows "(r = Returned None \<and> (\<exists>st. l' = l @ [(st, env, True)]) \<and>
      m' = observe_latency ''success'' (inc_sent ''upstream'' m)) \<or>
    (\<exists>e. r = Returned (Some e) \<and> (l' = l \<or> (\<exists>st. l' = l @ [(st, env, False)])) \<and>
      m' = observe_latency ''failure'' m)"
proof -
  have "(r = Returned None \<longrightarrow> m' = observe_latency ''success'' (inc_sent ''upstream'' m)) \<and>
      (\<forall>e. r = Returned (Some e) \<longrightarrow> m' = observe_latency ''failure'' m)"
    using assms by (cases rule: SendUpstream_cases) auto
  with SendUpstream_logged [OF assms] show ?thesis by blast
qed

definition demo_env :: envelope where
  "demo_env = \<lparr>EnvId = ''leaf-5'', Kind = ''log'', Payload = ''p'', Timestamp = 0\<rparr>"

theorem send_upstream_once_witness:
  "snd (snd (snd (snd (SendUpstream (logged demo_net) demo_env up_client initial_metrics ([2, 1], []))))) =
     [(1, demo_env, True)]"
proof -
  obtain r c' m' w' l' where s:
    "SendUpstream (logged demo_net) demo_env up_client initial_metrics ([2, 1], []) = (r, c', m', w', l')"
    by (rule prod_cases5)
  then have "l' = [(1, demo_env, True)]"
    using send_upstream_once [OF s]
    by (auto simp: SendUpstream_def sendUpstream_def send_on_def up_client_def logged_def demo_net_def)
  then show ?thesis unfolding s by simp
qed

end
