(* ===== verification/Pending_Queue.thy ===== *)
theory Pending_Queue
  imports Envelope
begin

text \<open>
  The in-memory retry queue of \<open>node/pending.go\<close> and the contract its client, the retry
  loop of \<open>node/node.go\<close>, relies on.
\<close>

record pendingQueue =
  items :: "envelope list"

definition empty_queue :: pendingQueue where
  "empty_queue = \<lparr>items = []\<rparr>"

definition push :: "pendingQueue \<Rightarrow> envelope \<Rightarrow> pendingQueue" where
  "push q env = q\<lparr>items := items q @ [env]\<rparr>"

definition drain :: "pendingQueue \<Rightarrow> envelope list \<times> pendingQueue" where
  "drain q = (items q, q\<lparr>items := []\<rparr>)"

text \<open>
  The contract of an outbox: pushing appends, draining takes everything at once, in order.
\<close>

locale outbox =
  fixes enq :: "'q \<Rightarrow> 'e \<Rightarrow> 'q"
    and take_all :: "'q \<Rightarrow> 'e list \<times> 'q"
    and contents :: "'q \<Rightarrow> 'e list"
  assumes contents_enq: "contents (enq q e) = contents q @ [e]"
    and take_all_contents: "fst (take_all q) = contents q"
    and take_all_empties: "contents (snd (take_all q)) = []"
begin

lemma contents_enq_all: "contents (foldl enq q es) = contents q @ es"
  by (induction es arbitrary: q) (simp_all add: contents_enq)

lemma requeue_after_drain: "contents (foldl enq (snd (take_all q)) es) = es"
  by (simp add: contents_enq_all take_all_empties)

lemma drain_conserves:
  "mset (fst (take_all q)) + mset (contents (snd (take_all q))) = mset (contents q)"
  by (simp add: take_all_contents take_all_empties)

lemma enq_conserves: "mset (contents (enq q e)) = add_mset e (mset (contents q))"
  by (simp add: contents_enq)

lemma second_drain_is_empty: "fst (take_all (snd (take_all q))) = []"
  by (simp add: take_all_contents take_all_empties)

end

interpretation pq: outbox push drain items
  by unfold_locales (simp_all add: push_def drain_def)

lemmas pending_queue_simps [simp] = pq.contents_enq pq.take_all_contents pq.take_all_empties
  pq.contents_enq_all

lemma items_empty_queue [simp]: "items empty_queue = []"
  by (simp add: empty_queue_def)

end
