(* ===== verification/Node.thy ===== *)
theory Node
  imports Server Client Pending_Queue
begin

text \<open>
  \<open>node/node.go\<close> and \<open>node/options.go\<close>: a node with its optional server and client, its
  registered handlers and its retry queue.

  \<open>'w\<close> is the state of everything outside the framework: the network (through \<open>grpc\<close>) and the
  service's own data, which the registered handlers transform. A handler does not call back
  into the node here.
\<close>

subsection \<open>Configuration\<close>

type_synonym 'w resolver = "'w \<Rightarrow> (go_error + string) \<times> 'w"

record 'w config =
  cfg_id :: string
  listenAddr :: string
  cfg_resolver :: "'w resolver option"
  cfg_authn :: "authenticator option"
  cfg_authorizeChild :: "authorize_hook option"

definition zero_config :: "'w config" where
  "zero_config =
     \<lparr>cfg_id = '''', listenAddr = '''', cfg_resolver = None, cfg_authn = None,
      cfg_authorizeChild = None\<rparr>"

type_synonym 'w node_option = "'w config \<Rightarrow> 'w config"

definition WithID :: "string \<Rightarrow> 'w node_option" where
  "WithID i c = c\<lparr>cfg_id := i\<rparr>"

definition WithListenAddr :: "string \<Rightarrow> 'w node_option" where
  "WithListenAddr a c = c\<lparr>listenAddr := a\<rparr>"

definition WithResolver :: "'w resolver \<Rightarrow> 'w node_option" where
  "WithResolver r c = c\<lparr>cfg_resolver := Some r\<rparr>"

definition WithAuthenticator :: "authenticator \<Rightarrow> 'w node_option" where
  "WithAuthenticator a c = c\<lparr>cfg_authn := Some a\<rparr>"

definition WithAuthorizeChild :: "authorize_hook \<Rightarrow> 'w node_option" where
  "WithAuthorizeChild h c = c\<lparr>cfg_authorizeChild := Some h\<rparr>"

text \<open>The static resolver as a value of the interface \<open>Resolver\<close>.\<close>

definition static_resolver :: "StaticResolver \<Rightarrow> 'w resolver" where
  "static_resolver r w = (ParentAddr r, w)"

subsection \<open>State\<close>

type_synonym 'w up_handler = "ctx \<Rightarrow> envelope \<Rightarrow> 'w \<Rightarrow> 'w"
type_synonym 'w down_handler = "envelope \<Rightarrow> 'w \<Rightarrow> 'w"

record 'w node =
  cfg :: "'w config"
  n_server :: "server option"
  n_client :: "client option"
  upstreamHandlers :: "(string, 'w up_handler list) fmap"
  downstreamHandlers :: "(string, 'w down_handler list) fmap"
  pendingq :: pendingQueue
  retryStarted :: bool

definition New :: "'w node_option list \<Rightarrow> go_error + 'w node" where
  "New opts =
     (let c = foldl (\<lambda>c opt. opt c) zero_config opts in
      if cfg_id c = '''' then Inl (Errorf ''node: WithID is required'' [] [])
      else if listenAddr c = '''' \<and> cfg_resolver c = None
      then Inl (Errorf ''node: at least one of WithListenAddr (accept children) or WithResolver (connect to a parent) is required'' [] [])
      else Inr \<lparr>cfg = c, n_server = None, n_client = None, upstreamHandlers = fmempty,
                downstreamHandlers = fmempty, pendingq = empty_queue, retryStarted = False\<rparr>)"

text \<open>A missing key of a map of slices reads as the nil slice.\<close>

definition slice_at :: "string \<Rightarrow> (string, 'a list) fmap \<Rightarrow> 'a list" where
  "slice_at k m = (case fmlookup m k of None \<Rightarrow> [] | Some xs \<Rightarrow> xs)"

definition OnUpstream :: "string \<Rightarrow> 'w up_handler \<Rightarrow> 'w node \<Rightarrow> 'w node" where
  "OnUpstream kind h n =
     n\<lparr>upstreamHandlers := fmupd kind (slice_at kind (upstreamHandlers n) @ [h]) (upstreamHandlers n)\<rparr>"

definition OnDownstream :: "string \<Rightarrow> 'w down_handler \<Rightarrow> 'w node \<Rightarrow> 'w node" where
  "OnDownstream kind h n =
     n\<lparr>downstreamHandlers := fmupd kind (slice_at kind (downstreamHandlers n) @ [h]) (downstreamHandlers n)\<rparr>"

subsection \<open>Lifecycle\<close>

text \<open>The network as this node's client sees it: with the configured resolver.\<close>

definition node_net :: "'w grpc \<Rightarrow> 'w node \<Rightarrow> 'w grpc" where
  "node_net N n =
     (case cfg_resolver (cfg n) of None \<Rightarrow> N | Some r \<Rightarrow> N\<lparr>g_parentAddr := r\<rparr>)"

definition start_server :: "'w node \<Rightarrow> 'w node" where
  "start_server n =
     (if listenAddr (cfg n) \<noteq> '''' then
        (let s = NewServer (cfg_authn (cfg n)) in
         n\<lparr>n_server := Some (case cfg_authorizeChild (cfg n) of
                              None \<Rightarrow> s
                            | Some h \<Rightarrow> SetAuthorizeChild (Some h) s)\<rparr>)
      else n)"

text \<open>The goroutine that \<open>Start\<close> launches for the server; its error result is dropped.\<close>

definition listen_goroutine ::
  "(string \<Rightarrow> go_error option) \<Rightarrow> (creds \<Rightarrow> go_error option) \<Rightarrow> 'w node \<Rightarrow> 'w node"
where
  "listen_goroutine net_listen serve n =
     (case n_server n of
        None \<Rightarrow> n
      | Some s \<Rightarrow> n\<lparr>n_server := Some (snd (Listen net_listen serve (listenAddr (cfg n)) s))\<rparr>)"

definition Start :: "'w grpc \<Rightarrow> 'w node \<Rightarrow> 'w \<Rightarrow> go_error option \<times> 'w node \<times> 'w" where
  "Start N n w =
     (let n1 = start_server n in
      if cfg_resolver (cfg n1) \<noteq> None then
        (case Connect (node_net N n1) (NewClient (cfg_id (cfg n1)) (cfg_authn (cfg n1))) w of
           (Some err, c, w1) \<Rightarrow>
             (Some (Errorf ''connect to parent: %w'' [] [err]), n1\<lparr>n_client := Some c\<rparr>, w1)
         | (None, c, w1) \<Rightarrow> (None, n1\<lparr>n_client := Some c, retryStarted := True\<rparr>, w1))
      else (None, n1, w))"

definition nodeStop :: "'w grpc \<Rightarrow> 'w node \<Rightarrow> 'w \<Rightarrow> go_error option \<times> 'w node \<times> 'w" where
  "nodeStop N n w =
     (let (n1, w1) =
        (case n_client n of
           None \<Rightarrow> (n, w)
         | Some c \<Rightarrow> (case Close N c w of (_, c', w') \<Rightarrow> (n\<lparr>n_client := Some c'\<rparr>, w')))
      in (None, n1\<lparr>n_server := map_option Stop (n_server n1)\<rparr>, w1))"

definition ID :: "'w node \<Rightarrow> string" where
  "ID n = cfg_id (cfg n)"

definition ListenAddr :: "'w node \<Rightarrow> string" where
  "ListenAddr n = listenAddr (cfg n)"

definition HasParent :: "'w node \<Rightarrow> bool" where
  "HasParent n \<longleftrightarrow> cfg_resolver (cfg n) \<noteq> None"

definition ConnectedToParent :: "'w node \<Rightarrow> bool" where
  "ConnectedToParent n = (case n_client n of None \<Rightarrow> False | Some c \<Rightarrow> Connected c)"

definition nodeChildrenCount :: "'w node \<Rightarrow> nat" where
  "nodeChildrenCount n = (case n_server n of None \<Rightarrow> 0 | Some s \<Rightarrow> ChildrenCount s)"

definition nodePendingChildren :: "string list \<Rightarrow> 'w node \<Rightarrow> PendingChild list" where
  "nodePendingChildren ks n = (case n_server n of None \<Rightarrow> [] | Some s \<Rightarrow> PendingChildren ks s)"

subsection \<open>Sending down\<close>

definition SendDown ::
  "string list \<Rightarrow> string \<Rightarrow> string \<Rightarrow> int \<Rightarrow> int \<Rightarrow> 'w node \<Rightarrow> metrics
    \<Rightarrow> (BroadcastResult \<times> go_error option) \<times> 'w node \<times> metrics"
where
  "SendDown ks kind payload t1 t2 n m =
     (case n_server n of
        None \<Rightarrow> ((\<lparr>Delivered = 0, Dropped = []\<rparr>, None), n, m)
      | Some s \<Rightarrow>
          (case BroadcastDownstream ks (newEnvelope (cfg_id (cfg n)) kind payload t1 t2) s m of
             (res, s', m') \<Rightarrow> (res, n\<lparr>n_server := Some s'\<rparr>, m')))"

definition nodeSendToChild ::
  "string \<Rightarrow> string \<Rightarrow> string \<Rightarrow> int \<Rightarrow> int \<Rightarrow> 'w node \<Rightarrow> metrics \<Rightarrow> go_error option \<times> 'w node \<times> metrics"
where
  "nodeSendToChild childID kind payload t1 t2 n m =
     (case n_server n of
        None \<Rightarrow>
          (Some (Errorf ''node %s has no children (WithListenAddr not set)'' [cfg_id (cfg n)] []), n, m)
      | Some s \<Rightarrow>
          (case SendToChild childID (newEnvelope (cfg_id (cfg n)) kind payload t1 t2) s m of
             (err, s', m') \<Rightarrow> (err, n\<lparr>n_server := Some s'\<rparr>, m')))"

subsection \<open>Handlers\<close>

definition runUpstreamHandlers :: "ctx \<Rightarrow> envelope \<Rightarrow> 'w node \<Rightarrow> 'w \<Rightarrow> 'w" where
  "runUpstreamHandlers c env n w =
     foldl (\<lambda>w h. h c env w) w (slice_at (Kind env) (upstreamHandlers n))"

definition runDownstreamHandlers :: "envelope \<Rightarrow> 'w node \<Rightarrow> 'w \<Rightarrow> 'w" where
  "runDownstreamHandlers env n w =
     foldl (\<lambda>w h. h env w) w (slice_at (Kind env) (downstreamHandlers n))"

subsection \<open>Sending up\<close>

definition forwardUp ::
  "'w grpc \<Rightarrow> envelope \<Rightarrow> 'w node \<Rightarrow> metrics \<Rightarrow> 'w \<Rightarrow> go_error option outcome \<times> 'w node \<times> metrics \<times> 'w"
where
  "forwardUp N env n m w =
     (case n_client n of
        None \<Rightarrow> (Returned None, n, m, w)
      | Some c \<Rightarrow>
          (case SendUpstream (node_net N n) env c m w of
             (Panicked, c', m', w') \<Rightarrow> (Panicked, n\<lparr>n_client := Some c'\<rparr>, m', w')
           | (Returned None, c', m', w') \<Rightarrow> (Returned None, n\<lparr>n_client := Some c'\<rparr>, m', w')
           | (Returned (Some err), c', m', w') \<Rightarrow>
               (Returned None, n\<lparr>n_client := Some c', pendingq := push (pendingq n) env\<rparr>, m', w')))"

definition SendUp ::
  "'w grpc \<Rightarrow> ctx \<Rightarrow> string \<Rightarrow> string \<Rightarrow> int \<Rightarrow> int \<Rightarrow> 'w node \<Rightarrow> metrics \<Rightarrow> 'w
    \<Rightarrow> go_error option outcome \<times> 'w node \<times> metrics \<times> 'w"
where
  "SendUp N c kind payload t1 t2 n m w =
     (let env = newEnvelope (cfg_id (cfg n)) kind payload t1 t2 in
      forwardUp N env n m (runUpstreamHandlers c env n w))"

definition handleUpstreamFromChild ::
  "'w grpc \<Rightarrow> ctx \<Rightarrow> envelope \<Rightarrow> 'w node \<Rightarrow> metrics \<Rightarrow> 'w
    \<Rightarrow> go_error option outcome \<times> 'w node \<times> metrics \<times> 'w"
where
  "handleUpstreamFromChild N c env n m w = forwardUp N env n m (runUpstreamHandlers c env n w)"

definition handleDownstreamFromParent ::
  "string list \<Rightarrow> envelope \<Rightarrow> 'w node \<Rightarrow> metrics \<Rightarrow> 'w \<Rightarrow> 'w node \<times> metrics \<times> 'w"
where
  "handleDownstreamFromParent ks env n m w =
     (let w1 = runDownstreamHandlers env n w in
      case n_server n of
        None \<Rightarrow> (n, m, w1)
      | Some s \<Rightarrow>
          (case BroadcastDownstream ks env s m of
             (_, s', m') \<Rightarrow> (n\<lparr>n_server := Some s'\<rparr>, m', w1)))"

subsection \<open>The retry loop\<close>

text \<open>
  After each attempt the loop waits for the pacer or for the end of the context. A pass drains
  the queue and tries every drained envelope once; the result says whether the loop goes on. A
  nil client would be a nil dereference.
\<close>

datatype retry_sel = Paced | CtxEnded

fun retry_pass ::
  "'w grpc \<Rightarrow> (nat \<Rightarrow> retry_sel) \<Rightarrow> nat \<Rightarrow> envelope list \<Rightarrow> 'w node \<Rightarrow> metrics \<Rightarrow> 'w
    \<Rightarrow> bool outcome \<times> 'w node \<times> metrics \<times> 'w"
where
  "retry_pass N sel i [] n m w = (Returned True, n, m, w)"
| "retry_pass N sel i (env # envs) n m w =
     (case n_client n of
        None \<Rightarrow> (Panicked, n, m, w)
      | Some c \<Rightarrow>
          (case SendUpstream (node_net N n) env c m w of
             (Panicked, c', m', w') \<Rightarrow> (Panicked, n\<lparr>n_client := Some c'\<rparr>, m', w')
           | (Returned err, c', m', w') \<Rightarrow>
               (let n' = (if err = None then n\<lparr>n_client := Some c'\<rparr>
                          else n\<lparr>n_client := Some c', pendingq := push (pendingq n) env\<rparr>)
                in case sel i of
                     Paced \<Rightarrow> retry_pass N sel (i + 1) envs n' m' w'
                   | CtxEnded \<Rightarrow> (Returned False, n', m', w'))))"

definition retry_tick ::
  "'w grpc \<Rightarrow> (nat \<Rightarrow> retry_sel) \<Rightarrow> 'w node \<Rightarrow> metrics \<Rightarrow> 'w \<Rightarrow> bool outcome \<times> 'w node \<times> metrics \<times> 'w"
where
  "retry_tick N sel n m w =
     (case drain (pendingq n) of
        (envs, q) \<Rightarrow>
          (if length envs = 0 then (Returned True, n\<lparr>pendingq := q\<rparr>, m, w)
           else retry_pass N sel 0 envs (n\<lparr>pendingq := q\<rparr>) m w))"

end
