(* ===== verification/Node_Facts.thy ===== *)
theory Node_Facts
  imports Node Client_Facts Server_Facts
begin

text \<open>
  Facts about the single operations of \<open>Node\<close>: registration of handlers, forwarding up with
  its retry queue, and one pass of the retry loop, with the ledger of sends of
  \<open>Client_Facts\<close> to count what reached the wire.
\<close>

subsection \<open>Registered handlers\<close>

lemma slice_at_upd [simp]: "slice_at k (fmupd k' xs m) = (if k = k' then xs else slice_at k m)"
  by (simp add: slice_at_def)

lemma slice_at_empty [simp]: "slice_at k fmempty = []"
  by (simp add: slice_at_def)

definition register_all :: "(string \<times> 'w up_handler) list \<Rightarrow> 'w node \<Rightarrow> 'w node" where
  "register_all hs n = foldl (\<lambda>n (k, h). OnUpstream k h n) n hs"

lemma register_all_slice:
  "slice_at k (upstreamHandlers (register_all hs n)) =
     slice_at k (upstreamHandlers n) @ map snd (filter (\<lambda>h. fst h = k) hs)"
  unfolding register_all_def
  by (induction hs arbitrary: n) (auto simp: OnUpstream_def)

definition register_down_all :: "(string \<times> 'w down_handler) list \<Rightarrow> 'w node \<Rightarrow> 'w node" where
  "register_down_all hs n = foldl (\<lambda>n (k, h). OnDownstream k h n) n hs"

lemma register_down_all_slice:
  "slice_at k (downstreamHandlers (register_down_all hs n)) =
     slice_at k (downstreamHandlers n) @ map snd (filter (\<lambda>h. fst h = k) hs)"
  unfolding register_down_all_def
  by (induction hs arbitrary: n) (auto simp: OnDownstream_def)

subsection \<open>An envelope from the parent\<close>

lemma Broadcast_buffers:
  assumes ok: "server_ok s" and ord: "range_order ks (children s)"
    and run: "BroadcastDownstream ks env s m = (re, s', m')"
  shows "s' = s\<lparr>chans := chans s'\<rparr>"
    and "fmlookup (children s) k = Some c \<Longrightarrow>
      chan_buf c s' = (if can_accept s k then chan_buf c s @ [env] else chan_buf c s)"
    and "(\<forall>k. fmlookup (children s) k \<noteq> Some c) \<Longrightarrow> chan_buf c s' = chan_buf c s"
proof -
  obtain r e where re: "re = (r, e)" by (cases re)
  note eff = BroadcastDownstream_effect [OF ok ord run [unfolded re]]
  show "s' = s\<lparr>chans := chans s'\<rparr>" by (rule eff(4))
  show "chan_buf c s' = (if can_accept s k then chan_buf c s @ [env] else chan_buf c s)"
    if "fmlookup (children s) k = Some c"
  proof -
    have "(\<exists>k'. can_accept s k' \<and> fmlookup (children s) k' = Some c) \<longleftrightarrow> can_accept s k"
      using server_okD(3) [OF ok that] that by blast
    then show ?thesis unfolding chan_buf_def [of c s'] eff(5) [of c] by (simp add: chan_buf_def)
  qed
  show "chan_buf c s' = chan_buf c s" if "\<forall>k. fmlookup (children s) k \<noteq> Some c"
    unfolding chan_buf_def eff(5) [of c] using that by simp
qed

lemma handleDown_cases:
  assumes "handleDownstreamFromParent ks env n m w = (n', m', w')"
  obtains (leaf) "n_server n = None" "n' = n" "m' = m" "w' = runDownstreamHandlers env n w"
    | (broadcast) s re s' where "n_server n = Some s" "BroadcastDownstream ks env s m = (re, s', m')"
        "n' = n\<lparr>n_server := Some s'\<rparr>" "w' = runDownstreamHandlers env n w"
  using assms by (auto simp: handleDownstreamFromParent_def Let_def split: option.splits prod.splits)

subsection \<open>Forwarding up\<close>

lemma forwardUp_cases:
  assumes "forwardUp N env n m w = (r, n', m', w')"
  obtains (root) "n_client n = None" "r = Returned None" "n' = n" "m' = m" "w' = w"
    | (sent) c c' where "n_client n = Some c" "r = Returned None"
        "SendUpstream (node_net N n) env c m w = (Returned None, c', m', w')"
        "n' = n\<lparr>n_client := Some c'\<rparr>"
    | (queued) c c' e where "n_client n = Some c" "r = Returned None"
        "SendUpstream (node_net N n) env c m w = (Returned (Some e), c', m', w')"
        "n' = n\<lparr>n_client := Some c', pendingq := push (pendingq n) env\<rparr>"
proof (cases "n_client n")
  case None
  then have "(Returned None, n, m, w) = (r, n', m', w')" using assms by (simp add: forwardUp_def)
  with None show ?thesis by (intro root) simp_all
next
  case (Some c)
  note on_sent = sent and on_queued = queued
  obtain r0 c' m0 w0 where s: "SendUpstream (node_net N n) env c m w = (r0, c', m0, w0)"
    by (metis surj_pair)
  have run: "(case r0 of
      Panicked \<Rightarrow> (Panicked, n\<lparr>n_client := Some c'\<rparr>, m0, w0)
    | Returned None \<Rightarrow> (Returned None, n\<lparr>n_client := Some c'\<rparr>, m0, w0)
    | Returned (Some err) \<Rightarrow>
        (Returned None, n\<lparr>n_client := Some c', pendingq := push (pendingq n) env\<rparr>, m0, w0))
    = (r, n', m', w')"
    using assms unfolding forwardUp_def Some s option.case prod.case .
  from s show ?thesis
  proof (cases rule: SendUpstream_cases)
    case sent
    from run have eqs: "r = Returned None" "n' = n\<lparr>n_client := Some c'\<rparr>" "m' = m0" "w' = w0"
      unfolding sent(1) outcome.case option.case by blast+
    show ?thesis using on_sent [OF Some eqs(1) _ eqs(2)] s unfolding eqs sent(1) by blast
  next
    case (failed e)
    from run have eqs: "r = Returned None"
      "n' = n\<lparr>n_client := Some c', pendingq := push (pendingq n) env\<rparr>" "m' = m0" "w' = w0"
      unfolding failed(1) outcome.case option.case by blast+
    show ?thesis using on_queued [OF Some eqs(1) _ eqs(2)] s unfolding eqs failed(1) by blast
  qed
qed

lemma SendUpstream_gauges:
  "SendUpstream N env c m w = (r, c', m', w') \<Longrightarrow> ChildConnections m' = ChildConnections m"
  by (erule SendUpstream_cases) simp_all

lemma forwardUp_gauges:
  "forwardUp N env n m w = (r, n', m', w') \<Longrightarrow> ChildConnections m' = ChildConnections m"
  by (erule forwardUp_cases) (simp_all add: SendUpstream_gauges)

lemma forwardUp_frame:
  assumes "forwardUp N env n m w = (r, n', m', w')"
  shows "cfg n' = cfg n" "n_server n' = n_server n" "upstreamHandlers n' = upstreamHandlers n"
    "downstreamHandlers n' = downstreamHandlers n"
  using assms by (auto elim!: forwardUp_cases)

subsection \<open>What reached the wire\<close>

definition delivered :: "send_log \<Rightarrow> envelope list" where
  "delivered l = map (\<lambda>(st, env, ok). env) (filter (\<lambda>(st, env, ok). ok) l)"

lemma delivered_simps [simp]:
  "delivered [] = []" "delivered (l @ l') = delivered l @ delivered l'"
  "delivered [(st, env, True)] = [env]" "delivered [(st, env, False)] = []"
  by (simp_all add: delivered_def)

text \<open>A node whose resolver does not touch the log.\<close>

definition log_blind :: "('w \<times> send_log) node \<Rightarrow> bool" where
  "log_blind n \<longleftrightarrow> (\<exists>r. cfg_resolver (cfg n) = map_option with_log r)"

lemma node_net_logged: "log_blind n \<Longrightarrow> \<exists>N'. node_net (logged N) n = logged N'"
proof -
  assume "log_blind n"
  then obtain r where r: "cfg_resolver (cfg n) = map_option with_log r" by (auto simp: log_blind_def)
  show ?thesis
  proof (cases r)
    case None
    with r show ?thesis by (auto simp: node_net_def)
  next
    case (Some p)
    with r have "node_net (logged N) n = logged (N\<lparr>g_parentAddr := p\<rparr>)"
      by (simp add: node_net_def logged_def)
    then show ?thesis ..
  qed
qed

lemma node_SendUpstream_logged:
  assumes blind: "log_blind n"
    and run: "SendUpstream (node_net (logged N) n) env c m (w, l) = (r, c', m', w', l')"
  shows "(r = Returned None \<and> delivered l' = delivered l @ [env]) \<or>
    (\<exists>e. r = Returned (Some e) \<and> delivered l' = delivered l)"
proof -
  obtain N' where "node_net (logged N) n = logged N'" using node_net_logged [OF blind] by blast
  with run have "SendUpstream (logged N') env c m (w, l) = (r, c', m', w', l')" by simp
  from SendUpstream_logged [OF this] show ?thesis by auto
qed

lemma node_SendUpstream_open:
  assumes "upstreamStream c = Some st" and "g_send N st env w = (None, w1)"
  shows "SendUpstream (node_net (logged N) n) env c m (w, l) =
    (Returned None, c, observe_latency ''success'' (inc_sent ''upstream'' m), w1, l @ [(st, env, True)])"
proof -
  have "g_send (node_net (logged N) n) = g_send (logged N)"
    by (simp add: node_net_def split: option.split)
  then show ?thesis using assms
    by (simp add: SendUpstream_def sendUpstream_def send_on_def) (simp add: logged_def)
qed

lemma forwardUp_logged:
  assumes "log_blind n" and "n_client n \<noteq> None"
    and run: "forwardUp (logged N) env n m (w, l) = (r, n', m', w', l')"
  shows "r = Returned None \<and>
    (items (pendingq n') = items (pendingq n) \<and> delivered l' = delivered l @ [env] \<or>
     items (pendingq n') = items (pendingq n) @ [env] \<and> delivered l' = delivered l)"
  using run
proof (cases rule: forwardUp_cases)
  case root
  with assms(2) show ?thesis by simp
next
  case (sent c c')
  with node_SendUpstream_logged [OF assms(1) sent(3)] show ?thesis by auto
next
  case (queued c c' e)
  with node_SendUpstream_logged [OF assms(1) queued(3)] show ?thesis by auto
qed

subsection \<open>One pass of the retry loop\<close>

text \<open>The envelopes a pass gets to try before the context ends.\<close>

fun attempts :: "(nat \<Rightarrow> retry_sel) \<Rightarrow> nat \<Rightarrow> envelope list \<Rightarrow> envelope list" where
  "attempts sel i [] = []"
| "attempts sel i (env # envs) =
     env # (case sel i of Paced \<Rightarrow> attempts sel (i + 1) envs | CtxEnded \<Rightarrow> [])"

lemma attempts_all: "(\<forall>j. sel j = Paced) \<Longrightarrow> attempts sel i envs = envs"
  by (induction envs arbitrary: i) simp_all

lemma retry_pass_logged:
  assumes "log_blind n" and "n_client n \<noteq> None"
    and "retry_pass (logged N) sel i envs n m (w, l) = (r, n', m', w', l')"
  shows "\<exists>d f. attempts sel i envs \<in> shuffles d f
    \<and> delivered l' = delivered l @ d \<and> items (pendingq n') = items (pendingq n) @ f
    \<and> r = Returned (\<forall>j. i \<le> j \<and> j < i + length envs \<longrightarrow> sel j = Paced)"
  using assms
proof (induction envs arbitrary: i n m w l)
  case Nil
  then show ?case by (intro exI [of _ "[]"]) auto
next
  case (Cons env envs)
  then obtain c where c: "n_client n = Some c" by auto
  obtain r0 c' m0 w0 l0 where s:
    "SendUpstream (node_net (logged N) n) env c m (w, l) = (r0, c', m0, w0, l0)"
    by (metis surj_pair)
  from node_SendUpstream_logged [OF Cons.prems(1) s]
  obtain err d0 f0 where one: "r0 = Returned err" "[env] \<in> shuffles d0 f0"
    "delivered l0 = delivered l @ d0"
    "f0 = (if err = None then [] else [env])"
    by (metis append_Nil2 option.distinct(1) shuffles.simps(1,2) singletonI)
  define n0 where "n0 = (if err = None then n\<lparr>n_client := Some c'\<rparr>
      else n\<lparr>n_client := Some c', pendingq := push (pendingq n) env\<rparr>)"
  have n0: "log_blind n0" "n_client n0 \<noteq> None" "items (pendingq n0) = items (pendingq n) @ f0"
    using Cons.prems(1) one(4) by (auto simp: n0_def log_blind_def)
  have cons_shuffle: "env # zs \<in> shuffles (d0 @ d) (f0 @ f)" if "zs \<in> shuffles d f" for zs d f
    using one(2) that by (auto simp: one(4) Cons_in_shuffles_iff split: if_splits)
  show ?case
  proof (cases "sel i")
    case Paced
    have run: "retry_pass (logged N) sel (i + 1) envs n0 m0 (w0, l0) = (r, n', m', w', l')"
      using Cons.prems(3) c s one(1) Paced by (simp add: n0_def Let_def)
    from Cons.IH [OF n0(1,2) run] obtain d f where df: "attempts sel (i + 1) envs \<in> shuffles d f"
      "delivered l' = delivered l0 @ d" "items (pendingq n') = items (pendingq n0) @ f"
      "r = Returned (\<forall>j. i + 1 \<le> j \<and> j < i + 1 + length envs \<longrightarrow> sel j = Paced)"
      by blast
    have "(\<forall>j. i + 1 \<le> j \<and> j < i + 1 + length envs \<longrightarrow> sel j = Paced) \<longleftrightarrow>
        (\<forall>j. i \<le> j \<and> j < i + length (env # envs) \<longrightarrow> sel j = Paced)"
      using Paced by (metis Suc_eq_plus1 Suc_leI add.commute add_Suc length_Cons Suc_leD le_neq_implies_less)
    with df one(3) n0(3) cons_shuffle [OF df(1)] Paced show ?thesis
      by (intro exI [of _ "d0 @ d"] exI [of _ "f0 @ f"]) simp
  next
    case CtxEnded
    have "r = Returned False" "n' = n0" "l' = l0"
      using Cons.prems(3) c s one(1) CtxEnded by (simp_all add: n0_def Let_def)
    moreover have "\<not> (\<forall>j. i \<le> j \<and> j < i + length (env # envs) \<longrightarrow> sel j = Paced)"
      using CtxEnded by (auto intro: exI [of _ i])
    ultimately show ?thesis
      using one n0(3) CtxEnded by (intro exI [of _ d0] exI [of _ f0]) simp
  qed
qed

subsection \<open>A pass on a good stream, and on a stale one\<close>

lemma retry_tick_pass:
  "retry_tick N sel n m w = retry_pass N sel 0 (items (pendingq n)) (n\<lparr>pendingq := \<lparr>items = []\<rparr>\<rparr>) m w"
  if "items (pendingq n) \<noteq> []"
  using that by (cases "pendingq n") (simp add: retry_tick_def drain_def)

lemma retry_pass_open:
  assumes "\<And>env w. fst (g_send N st env w) = None" and st: "upstreamStream c = Some st"
    and "log_blind n" and "n_client n = Some c"
    and "retry_pass (logged N) (\<lambda>_. Paced) i envs n m (w, l) = (r, n', m', w', l')"
  shows "r = Returned True \<and> n' = n \<and> delivered l' = delivered l @ envs"
  using assms(3-5)
proof (induction envs arbitrary: i m w l)
  case Nil
  then show ?case by simp
next
  case (Cons env envs)
  obtain w1 where s: "g_send N st env w = (None, w1)" using assms(1) by (metis prod.collapse)
  let ?m = "observe_latency ''success'' (inc_sent ''upstream'' m)"
  have n: "n\<lparr>n_client := Some c\<rparr> = n" using Cons.prems(2) by simp
  note node_SendUpstream_open [OF st s, of n m l]
  then have "retry_pass (logged N) (\<lambda>_. Paced) (i + 1) envs n ?m (w1, l @ [(st, env, True)]) = (r, n', m', w', l')"
    using Cons.prems n by simp
  from Cons.IH [OF Cons.prems(1,2) this] show ?case by simp
qed

text \<open>
  A send on a stream that is broken, while the parent accepts a new one: the envelope is not
  sent, but the client has a new stream afterwards.
\<close>

lemma node_SendUpstream_stale:
  assumes blind: "log_blind n" and st: "upstreamStream c = Some st0" and op: "\<not> closed c"
    and bad: "fst (g_send N st0 env w) \<noteq> None"
    and new: "\<And>wl. \<exists>k st wl'. openUpstream (node_net (logged N) n) c wl = (Inr (k, st), wl') \<and> P st"
    and run: "SendUpstream (node_net (logged N) n) env c m (w, l) = (r, c', m', w', l')"
  shows "(\<exists>e. r = Returned (Some e)) \<and> delivered l' = delivered l \<and>
    (\<exists>k st. c' = c\<lparr>upstreamConn := Some k, upstreamStream := Some st\<rparr> \<and> P st)"
proof -
  obtain e w1 where s: "g_send N st0 env w = (Some e, w1)" using bad by (metis not_None_eq prod.collapse)
  have send: "g_send (node_net (logged N) n) = g_send (logged N)"
    by (simp add: node_net_def split: option.split)
  obtain k st wl' where o: "openUpstream (node_net (logged N) n) c (w1, l @ [(st0, env, False)]) = (Inr (k, st), wl')"
    and P: "P st" using new by blast
  have "g_send (logged N) st0 env (w, l) = (Some e, w1, l @ [(st0, env, False)])"
    by (simp add: logged_def s)
  then have "(\<exists>e. r = Returned (Some e)) \<and> c' = c\<lparr>upstreamConn := Some k, upstreamStream := Some st\<rparr>"
    using run op st o
    by (auto simp: SendUpstream_def sendUpstream_def send_on_def send reopenUpstream_def reopen_check_def
        commitUpstream_def)
  with node_SendUpstream_logged [OF blind run] P show ?thesis by auto
qed

text \<open>So a pass that starts on such a stream sends all but the first envelope.\<close>

lemma retry_pass_stale:
  assumes blind: "log_blind n" and c: "n_client n = Some c" and st: "upstreamStream c = Some st0"
    and op: "\<not> closed c" and bad: "\<And>env w. fst (g_send N st0 env w) \<noteq> None"
    and new: "\<And>wl. \<exists>k st wl'. openUpstream (node_net (logged N) n) c wl = (Inr (k, st), wl') \<and>
      (\<forall>env w. fst (g_send N st env w) = None)"
    and run: "retry_pass (logged N) (\<lambda>_. Paced) i (env # envs) n m (w, l) = (r, n', m', w', l')"
  shows "r = Returned True \<and> delivered l' = delivered l @ envs \<and>
    items (pendingq n') = items (pendingq n) @ [env] \<and> log_blind n' \<and>
    (\<exists>c' st. n_client n' = Some c' \<and> upstreamStream c' = Some st \<and> (\<forall>env w. fst (g_send N st env w) = None))"
proof -
  obtain r0 c' m0 w0 l0 where s:
    "SendUpstream (node_net (logged N) n) env c m (w, l) = (r0, c', m0, w0, l0)"
    by (metis surj_pair)
  from node_SendUpstream_stale [OF blind st op bad new s]
  obtain e k st1 where one: "r0 = Returned (Some e)" "delivered l0 = delivered l"
    "c' = c\<lparr>upstreamConn := Some k, upstreamStream := Some st1\<rparr>"
    and good: "\<forall>env w. fst (g_send N st1 env w) = None" by blast
  let ?n = "n\<lparr>n_client := Some c', pendingq := push (pendingq n) env\<rparr>"
  have rest: "retry_pass (logged N) (\<lambda>_. Paced) (i + 1) envs ?n m0 (w0, l0) = (r, n', m', w', l')"
    using run c s one(1) by simp
  have n: "log_blind ?n" "n_client ?n = Some c'" "upstreamStream c' = Some st1"
    using blind one(3) by (simp_all add: log_blind_def)
  from retry_pass_open [OF _ n(3,1,2) rest] good
  have "r = Returned True" "n' = ?n" "delivered l' = delivered l0 @ envs" by auto
  with one n good show ?thesis by auto
qed

end
