(* ===== verification/Node_Retry.thy ===== *)
theory Node_Retry
  imports Node_Facts
begin

text \<open>
  The retry queue under concurrency: the retry loop of \<open>node/node.go\<close> next to any number of
  callers of \<open>forwardUp\<close>, which share the client and the pending queue. \<open>SendUpstream\<close> holds
  \<open>sendMu\<close> and is one step; the push after a failed send is another, since anything may run
  between them. The environment changes the client (reconnects, receive loops, \<open>Close\<close>) and
  the network at will.

  \<open>accepted\<close> and \<open>lost\<close> are not read by the code: the envelopes handed to \<open>forwardUp\<close>, and
  those the loop still held when its context ended.
\<close>

datatype retry_phase =
    Idle
  | Trying "envelope list"
  | Refused envelope "envelope list"
  | Pacing "envelope list"
  | Done

fun in_hand :: "retry_phase \<Rightarrow> envelope multiset" where
  "in_hand Idle = {#}"
| "in_hand (Trying envs) = mset envs"
| "in_hand (Refused env envs) = add_mset env (mset envs)"
| "in_hand (Pacing envs) = mset envs"
| "in_hand Done = {#}"

fun after_pacing :: "envelope list \<Rightarrow> retry_phase" where
  "after_pacing [] = Idle"
| "after_pacing (env # envs) = Trying (env # envs)"

lemma in_hand_after_pacing [simp]: "in_hand (after_pacing envs) = mset envs"
  by (cases envs) simp_all

lemma after_pacing_not_Done [simp]: "after_pacing envs \<noteq> Done"
  by (cases envs) simp_all

record 'w retry_sys =
  rn :: "('w \<times> send_log) node"
  rm :: metrics
  rw :: 'w
  rlog :: send_log
  phase_of :: retry_phase
  refused :: "envelope multiset"
  accepted :: "envelope multiset"
  lost :: "envelope multiset"

definition init_retry :: "('w \<times> send_log) node \<Rightarrow> metrics \<Rightarrow> 'w \<Rightarrow> 'w retry_sys" where
  "init_retry n m w =
     \<lparr>rn = n, rm = m, rw = w, rlog = [], phase_of = Idle, refused = {#}, accepted = {#}, lost = {#}\<rparr>"

text \<open>One call of \<open>SendUpstream\<close> by the node, on the logged network.\<close>

definition node_send ::
  "'w grpc \<Rightarrow> envelope \<Rightarrow> 'w retry_sys \<Rightarrow> go_error option outcome \<times> 'w retry_sys"
where
  "node_send N env y =
     (case n_client (rn y) of
        None \<Rightarrow> (Panicked, y)
      | Some c \<Rightarrow>
          (case SendUpstream (node_net (logged N) (rn y)) env c (rm y) (rw y, rlog y) of
             (r, c', m', w', l') \<Rightarrow>
               (r, y\<lparr>rn := (rn y)\<lparr>n_client := Some c'\<rparr>, rm := m', rw := w', rlog := l'\<rparr>)))"

definition node_push :: "envelope \<Rightarrow> 'w retry_sys \<Rightarrow> 'w retry_sys" where
  "node_push env y = y\<lparr>rn := (rn y)\<lparr>pendingq := push (pendingq (rn y)) env\<rparr>\<rparr>"

inductive retry_step :: "'w grpc \<Rightarrow> 'w retry_sys \<Rightarrow> 'w retry_sys \<Rightarrow> bool" for N where
  forward_sent:
    "node_send N env y = (Returned None, y') \<Longrightarrow>
     retry_step N y (y'\<lparr>accepted := add_mset env (accepted y')\<rparr>)"
| forward_refused:
    "node_send N env y = (Returned (Some e), y') \<Longrightarrow>
     retry_step N y (y'\<lparr>accepted := add_mset env (accepted y'), refused := add_mset env (refused y')\<rparr>)"
| forward_queued:
    "env \<in># refused y \<Longrightarrow>
     retry_step N y (node_push env (y\<lparr>refused := refused y - {#env#}\<rparr>))"
| tick:
    "phase_of y = Idle \<Longrightarrow> drain (pendingq (rn y)) = (envs, q) \<Longrightarrow>
     retry_step N y (y\<lparr>rn := (rn y)\<lparr>pendingq := q\<rparr>, phase_of := after_pacing envs\<rparr>)"
| retry_sent:
    "phase_of y = Trying (env # envs) \<Longrightarrow> node_send N env y = (Returned None, y') \<Longrightarrow>
     retry_step N y (y'\<lparr>phase_of := Pacing envs\<rparr>)"
| retry_refused:
    "phase_of y = Trying (env # envs) \<Longrightarrow> node_send N env y = (Returned (Some e), y') \<Longrightarrow>
     retry_step N y (y'\<lparr>phase_of := Refused env envs\<rparr>)"
| retry_queued:
    "phase_of y = Refused env envs \<Longrightarrow>
     retry_step N y ((node_push env y)\<lparr>phase_of := Pacing envs\<rparr>)"
| paced:
    "phase_of y = Pacing envs \<Longrightarrow> retry_step N y (y\<lparr>phase_of := after_pacing envs\<rparr>)"
| ctx_done_idle:
    "phase_of y = Idle \<Longrightarrow> retry_step N y (y\<lparr>phase_of := Done\<rparr>)"
| ctx_done_pacing:
    "phase_of y = Pacing envs \<Longrightarrow> retry_step N y (y\<lparr>phase_of := Done, lost := lost y + mset envs\<rparr>)"
| environment:
    "retry_step N y (y\<lparr>rn := (rn y)\<lparr>n_client := Some c'\<rparr>, rm := m', rw := w'\<rparr>)"

inductive retry_reach :: "'w grpc \<Rightarrow> 'w retry_sys \<Rightarrow> bool" for N where
  reach_start:
    "log_blind n \<Longrightarrow> n_client n \<noteq> None \<Longrightarrow> items (pendingq n) = [] \<Longrightarrow>
     retry_reach N (init_retry n m w)"
| reach_more: "retry_reach N y \<Longrightarrow> retry_step N y y' \<Longrightarrow> retry_reach N y'"

inductive_cases retry_stepE: "retry_step N y y'"

text \<open>A loop that has ended stays ended and loses nothing more.\<close>

lemma node_send_phase:
  "node_send N env y = (r, y') \<Longrightarrow> phase_of y' = phase_of y \<and> lost y' = lost y"
  by (auto simp: node_send_def split: option.splits prod.splits)

lemma ended_loop_stays:
  assumes "retry_step N y y'" and "phase_of y = Done"
  shows "phase_of y' = Done \<and> lost y' = lost y"
  using assms(1)
  by (rule retry_stepE) (use assms(2) in \<open>auto dest: node_send_phase simp: node_push_def\<close>)

subsection \<open>Conservation\<close>

definition conserved :: "'w retry_sys \<Rightarrow> bool" where
  "conserved y \<longleftrightarrow>
     accepted y = mset (delivered (rlog y)) + mset (items (pendingq (rn y))) + refused y
       + in_hand (phase_of y) + lost y"

definition retry_inv :: "'w retry_sys \<Rightarrow> bool" where
  "retry_inv y \<longleftrightarrow>
     log_blind (rn y) \<and> n_client (rn y) \<noteq> None \<and> conserved y \<and>
     (lost y \<noteq> {#} \<longrightarrow> phase_of y = Done)"

lemma log_blind_upd [simp]:
  "log_blind (n\<lparr>n_client := c\<rparr>) = log_blind n" "log_blind (n\<lparr>pendingq := q\<rparr>) = log_blind n"
  by (simp_all add: log_blind_def)

lemma node_push_sel [simp]:
  "rlog (node_push env y) = rlog y" "phase_of (node_push env y) = phase_of y"
  "refused (node_push env y) = refused y" "accepted (node_push env y) = accepted y"
  "lost (node_push env y) = lost y" "n_client (rn (node_push env y)) = n_client (rn y)"
  "log_blind (rn (node_push env y)) = log_blind (rn y)"
  "items (pendingq (rn (node_push env y))) = items (pendingq (rn y)) @ [env]"
  by (simp_all add: node_push_def)

lemma node_send_effect:
  assumes run: "node_send N env y = (r, y')" and blind: "log_blind (rn y)"
  shows "log_blind (rn y')" "pendingq (rn y') = pendingq (rn y)" "phase_of y' = phase_of y"
    "refused y' = refused y" "accepted y' = accepted y" "lost y' = lost y"
    "n_client (rn y) \<noteq> None \<Longrightarrow> n_client (rn y') \<noteq> None"
    "r = Returned None \<Longrightarrow> delivered (rlog y') = delivered (rlog y) @ [env]"
    "r = Returned (Some e) \<Longrightarrow> delivered (rlog y') = delivered (rlog y)"
proof -
  have *: "log_blind (rn y') \<and> pendingq (rn y') = pendingq (rn y) \<and> phase_of y' = phase_of y \<and>
      refused y' = refused y \<and> accepted y' = accepted y \<and> lost y' = lost y \<and>
      (n_client (rn y) \<noteq> None \<longrightarrow> n_client (rn y') \<noteq> None) \<and>
      (r = Returned None \<longrightarrow> delivered (rlog y') = delivered (rlog y) @ [env]) \<and>
      (\<forall>e. r = Returned (Some e) \<longrightarrow> delivered (rlog y') = delivered (rlog y))"
  proof (cases "n_client (rn y)")
    case None
    with run blind show ?thesis by (simp add: node_send_def)
  next
    case (Some c)
    obtain r0 c' m' w' l' where
      s: "SendUpstream (node_net (logged N) (rn y)) env c (rm y) (rw y, rlog y) = (r0, c', m', w', l')"
      by (rule prod_cases5)
    then have y': "r = r0" "y' = y\<lparr>rn := (rn y)\<lparr>n_client := Some c'\<rparr>, rm := m', rw := w', rlog := l'\<rparr>"
      using run Some by (simp_all add: node_send_def)
    from node_SendUpstream_logged [OF blind s] blind show ?thesis by (auto simp: y')
  qed
  from * show "log_blind (rn y')" "pendingq (rn y') = pendingq (rn y)" "phase_of y' = phase_of y"
    "refused y' = refused y" "accepted y' = accepted y" "lost y' = lost y"
    "n_client (rn y) \<noteq> None \<Longrightarrow> n_client (rn y') \<noteq> None"
    "r = Returned None \<Longrightarrow> delivered (rlog y') = delivered (rlog y) @ [env]"
    "r = Returned (Some e) \<Longrightarrow> delivered (rlog y') = delivered (rlog y)"
    by blast+
qed

lemma retry_step_inv:
  assumes "retry_step N y y'" and inv: "retry_inv y"
  shows "retry_inv y'"
  using assms(1)
proof cases
  case (forward_sent env z)
  note e = node_send_effect [OF forward_sent(2)]
  show ?thesis using inv e unfolding forward_sent(1) by (simp add: retry_inv_def conserved_def)
next
  case (forward_refused env err z)
  note e = node_send_effect [OF forward_refused(2)]
  show ?thesis using inv e unfolding forward_refused(1) by (simp add: retry_inv_def conserved_def)
next
  case (forward_queued env)
  then obtain F where "refused y = add_mset env F" by (metis insert_DiffM)
  with inv show ?thesis unfolding forward_queued(1) by (simp add: retry_inv_def conserved_def)
next
  case (tick envs q)
  then have "envs = items (pendingq (rn y))" "items q = []"
    by (simp_all add: drain_def) auto
  with inv tick(2) show ?thesis unfolding tick(1) by (auto simp: retry_inv_def conserved_def)
next
  case (retry_sent env envs z)
  note e = node_send_effect [OF retry_sent(3)]
  show ?thesis using inv e retry_sent(2) unfolding retry_sent(1)
    by (auto simp: retry_inv_def conserved_def)
next
  case (retry_refused env envs err z)
  note e = node_send_effect [OF retry_refused(3)]
  show ?thesis using inv e retry_refused(2) unfolding retry_refused(1)
    by (auto simp: retry_inv_def conserved_def)
next
  case (retry_queued env envs)
  with inv show ?thesis by (auto simp: retry_inv_def conserved_def)
next
  case (paced envs)
  with inv show ?thesis by (auto simp: retry_inv_def conserved_def)
next
  case ctx_done_idle
  with inv show ?thesis by (auto simp: retry_inv_def conserved_def)
next
  case (ctx_done_pacing envs)
  with inv show ?thesis by (auto simp: retry_inv_def conserved_def)
next
  case (environment c' m' w')
  with inv show ?thesis by (auto simp: retry_inv_def conserved_def)
qed

lemma retry_reach_inv: "retry_reach N y \<Longrightarrow> retry_inv y"
proof (induction rule: retry_reach.induct)
  case (reach_start n m w)
  then show ?case by (auto simp: retry_inv_def conserved_def init_retry_def)
next
  case (reach_more y y')
  then show ?case using retry_step_inv by blast
qed

subsection \<open>The sequential pass is a run of these steps\<close>

definition same_state :: "'w retry_sys \<Rightarrow> ('w \<times> send_log) node \<Rightarrow> metrics \<Rightarrow> 'w \<Rightarrow> send_log \<Rightarrow> bool" where
  "same_state y n m w l \<longleftrightarrow> rn y = n \<and> rm y = m \<and> rw y = w \<and> rlog y = l"

lemma retry_pass_steps:
  assumes "retry_pass (logged N) sel i envs (rn y) (rm y) (rw y, rlog y) = (Returned go, n', m', w', l')"
    and "phase_of y = after_pacing envs"
  shows "\<exists>y'. (retry_step N)\<^sup>*\<^sup>* y y' \<and> same_state y' n' m' w' l' \<and>
    phase_of y' = (if go then Idle else Done)"
  using assms
proof (induction envs arbitrary: i y)
  case Nil
  then show ?case by (intro exI [of _ y]) (simp add: same_state_def)
next
  case (Cons env envs)
  from Cons.prems(1) obtain c where c: "n_client (rn y) = Some c"
    by (cases "n_client (rn y)") simp_all
  obtain r0 c' m0 w0 l0 where
    s: "SendUpstream (node_net (logged N) (rn y)) env c (rm y) (rw y, rlog y) = (r0, c', m0, w0, l0)"
    by (rule prod_cases5)
  define z where "z = y\<lparr>rn := (rn y)\<lparr>n_client := Some c'\<rparr>, rm := m0, rw := w0, rlog := l0\<rparr>"
  have send: "node_send N env y = (r0, z)" using c s by (simp add: node_send_def z_def)
  from Cons.prems(1) c s obtain err where r0: "r0 = Returned err" by (cases r0) simp_all
  define z1 where "z1 = (if err = None then z else node_push env z)\<lparr>phase_of := Pacing envs\<rparr>"
  have phase: "phase_of y = Trying (env # envs)" using Cons.prems(2) by simp
  have to_z1: "(retry_step N)\<^sup>*\<^sup>* y z1"
  proof (cases err)
    case None
    have "retry_step N y (z\<lparr>phase_of := Pacing envs\<rparr>)"
      using phase send r0 None by (auto intro: retry_sent)
    then show ?thesis by (simp add: z1_def None)
  next
    case (Some e)
    have "retry_step N y (z\<lparr>phase_of := Refused env envs\<rparr>)"
      using phase send r0 Some by (auto intro: retry_refused)
    moreover have "retry_step N (z\<lparr>phase_of := Refused env envs\<rparr>)
        ((node_push env (z\<lparr>phase_of := Refused env envs\<rparr>))\<lparr>phase_of := Pacing envs\<rparr>)"
      by (rule retry_queued) simp
    moreover have "(node_push env (z\<lparr>phase_of := Refused env envs\<rparr>))\<lparr>phase_of := Pacing envs\<rparr> = z1"
      by (simp add: z1_def Some node_push_def)
    ultimately show ?thesis by (metis converse_rtranclp_into_rtranclp r_into_rtranclp)
  qed
  define n0 where "n0 = (if err = None then (rn y)\<lparr>n_client := Some c'\<rparr>
      else (rn y)\<lparr>n_client := Some c', pendingq := push (pendingq (rn y)) env\<rparr>)"
  have z1: "rn z1 = n0" "rm z1 = m0" "rw z1 = w0" "rlog z1 = l0" "phase_of z1 = Pacing envs"
    by (simp_all add: z1_def z_def n0_def node_push_def)
  show ?case
  proof (cases "sel i")
    case Paced
    define z2 where "z2 = z1\<lparr>phase_of := after_pacing envs\<rparr>"
    have "retry_step N z1 z2" unfolding z2_def by (rule paced) (rule z1(5))
    have z2: "rn z2 = n0" "rm z2 = m0" "rw z2 = w0" "rlog z2 = l0" "phase_of z2 = after_pacing envs"
      using z1 by (simp_all add: z2_def)
    have "retry_pass (logged N) sel (i + 1) envs (rn z2) (rm z2) (rw z2, rlog z2) =
        (Returned go, n', m', w', l')"
      using Cons.prems(1) c s r0 Paced by (simp add: z2 n0_def Let_def)
    from Cons.IH [OF this z2(5)] obtain y' where "(retry_step N)\<^sup>*\<^sup>* z2 y'"
      "same_state y' n' m' w' l'" "phase_of y' = (if go then Idle else Done)"
      by blast
    moreover have "(retry_step N)\<^sup>*\<^sup>* y z2"
      using to_z1 \<open>retry_step N z1 z2\<close> by (rule rtranclp.rtrancl_into_rtrancl)
    ultimately show ?thesis by (meson rtranclp_trans)
  next
    case CtxEnded
    define z2 where "z2 = z1\<lparr>phase_of := Done, lost := lost z1 + mset envs\<rparr>"
    have "retry_step N z1 z2" unfolding z2_def by (rule ctx_done_pacing) (rule z1(5))
    then have "(retry_step N)\<^sup>*\<^sup>* y z2"
      using to_z1 by (simp add: rtranclp.rtrancl_into_rtrancl)
    moreover have "\<not> go" "same_state z2 n' m' w' l'" "phase_of z2 = Done"
      using Cons.prems(1) c s r0 CtxEnded z1
      by (simp_all add: z2_def same_state_def n0_def Let_def)
    ultimately show ?thesis by auto
  qed
qed

end
