(* ===== verification/Node_Properties.thy ===== *)
theory Node_Properties
  imports Node_Retry Client_Properties Server_Properties
begin

text \<open>
  The properties of the node, with witnesses on a node that is connected to the parent of
  \<open>demo_net\<close>, and on the server with two children of \<open>Server_Properties\<close>.
\<close>

definition demo_resolver :: "'w resolver" where
  "demo_resolver = static_resolver (NewStaticResolver ''parent:1'')"

definition demo_node :: "envelope list \<Rightarrow> 'w node" where
  "demo_node envs =
     \<lparr>cfg = \<lparr>cfg_id = ''leaf'', listenAddr = '''', cfg_resolver = Some demo_resolver, cfg_authn = None,
              cfg_authorizeChild = None\<rparr>,
      n_server = None, n_client = Some up_client, upstreamHandlers = fmempty,
      downstreamHandlers = fmempty, pendingq = \<lparr>items = envs\<rparr>, retryStarted = True\<rparr>"

lemma demo_node_sel [simp]:
  "n_client (demo_node envs) = Some up_client" "items (pendingq (demo_node envs)) = envs"
  "n_server (demo_node envs) = None" "cfg_id (cfg (demo_node envs)) = ''leaf''"
  "upstreamHandlers (demo_node envs) = fmempty"
  by (simp_all add: demo_node_def)

lemma with_log_demo: "with_log demo_resolver = demo_resolver"
  by (rule ext) (simp add: with_log_def demo_resolver_def static_resolver_def split: prod.split)

lemma demo_node_blind: "log_blind (demo_node envs)"
  unfolding log_blind_def
  by (rule exI [of _ "Some demo_resolver"]) (simp add: demo_node_def with_log_demo)

subsection \<open>The retry queue\<close>

text \<open>
  C2. No envelope handed to \<open>forwardUp\<close> is lost or duplicated by the retry machinery, whatever the
  interleaving of senders, retry passes and reconnects: at every moment each one has either been
  sent successfully, once, or is in the queue, or is about to be pushed by its sender, or is held
  by the running retry pass, or was dropped by a pass whose context ended; and the last happens
  only when the retry loop has ended.
\<close>

theorem retry_conserves:
  assumes "retry_reach N y"
  shows "accepted y = mset (delivered (rlog y)) + mset (items (pendingq (rn y))) + refused y
      + in_hand (phase_of y) + lost y \<and>
    (lost y \<noteq> {#} \<longrightarrow> phase_of y = Done)"
  using retry_reach_inv [OF assms] by (simp add: retry_inv_def conserved_def)

definition retry_demo :: "conn list retry_sys" where
  "retry_demo = init_retry (demo_node []) initial_metrics [2, 1]"

lemma retry_demo_reach: "retry_reach demo_net retry_demo"
  unfolding retry_demo_def by (rule retry_reach.reach_start) (simp_all add: demo_node_blind)

theorem retry_conserves_witness:
  "\<exists>y. retry_reach demo_net y \<and> accepted y = {#demo_env#} \<and>
     accepted y = mset (delivered (rlog y)) + mset (items (pendingq (rn y))) + refused y
       + in_hand (phase_of y) + lost y"
proof -
  obtain r y' where s: "node_send demo_net demo_env retry_demo = (r, y')"
    by (cases "node_send demo_net demo_env retry_demo")
  have "r = Returned None"
    using s by (simp add: node_send_def retry_demo_def init_retry_def SendUpstream_def sendUpstream_def
        send_on_def up_client_def node_net_def demo_node_def logged_def demo_net_def)
  with s have "node_send demo_net demo_env retry_demo = (Returned None, y')" by simp
  then have step: "retry_reach demo_net (y'\<lparr>accepted := add_mset demo_env (accepted y')\<rparr>)"
    by (rule retry_reach.reach_more [OF retry_demo_reach retry_step.forward_sent])
  have "accepted y' = {#}"
    using node_send_effect(5) [OF s] by (simp add: retry_demo_def init_retry_def demo_node_blind)
  with retry_conserves [OF step] step show ?thesis
    by (intro exI [of _ "y'\<lparr>accepted := add_mset demo_env (accepted y')\<rparr>"]) simp
qed

text \<open>
  One pass of the retry loop splits the backlog without reordering it: the envelopes it
  attempts are an interleaving of those it sends, in order, and those it puts back into the
  queue, in order; a pass that the context does not end attempts the whole backlog.
\<close>

theorem retry_pass_splits_backlog:
  assumes "log_blind n" and "n_client n \<noteq> None"
    and "retry_tick (logged N) sel n m (w, l) = (r, n', m', w', l')"
  shows "\<exists>sent back. attempts sel 0 (items (pendingq n)) \<in> shuffles sent back \<and>
    delivered l' = delivered l @ sent \<and> items (pendingq n') = back \<and>
    ((\<forall>j. sel j = Paced) \<longrightarrow> attempts sel 0 (items (pendingq n)) = items (pendingq n) \<and> r = Returned True)"
proof -
  let ?n = "n\<lparr>pendingq := snd (drain (pendingq n))\<rparr>"
  have "retry_pass (logged N) sel 0 (items (pendingq n)) ?n m (w, l) = (r, n', m', w', l')"
    using assms(3) by (cases "items (pendingq n)") (auto simp: retry_tick_def drain_def)
  moreover have "log_blind ?n" "n_client ?n \<noteq> None" "items (pendingq ?n) = []"
    using assms(1,2) by simp_all
  ultimately obtain d f where *: "attempts sel 0 (items (pendingq n)) \<in> shuffles d f"
    "delivered l' = delivered l @ d" "items (pendingq n') = f"
    "r = Returned (\<forall>j. 0 \<le> j \<and> j < length (items (pendingq n)) \<longrightarrow> sel j = Paced)"
    using retry_pass_logged [of ?n N sel 0 "items (pendingq n)" m w l r n' m' w' l'] by auto
  have "attempts sel 0 (items (pendingq n)) = items (pendingq n)" if "\<forall>j. sel j = Paced"
    using that by (rule attempts_all)
  with * show ?thesis by auto
qed

definition second_env :: envelope where
  "second_env = demo_env\<lparr>EnvId := ''leaf-6''\<rparr>"

theorem retry_pass_splits_backlog_witness:
  "\<exists>sent back. [demo_env, second_env] \<in> shuffles sent back \<and>
     delivered (snd (snd (snd (snd (retry_tick (logged demo_net) (\<lambda>_. Paced)
       (demo_node [demo_env, second_env]) initial_metrics ([2, 1], [])))))) = sent"
proof -
  let ?n = "demo_node [demo_env, second_env]"
  obtain r n' m' w' l' where t:
    "retry_tick (logged demo_net) (\<lambda>_. Paced) ?n initial_metrics ([2, 1], []) = (r, n', m', w', l')"
    by (rule prod_cases5)
  have "n_client ?n \<noteq> None" by simp
  from retry_pass_splits_backlog [OF demo_node_blind this t] show ?thesis
    unfolding t by auto
qed

text \<open>With a stream that takes every envelope, one pass delivers the whole backlog in order.\<close>

theorem retry_pass_delivers_backlog:
  assumes "log_blind n" and "n_client n = Some c" and "upstreamStream c = Some st"
    and "\<And>env w. fst (g_send N st env w) = None"
    and "retry_tick (logged N) (\<lambda>_. Paced) n m (w, l) = (r, n', m', w', l')"
  shows "r = Returned True \<and> delivered l' = delivered l @ items (pendingq n) \<and>
    items (pendingq n') = []"
proof (cases "items (pendingq n) = []")
  case True
  with assms(5) show ?thesis by (auto simp: retry_tick_def drain_def)
next
  case False
  note run = assms(5) [unfolded retry_tick_pass [OF False]]
  from retry_pass_open [OF assms(4,3) _ _ run] assms(1,2) show ?thesis by simp
qed

text \<open>
  C25. Once a lost parent is back, two passes deliver a backlog: the upstream stream is still the
  broken one, so the first envelope fails and only gets the stream reopened, the rest of the
  first pass goes out, and the second pass sends that first envelope, last. Both passes let the
  loop go on, and no other step of the client is needed in between.
\<close>

theorem lost_parent_recovers:
  assumes "log_blind n" and "n_client n = Some c" and "upstreamStream c = Some st0" and "\<not> closed c"
    and "\<And>env w. fst (g_send N st0 env w) \<noteq> None"
    and "\<And>wl. \<exists>k st wl'. openUpstream (node_net (logged N) n) c wl = (Inr (k, st), wl') \<and>
      (\<forall>env w. fst (g_send N st env w) = None)"
    and "items (pendingq n) = env # envs"
    and "retry_tick (logged N) (\<lambda>_. Paced) n m (w, l) = (r1, n1, m1, w1, l1)"
    and "retry_tick (logged N) (\<lambda>_. Paced) n1 m1' (w1', l1) = (r2, n2, m2, w2, l2)"
  shows "r1 = Returned True \<and> delivered l1 = delivered l @ envs \<and> items (pendingq n1) = [env] \<and>
    r2 = Returned True \<and> delivered l2 = delivered l @ envs @ [env] \<and> items (pendingq n2) = []"
proof -
  let ?n = "n\<lparr>pendingq := \<lparr>items = []\<rparr>\<rparr>"
  have "items (pendingq n) \<noteq> []" using assms(7) by simp
  note run = assms(8) [unfolded retry_tick_pass [OF this] assms(7)]
  have net: "node_net M ?n = node_net M n" for M by (simp add: node_net_def)
  have n: "log_blind ?n" "n_client ?n = Some c" using assms(1,2) by simp_all
  from retry_pass_stale [OF n assms(3,4,5) _ run] assms(6)
  have one: "r1 = Returned True" "delivered l1 = delivered l @ envs" "items (pendingq n1) = [env]"
    "log_blind n1" and "\<exists>c' st. n_client n1 = Some c' \<and> upstreamStream c' = Some st \<and>
      (\<forall>env w. fst (g_send N st env w) = None)"
    unfolding net by simp_all
  then obtain c' st where c': "n_client n1 = Some c'" "upstreamStream c' = Some st"
    "\<forall>env w. fst (g_send N st env w) = None" by blast
  from retry_pass_delivers_backlog [OF one(4) c'(1,2) _ assms(9)] c'(3) one(1-3) show ?thesis by simp
qed

text \<open>A network on which the stream 1 is broken.\<close>

definition stale_net :: "conn list grpc" where
  "stale_net = demo_net\<lparr>g_newClient := (\<lambda>a cr w. (Inr 5, w)),
     g_send := (\<lambda>st env w. (if st = 1 then Some Io_EOF else None, w))\<rparr>"

lemma stale_open:
  "\<exists>k st wl'. openUpstream (node_net (logged stale_net) (demo_node envs)) up_client wl = (Inr (k, st), wl') \<and>
     (\<forall>env w. fst (g_send stale_net st env w) = None)"
  by (simp add: openUpstream_def dialParent_def client_creds_def up_client_def node_net_def demo_node_def
      demo_resolver_def static_resolver_def logged_def with_log_def stale_net_def demo_net_def
      ParentAddr_def NewStaticResolver_def split: prod.splits)

theorem lost_parent_recovers_witness:
  "delivered (snd (snd (snd (snd (retry_tick (logged stale_net) (\<lambda>_. Paced)
       (demo_node [demo_env, second_env]) initial_metrics ([2, 1], [])))))) = [second_env]"
proof -
  let ?n = "demo_node [demo_env, second_env]"
  obtain r n' m' w' l' where t:
    "retry_tick (logged stale_net) (\<lambda>_. Paced) ?n initial_metrics ([2, 1], []) = (r, n', m', w', l')"
    by (rule prod_cases5)
  obtain r2 n2 m2 w2 l2 where t2: "retry_tick (logged stale_net) (\<lambda>_. Paced) n' m' (w', l') = (r2, n2, m2, w2, l2)"
    by (rule prod_cases5)
  have "upstreamStream up_client = Some 1" "\<not> closed up_client"
    "fst (g_send stale_net 1 env w) \<noteq> None" for env w
    by (simp_all add: up_client_def stale_net_def)
  from lost_parent_recovers [OF demo_node_blind demo_node_sel(1) this stale_open demo_node_sel(2) t t2]
  show ?thesis unfolding t by simp
qed

text \<open>
  C36. A pass that the context ends after its first attempt drops the rest of the backlog: the
  drained envelopes that were not attempted have neither been sent nor are they in the queue.
\<close>

theorem ended_pass_drops_backlog:
  assumes "log_blind n" and "n_client n \<noteq> None" and "items (pendingq n) = env # envs"
    and "sel 0 = CtxEnded" and "retry_tick (logged N) sel n m (w, l) = (r, n', m', w', l')"
  shows "r = Returned False \<and> mset (delivered l') + mset (items (pendingq n')) = mset (delivered l) + {#env#}"
proof -
  let ?n = "n\<lparr>pendingq := snd (drain (pendingq n))\<rparr>"
  have run: "retry_pass (logged N) sel 0 (env # envs) ?n m (w, l) = (r, n', m', w', l')"
    using assms(3,5) by (simp add: retry_tick_def drain_def)
  have "log_blind ?n" "n_client ?n \<noteq> None" using assms(1,2) by simp_all
  from retry_pass_logged [OF this run] obtain d f where *: "attempts sel 0 (env # envs) \<in> shuffles d f"
    "delivered l' = delivered l @ d" "items (pendingq n') = f"
    "r = Returned (\<forall>j. 0 \<le> j \<and> j < 0 + length (env # envs) \<longrightarrow> sel j = Paced)"
    by auto
  from *(1) assms(4) have "mset d + mset f = {#env#}" using mset_shuffles by fastforce
  moreover have "r = Returned False" using *(4) assms(4) by (auto intro: exI [of _ 0])
  ultimately show ?thesis using *(2,3) by simp
qed

theorem ended_pass_drops_backlog_witness:
  "\<not> second_env \<in># mset (delivered (snd (snd (snd (snd (retry_tick (logged demo_net) (\<lambda>_. CtxEnded)
       (demo_node [demo_env, second_env]) initial_metrics ([2, 1], [])))))))"
proof -
  let ?n = "demo_node [demo_env, second_env]"
  obtain r n' m' w' l' where t:
    "retry_tick (logged demo_net) (\<lambda>_. CtxEnded) ?n initial_metrics ([2, 1], []) = (r, n', m', w', l')"
    by (rule prod_cases5)
  have "n_client ?n \<noteq> None" by simp
  from ended_pass_drops_backlog [OF demo_node_blind this demo_node_sel(2) refl t]
  have "mset (delivered l') + mset (items (pendingq n')) = {#demo_env#}" by simp
  then have "set_mset (mset (delivered l')) \<subseteq> {demo_env}"
    by (metis mset_subset_eq_add_left set_mset_add_mset_insert set_mset_empty set_mset_mono)
  then show ?thesis unfolding t by (auto simp: demo_env_def second_env_def)
qed

text \<open>
  A retry pass taken alone is a run of the concurrent system: from the moment the queue has
  been drained, the sequential definition of the pass is matched by steps of the retry loop with
  nothing in between, ending idle, or done if the context ended.
\<close>

theorem retry_pass_refines_steps:
  assumes "retry_pass (logged N) sel i envs (rn y) (rm y) (rw y, rlog y) = (Returned go, n', m', w', l')"
    and "phase_of y = after_pacing envs"
  shows "\<exists>y'. (retry_step N)\<^sup>*\<^sup>* y y' \<and> rn y' = n' \<and> rm y' = m' \<and> rw y' = w' \<and> rlog y' = l' \<and>
    phase_of y' = (if go then Idle else Done)"
  using retry_pass_steps [OF assms] by (auto simp: same_state_def)

theorem retry_pass_refines_steps_witness:
  "\<exists>y'. (retry_step demo_net)\<^sup>*\<^sup>* retry_demo y' \<and> phase_of y' = Idle"
proof -
  have "retry_pass (logged demo_net) (\<lambda>_. Paced) 0 [] (rn retry_demo) (rm retry_demo)
      (rw retry_demo, rlog retry_demo) =
    (Returned True, rn retry_demo, rm retry_demo, rw retry_demo, rlog retry_demo)" by simp
  from retry_pass_refines_steps [OF this] show ?thesis
    by (auto simp: retry_demo_def init_retry_def)
qed

subsection \<open>Handlers and forwarding\<close>

text \<open>
  C21. Sending up never fails: the handlers run once each, in the order of their registration,
  those of the envelope's kind only, and then the envelope is forwarded; with a parent
  configured, it has been sent exactly once or is at the end of the retry queue, and without one
  nothing else happens. An envelope from a child is treated in the same way.
\<close>

theorem send_up_accepts:
  assumes "n = register_all hs n0" and "upstreamHandlers n0 = fmempty" and "log_blind n"
    and "SendUp (logged N) c kind p t1 t2 n m w = (r, n', m', w', l')"
    and "env = newEnvelope (ID n) kind p t1 t2"
    and "foldl (\<lambda>w h. h c env w) w (map snd (filter (\<lambda>h. fst h = kind) hs)) = (w1, l1)"
  shows "r = Returned None \<and>
    (case n_client n of
       None \<Rightarrow> n' = n \<and> (w', l') = (w1, l1)
     | Some _ \<Rightarrow>
         items (pendingq n') = items (pendingq n) \<and> delivered l' = delivered l1 @ [env] \<or>
         items (pendingq n') = items (pendingq n) @ [env] \<and> delivered l' = delivered l1) \<and>
    handleUpstreamFromChild (logged N) c env n m w = (r, n', m', w', l')"
proof -
  have "runUpstreamHandlers c env n w = (w1, l1)"
    using assms(1,2,6) by (simp add: runUpstreamHandlers_def register_all_slice assms(5))
  then have fwd: "forwardUp (logged N) env n m (w1, l1) = (r, n', m', w', l')"
    using assms(4,5) by (simp add: SendUp_def ID_def)
  moreover have "handleUpstreamFromChild (logged N) c env n m w = (r, n', m', w', l')"
    using fwd \<open>runUpstreamHandlers c env n w = (w1, l1)\<close> by (simp add: handleUpstreamFromChild_def)
  ultimately show ?thesis
    using forwardUp_logged [OF assms(3) _ fwd] by (cases "n_client n") (auto simp: forwardUp_def)
qed

definition note_kind :: "(conn list \<times> send_log) up_handler" where
  "note_kind c env w = (length (Kind env) # fst w, snd w)"

theorem send_up_accepts_witness:
  "fst (SendUp (logged demo_net) (claiming '''') ''log'' ''p'' 1 1
     (register_all [(''log'', note_kind), (''config'', note_kind)] (demo_node [])) initial_metrics ([2, 1], [])) =
   Returned None"
proof -
  let ?n = "register_all [(''log'', note_kind), (''config'', note_kind)] (demo_node [])"
  have blind: "log_blind ?n"
    using demo_node_blind unfolding log_blind_def by (simp add: register_all_def OnUpstream_def)
  obtain r n' m' w' l' where s:
    "SendUp (logged demo_net) (claiming '''') ''log'' ''p'' 1 1 ?n initial_metrics ([2, 1], []) = (r, n', m', w', l')"
    by (rule prod_cases5)
  let ?env = "newEnvelope (ID ?n) ''log'' ''p'' 1 1"
  have "foldl (\<lambda>w h. h (claiming '''') ?env w) ([2, 1], [])
      (map snd (filter (\<lambda>h. fst h = ''log'') [(''log'', note_kind), (''config'', note_kind)])) =
    ([3, 2, 1], [])" by (simp add: note_kind_def)
  from send_up_accepts [OF refl demo_node_sel(5) blind s refl this] show ?thesis unfolding s by simp
qed

text \<open>
  An envelope from the parent goes through the handlers of its kind, once each and in the order
  of registration, and then unchanged to every child whose buffer has room; a node without
  children only runs the handlers.
\<close>

theorem downstream_propagates:
  assumes "n = register_down_all hs n0" and "downstreamHandlers n0 = fmempty"
    and "n_server n = Some s" and "server_ok s" and "range_order ks (children s)"
    and "handleDownstreamFromParent ks env n m w = (n', m', w')"
  shows "w' = foldl (\<lambda>w h. h env w) w (map snd (filter (\<lambda>h. fst h = Kind env) hs)) \<and>
    (\<exists>s'. n_server n' = Some s' \<and> children s' = children s \<and>
      (\<forall>k c. fmlookup (children s) k = Some c \<longrightarrow>
         chan_buf c s' = (if can_accept s k then chan_buf c s @ [env] else chan_buf c s)))"
proof -
  obtain re s' m1 where b: "BroadcastDownstream ks env s m = (re, s', m1)" by (rule prod_cases3)
  note buf = Broadcast_buffers [OF assms(4,5) b]
  have ch: "children s' = children s" by (subst buf(1)) simp
  have "slice_at (Kind env) (downstreamHandlers n) = map snd (filter (\<lambda>h. fst h = Kind env) hs)"
    using assms(1,2) by (simp add: register_down_all_slice)
  then have "w' = foldl (\<lambda>w h. h env w) w (map snd (filter (\<lambda>h. fst h = Kind env) hs))"
    and "n_server n' = Some s'"
    using assms(3,6) b by (auto simp: handleDownstreamFromParent_def runDownstreamHandlers_def)
  with ch buf(2) show ?thesis by blast
qed

definition branch_node :: "string list node" where
  "branch_node = (demo_node [])\<lparr>n_server := Some (srv two_children), downstreamHandlers := fmempty\<rparr>"

theorem downstream_propagates_witness:
  "snd (snd (handleDownstreamFromParent [''a'', ''b''] greeting
     (register_down_all [(''config'', \<lambda>env w. w @ [Payload env])] branch_node) initial_metrics [])) = [''x'']"
proof -
  let ?n = "register_down_all [(''config'', \<lambda>env w. w @ [Payload env])] branch_node"
  obtain n' m' w' where d: "handleDownstreamFromParent [''a'', ''b''] greeting ?n initial_metrics [] = (n', m', w')"
    by (rule prod_cases3)
  have "downstreamHandlers branch_node = fmempty" "n_server ?n = Some (srv two_children)"
    by (simp_all add: branch_node_def register_down_all_def OnDownstream_def)
  from downstream_propagates [OF refl this two_children_ok two_children_order(1) d]
  show ?thesis unfolding d by (simp add: greeting_def)
qed

subsection \<open>Construction, start and stop\<close>

text \<open>
  \<open>New\<close> accepts exactly the configurations with an id and at least one of an address to listen
  on and a resolver, and \<open>Start\<close> then always returns nil: the node has a server exactly when it
  listens, a client and a retry loop exactly when it has a resolver, whether or not the parent
  could be reached.
\<close>

theorem new_and_start:
  assumes "c = foldl (\<lambda>c opt. opt c) zero_config opts"
  shows "case New opts of
      Inl e \<Rightarrow> cfg_id c = '''' \<or> (listenAddr c = '''' \<and> cfg_resolver c = None)
    | Inr n \<Rightarrow> cfg_id c \<noteq> '''' \<and> (listenAddr c \<noteq> '''' \<or> cfg_resolver c \<noteq> None) \<and> cfg n = c \<and>
        (case Start N n w of (e, n', w') \<Rightarrow>
           e = None \<and> cfg n' = c \<and> (n_server n' \<noteq> None \<longleftrightarrow> listenAddr c \<noteq> '''') \<and>
           (n_client n' \<noteq> None \<longleftrightarrow> cfg_resolver c \<noteq> None) \<and>
           (retryStarted n' \<longleftrightarrow> cfg_resolver c \<noteq> None))"
proof (cases "New opts")
  case (Inl e)
  then show ?thesis by (auto simp: New_def assms Let_def split: if_splits)
next
  case (Inr n)
  then have n: "cfg n = c" "cfg_id c \<noteq> ''''" "listenAddr c \<noteq> '''' \<or> cfg_resolver c \<noteq> None"
    "n_server n = None" "n_client n = None" "\<not> retryStarted n"
    by (auto simp: New_def assms Let_def split: if_splits)
  obtain e n' w' where st: "Start N n w = (e, n', w')" by (rule prod_cases3)
  obtain e1 c1 w1 where con:
    "Connect (node_net N (start_server n)) (NewClient (cfg_id c) (cfg_authn c)) w = (e1, c1, w1)"
    by (rule prod_cases3)
  have e1: "e1 = None" using Connect_returns_nil [of "node_net N (start_server n)" _ w] con by (metis fst_conv)
  have ss: "cfg (start_server n) = c" "n_client (start_server n) = None" "\<not> retryStarted (start_server n)"
    "n_server (start_server n) \<noteq> None \<longleftrightarrow> listenAddr c \<noteq> ''''"
    using n by (auto simp: start_server_def Let_def)
  have "e = None \<and> n' = (if cfg_resolver c = None then start_server n
      else (start_server n)\<lparr>n_client := Some c1, retryStarted := True\<rparr>)"
    using st con e1 ss(1) by (auto simp: Start_def Let_def)
  then show ?thesis using n ss by (auto simp: Inr st)
qed

theorem new_and_start_witness:
  "\<exists>n. New [WithID ''root'', WithListenAddr '':7000''] = Inr n \<and> fst (Start demo_net n []) = None"
proof -
  let ?opts = "[WithID ''root'', WithListenAddr '':7000''] :: conn list node_option list"
  have "New ?opts \<noteq> Inl e" for e
    by (simp add: New_def WithID_def WithListenAddr_def zero_config_def)
  then obtain n where "New ?opts = Inr n" by (cases "New ?opts") auto
  with new_and_start [OF refl, of ?opts demo_net "[]"] show ?thesis by auto
qed

text \<open>
  C37. Stopping a node before the goroutine of \<open>Start\<close> has got to \<open>Listen\<close> is lost: \<open>Stop\<close> finds
  no gRPC server to stop, and \<open>Listen\<close> afterwards creates one and serves on it.
\<close>

theorem stop_before_listen_is_lost:
  assumes "n_server n = Some s" and "grpcServer s = None" and "srv_authn s = None"
    and "nodeStop N n w = (e, n1, w1)" and "net (listenAddr (cfg n)) = None"
  shows "\<exists>s2. n_server (listen_goroutine net serve n1) = Some s2 \<and>
    grpcServer s2 = Some (GrpcServer Insecure False)"
proof -
  have "n_server n1 = Some s \<and> cfg n1 = cfg n"
    using assms(1,2,4) by (auto simp: nodeStop_def Stop_def split: option.splits prod.splits)
  with assms(3,5) show ?thesis by (simp add: listen_goroutine_def Listen_def)
qed

theorem stop_before_listen_is_lost_witness:
  "\<exists>s2. n_server (listen_goroutine (\<lambda>_. None) (\<lambda>_. None)
      (fst (snd (nodeStop demo_net ((demo_node [])\<lparr>n_server := Some (NewServer None)\<rparr>) [2, 1])))) = Some s2 \<and>
    grpcServer s2 = Some (GrpcServer Insecure False)"
proof -
  let ?n = "(demo_node [])\<lparr>n_server := Some (NewServer None)\<rparr>"
  obtain e n1 w1 where st: "nodeStop demo_net ?n [2, 1] = (e, n1, w1)" by (rule prod_cases3)
  have s: "n_server ?n = Some (NewServer None)" "srv_authn (NewServer None) = None"
    by (simp_all add: NewServer_def)
  show ?thesis
    unfolding st fst_conv snd_conv
    by (rule stop_before_listen_is_lost [OF s(1) _ s(2) st]) simp_all
qed

text \<open>
  C32. \<open>Start\<close> has its server accept children before it sets the client. What a child sends in
  between is lost to the parent: the handlers of the node run, the child is told that it was accepted,
  and it is neither sent up nor queued, although the node is configured with a parent; when \<open>Start\<close>
  then sets the client, the queue for the parent is empty.
\<close>

theorem early_upstream_lost:
  assumes "New opts = Inr n" and "listenAddr (cfg n) \<noteq> ''''" and "cfg_resolver (cfg n) \<noteq> None"
    and "Start N n w1 = (e, n2, w2)"
  shows "HasParent (start_server n) \<and> n_server (start_server n) \<noteq> None \<and>
    handleUpstreamFromChild N c env (start_server n) m w =
      (Returned None, start_server n, m, runUpstreamHandlers c env (start_server n) w) \<and>
    n_client n2 \<noteq> None \<and> items (pendingq n2) = []"
proof -
  have n: "n_client n = None" "pendingq n = empty_queue"
    using assms(1) by (auto simp: New_def Let_def split: if_splits)
  have s: "cfg (start_server n) = cfg n" "n_client (start_server n) = None"
    "pendingq (start_server n) = empty_queue" "n_server (start_server n) \<noteq> None"
    using n assms(2) by (simp_all add: start_server_def Let_def)
  have "n_client n2 \<noteq> None \<and> pendingq n2 = empty_queue"
    using assms(3,4) s by (auto simp: Start_def Let_def split: prod.splits option.splits)
  then show ?thesis
    using s assms(3) by (simp add: HasParent_def handleUpstreamFromChild_def forwardUp_def empty_queue_def)
qed

theorem early_upstream_lost_witness:
  "\<exists>n. New [WithID ''branch'', WithListenAddr '':7000'', WithResolver (\<lambda>w. (Inr ''root:7000'', w))] = Inr n \<and>
     (\<forall>c env m w. fst (handleUpstreamFromChild demo_net c env (start_server n) m w) = Returned None)"
proof -
  let ?opts = "[WithID ''branch'', WithListenAddr '':7000'', WithResolver (\<lambda>w. (Inr ''root:7000'', w))]
    :: conn list node_option list"
  obtain n where n: "New ?opts = Inr n" "listenAddr (cfg n) \<noteq> ''''" "cfg_resolver (cfg n) \<noteq> None"
    by (simp add: New_def WithID_def WithListenAddr_def WithResolver_def zero_config_def)
  obtain e n2 w2 where "Start demo_net n [] = (e, n2, w2)" by (rule prod_cases3)
  from early_upstream_lost [OF n this] n(1) show ?thesis by fastforce
qed

end
