(* ===== verification/Node_Tree.thy ===== *)
theory Node_Tree
  imports Node_Facts
begin

text \<open>
  Trees of nodes: the parts of \<open>Server\<close>, \<open>Client\<close> and \<open>Node\<close> put together along the
  connections between parents and children, in both directions.

  Downwards, a node handles an envelope, the Downstream handlers of its children empty their
  channels onto the streams, and what they send is what the children's receive loops get.
\<close>

subsection \<open>One hop down\<close>

text \<open>Turns of a Downstream handler whose sends succeed, at most \<open>k\<close> of them.\<close>

fun flush :: "nat \<Rightarrow> chan \<Rightarrow> server \<Rightarrow> envelope list \<times> server" where
  "flush 0 ch s = ([], s)"
| "flush (Suc k) ch s =
     (case Downstream_turn ch (EnvReady None) s of
        Some (Continue, out, s') \<Rightarrow> (case flush k ch s' of (outs, s'') \<Rightarrow> (out @ outs, s''))
      | _ \<Rightarrow> ([], s))"

lemma flush_all:
  "flush (length (chan_buf ch s)) ch s =
     (chan_buf ch s, if chan_buf ch s = [] then s else s\<lparr>chans := fmupd ch [] (chans s)\<rparr>)"
proof (induction "chan_buf ch s" arbitrary: s)
  case Nil
  then show ?case by simp
next
  case (Cons env b)
  let ?s = "s\<lparr>chans := fmupd ch b (chans s)\<rparr>"
  have recv: "chan_recv ch s = Some (env, ?s)" using Cons(2) [symmetric] by (simp add: chan_recv_eq)
  have "b = chan_buf ch ?s" by simp
  from Cons(1) [OF this]
  have ih: "flush (length b) ch ?s = (b, if b = [] then ?s else ?s\<lparr>chans := fmupd ch [] (chans ?s)\<rparr>)"
    by simp
  show ?case
    using Cons(2) [symmetric] recv ih by (simp add: Downstream_turn_def)
qed

text \<open>All channels of the children, one after the other.\<close>

fun flush_each :: "chan list \<Rightarrow> server \<Rightarrow> (chan \<Rightarrow> envelope list) \<times> server" where
  "flush_each [] s = ((\<lambda>_. []), s)"
| "flush_each (ch # chs) s =
     (case flush (length (chan_buf ch s)) ch s of
        (outs, s1) \<Rightarrow> (case flush_each chs s1 of (f, s2) \<Rightarrow> (f(ch := outs), s2)))"

definition drained :: "server \<Rightarrow> server \<Rightarrow> chan list \<Rightarrow> bool" where
  "drained s s' chs \<longleftrightarrow>
     s' = s\<lparr>chans := chans s'\<rparr> \<and>
     (\<forall>c. chan_buf c s' = (if c \<in> set chs then [] else chan_buf c s))"

lemma flush_each_drains:
  assumes "distinct chs" and "flush_each chs s = (f, s')"
  shows "drained s s' chs \<and> (\<forall>c\<in>set chs. f c = chan_buf c s)"
  using assms
proof (induction chs arbitrary: s f s')
  case Nil
  then show ?case by (simp add: drained_def)
next
  case (Cons ch chs)
  let ?s = "if chan_buf ch s = [] then s else s\<lparr>chans := fmupd ch [] (chans s)\<rparr>"
  obtain g s2 where r: "flush_each chs ?s = (g, s2)" by (cases "flush_each chs ?s")
  have *: "drained ?s s2 chs" "\<forall>c\<in>set chs. g c = chan_buf c ?s"
    using Cons.IH [OF _ r] Cons.prems(1) by simp_all
  have fs: "f = g(ch := chan_buf ch s)" "s' = s2"
    using Cons.prems(2) r by (simp_all add: flush_all)
  have buf: "chan_buf c ?s = (if c = ch then [] else chan_buf c s)" for c by simp
  have "s2 = ?s\<lparr>chans := chans s2\<rparr>" using *(1) by (simp add: drained_def)
  then have "s2 = s\<lparr>chans := chans s2\<rparr>" by (cases "chan_buf ch s = []") simp_all
  moreover have "chan_buf c s2 = (if c \<in> set (ch # chs) then [] else chan_buf c s)" for c
    using *(1) buf [of c] by (auto simp: drained_def)
  moreover have "\<forall>c\<in>set (ch # chs). f c = chan_buf c s"
    using *(2) buf Cons.prems(1) by (auto simp: fs(1))
  ultimately show ?case by (simp add: drained_def fs(2))
qed


subsection \<open>A site and its server\<close>

text \<open>
  A site is a running node with its metrics, the state \<open>'w\<close> its handlers transform, and the
  order in which its \<open>range s.children\<close> happens to visit the map for an envelope.
  \<open>synced\<close>: the site's server has exactly the children behind the channels \<open>chs\<close>, and each of
  these channels holds \<open>b\<close>.
\<close>

record 'w site =
  nd :: "'w node"
  smx :: metrics
  world :: 'w
  visit :: "envelope \<Rightarrow> string list"

definition synced :: "chan list \<Rightarrow> (envelope \<Rightarrow> string list) \<Rightarrow> envelope list \<Rightarrow> server \<Rightarrow> bool" where
  "synced chs v b s \<longleftrightarrow>
     server_ok s \<and> distinct chs \<and> (\<forall>c. c \<in> set chs \<longleftrightarrow> (\<exists>k. fmlookup (children s) k = Some c)) \<and>
     (\<forall>c\<in>set chs. chan_buf c s = b) \<and> (\<forall>env. range_order (v env) (children s))"

lemma server_ok_chans:
  assumes "server_ok s" and e: "s' = s\<lparr>chans := chans s'\<rparr>"
    and "\<forall>c. length (chan_buf c s') \<le> chan_cap"
  shows "server_ok s'"
proof -
  have "children s' = children s" "pending s' = pending s" "next_chan s' = next_chan s"
    by (subst e, simp)+
  with assms(1,3) show ?thesis by (simp add: server_ok_def)
qed

lemma synced_chans:
  assumes "synced chs v b s" and "s' = s\<lparr>chans := chans s'\<rparr>"
    and "\<forall>c\<in>set chs. chan_buf c s' = b'" and "server_ok s'"
  shows "synced chs v b' s'"
proof -
  have "children s' = children s" by (subst assms(2)) simp
  with assms show ?thesis by (simp add: synced_def)
qed

lemma funpow_keeps:
  assumes "\<And>m. f (g m) = f m"
  shows "f ((g ^^ n) m) = f m"
  by (induction n) (simp_all add: assms)

lemma synced_accept:
  assumes "synced chs v b s" and "fmlookup (children s) k = Some c"
  shows "can_accept s k \<longleftrightarrow> length b < chan_cap"
  using assms by (auto simp: synced_def can_accept_def)

lemma synced_broadcast:
  assumes syn: "synced chs v b s" and run: "BroadcastDownstream (v env) env s m = (re, s', m')"
  shows "synced chs v (if length b < chan_cap then b @ [env] else b) s'"
    and "EnvelopesReceived m' = EnvelopesReceived m" and "ChildrenCount s' = ChildrenCount s"
    and "EnvelopesDropped m' ''downstream'' ''buffer_full'' =
      EnvelopesDropped m ''downstream'' ''buffer_full'' + (if length b < chan_cap then 0 else ChildrenCount s)"
    and "length b < chan_cap \<Longrightarrow> EnvelopesDropped m' = EnvelopesDropped m"
proof -
  have ok: "server_ok s" and ord: "range_order (v env) (children s)"
    using syn by (simp_all add: synced_def)
  note buf = Broadcast_buffers [OF ok ord run]
  have "chan_buf c s' = (if length b < chan_cap then b @ [env] else b)" if c: "c \<in> set chs" for c
  proof -
    from syn c obtain k where k: "fmlookup (children s) k = Some c" by (auto simp: synced_def)
    from syn c have "chan_buf c s = b" by (simp add: synced_def)
    then show ?thesis unfolding buf(2) [OF k] synced_accept [OF syn k] by simp
  qed
  then show "synced chs v (if length b < chan_cap then b @ [env] else b) s'"
    by (intro synced_chans [OF syn buf(1) _ server_ok_Broadcast [OF ok ord run]]) blast
  show "ChildrenCount s' = ChildrenCount s" unfolding ChildrenCount_def by (subst buf(1)) simp
  obtain r e where re: "re = (r, e)" by (cases re)
  note eff = BroadcastDownstream_effect [OF ok ord run [unfolded re]]
  have d: "Dropped r = (if length b < chan_cap then [] else v env)"
    unfolding eff(2) using synced_accept [OF syn] ord
    by (auto simp: filter_empty_conv filter_id_conv range_order_def fmlookup_dom'_iff)
  note keep = funpow_keeps [of EnvelopesReceived] funpow_keeps [of EnvelopesDropped]
  show "EnvelopesReceived m' = EnvelopesReceived m" unfolding eff(6) by (simp add: keep metrics_defs)
  have drops: "EnvelopesDropped ((inc_dropped x y ^^ n) m) x y = EnvelopesDropped m x y + n" for x y n
    by (induction n) simp_all
  show "EnvelopesDropped m' ''downstream'' ''buffer_full'' =
      EnvelopesDropped m ''downstream'' ''buffer_full'' + (if length b < chan_cap then 0 else ChildrenCount s)"
    unfolding eff(6) using range_order_length [OF ord] by (simp add: keep drops d ChildrenCount_def)
  show "length b < chan_cap \<Longrightarrow> EnvelopesDropped m' = EnvelopesDropped m"
    unfolding eff(6) by (simp add: keep d)
qed

lemma synced_flush:
  assumes syn: "synced chs v b s" and run: "flush_each chs s = (f, s')"
  shows "synced chs v [] s'" and "c \<in> set chs \<Longrightarrow> f c = b"
proof -
  have dist: "distinct chs" and ok: "server_ok s" and b: "\<forall>c\<in>set chs. chan_buf c s = b"
    using syn by (simp_all add: synced_def)
  note dr = flush_each_drains [OF dist run]
  from dr b show "f c = b" if "c \<in> set chs" using that by simp
  have e: "s' = s\<lparr>chans := chans s'\<rparr>" "\<forall>c\<in>set chs. chan_buf c s' = []"
    "\<forall>c. length (chan_buf c s') \<le> chan_cap"
    using dr server_okD(4) [OF ok] by (auto simp: drained_def)
  from synced_chans [OF syn e(1,2) server_ok_chans [OF ok e(1,3)]]
  show "synced chs v [] s'" .
qed


subsection \<open>What a site does with a batch of envelopes\<close>

text \<open>
  The hook that \<open>Start\<close> gives to the client (\<open>handleDownstreamFromParent\<close>), as the receive
  loop runs it, for a batch of envelopes: envelopes that arrive before the handlers of the
  children get to run.
\<close>

definition site_hook :: "(envelope \<Rightarrow> string list) \<Rightarrow> ('w node \<times> 'w) down_hook" where
  "site_hook v env mu =
     (case mu of (m, n, w) \<Rightarrow>
        (case handleDownstreamFromParent (v env) env n m w of (n', m', w') \<Rightarrow> (m', n', w')))"

fun receive :: "envelope list \<Rightarrow> 'w site \<Rightarrow> 'w site" where
  "receive [] st = st"
| "receive (env # b) st =
     (case recvLoop_received (Some (site_hook (visit st))) env (smx st, nd st, world st) of
        (m, n, w) \<Rightarrow> receive b (st\<lparr>nd := n, smx := m, world := w\<rparr>))"

lemma receive_is_recvLoop:
  "recvLoop (Some (site_hook (visit st))) ds (map Inr b) c (smx st, nd st, world st) =
     (False, c, smx (receive b st), nd (receive b st), world (receive b st))"
  unfolding recvLoop_all
proof (induction b arbitrary: st)
  case (Cons env b)
  obtain m n w where r: "recvLoop_received (Some (site_hook (visit st))) env (smx st, nd st, world st) = (m, n, w)"
    by (rule prod_cases3)
  show ?case using Cons.IH [of "st\<lparr>nd := n, smx := m, world := w\<rparr>"] by (simp add: r)
qed simp

text \<open>Then the handlers of the children send what their channels hold.\<close>

definition send_out :: "chan list \<Rightarrow> 'w site \<Rightarrow> (chan \<Rightarrow> envelope list) \<times> 'w site" where
  "send_out chs st =
     (case n_server (nd st) of
        None \<Rightarrow> ((\<lambda>_. []), st)
      | Some s \<Rightarrow>
          (case flush_each chs s of (f, s') \<Rightarrow> (f, st\<lparr>nd := (nd st)\<lparr>n_server := Some s'\<rparr>\<rparr>)))"

text \<open>Batch after batch, with what each child's stream carried for each of them.\<close>

fun serve :: "chan list \<Rightarrow> envelope list list \<Rightarrow> 'w site \<Rightarrow> (chan \<Rightarrow> envelope list list) \<times> 'w site" where
  "serve chs [] st = ((\<lambda>_. []), st)"
| "serve chs (b # bs) st =
     (case send_out chs (receive b st) of
        (f, st1) \<Rightarrow> (case serve chs bs st1 of (g, st2) \<Rightarrow> ((\<lambda>c. f c # g c), st2)))"

definition site_ok :: "chan list \<Rightarrow> 'w site \<Rightarrow> bool" where
  "site_ok chs st \<longleftrightarrow>
     (case n_server (nd st) of None \<Rightarrow> chs = [] | Some s \<Rightarrow> synced chs (visit st) [] s)"

text \<open>What is left of a site that handled the envelopes \<open>envs\<close>, none of them dropped.\<close>

definition handled :: "envelope list \<Rightarrow> 'w site \<Rightarrow> 'w site \<Rightarrow> bool" where
  "handled envs st st' \<longleftrightarrow>
     world st' = foldl (\<lambda>w env. runDownstreamHandlers env (nd st) w) (world st) envs \<and>
     downstreamHandlers (nd st') = downstreamHandlers (nd st) \<and> cfg (nd st') = cfg (nd st) \<and>
     visit st' = visit st \<and> EnvelopesDropped (smx st') = EnvelopesDropped (smx st) \<and>
     EnvelopesReceived (smx st') ''downstream'' =
       EnvelopesReceived (smx st) ''downstream'' + length envs"

lemma handled_refl: "handled [] st st"
  by (simp add: handled_def)

lemma handled_trans:
  assumes "handled a st st1" and "handled b st1 st2"
  shows "handled (a @ b) st st2"
proof -
  have "runDownstreamHandlers env (nd st1) w = runDownstreamHandlers env (nd st) w" for env w
    using assms(1) by (simp add: handled_def runDownstreamHandlers_def)
  with assms show ?thesis by (simp add: handled_def)
qed

lemma receive_one:
  assumes "recvLoop_received (Some (site_hook (visit st))) env (smx st, nd st, world st) = (m, n, w)"
    and "case n_server (nd st) of None \<Rightarrow> chs = []
      | Some s \<Rightarrow> synced chs (visit st) b s \<and> length b < chan_cap"
  shows "handled [env] st (st\<lparr>nd := n, smx := m, world := w\<rparr>) \<and>
    (case n_server n of None \<Rightarrow> chs = [] | Some s \<Rightarrow> synced chs (visit st) (b @ [env]) s)"
proof -
  have run: "handleDownstreamFromParent (visit st env) env (nd st) (inc_received ''downstream'' (smx st)) (world st)
      = (n, m, w)"
    using assms(1) by (simp add: recvLoop_received_def site_hook_def split: prod.splits)
  then show ?thesis
  proof (cases rule: handleDown_cases)
    case leaf
    then show ?thesis using assms(2) by (simp add: handled_def)
  next
    case (broadcast s re s')
    with assms(2) have "synced chs (visit st) b s" "length b < chan_cap" by simp_all
    from synced_broadcast [OF this(1) broadcast(2)] this(2) broadcast show ?thesis
      by (simp add: handled_def)
  qed
qed

lemma receive_handles:
  assumes "case n_server (nd st) of None \<Rightarrow> chs = []
      | Some s \<Rightarrow> synced chs (visit st) b s \<and> length b + length envs \<le> chan_cap"
  shows "handled envs st (receive envs st) \<and>
    (case n_server (nd (receive envs st)) of None \<Rightarrow> chs = []
      | Some s \<Rightarrow> synced chs (visit st) (b @ envs) s)"
  using assms
proof (induction envs arbitrary: st b)
  case Nil
  then show ?case by (auto simp: handled_refl split: option.splits)
next
  case (Cons env envs)
  obtain m n w where r: "recvLoop_received (Some (site_hook (visit st))) env (smx st, nd st, world st) = (m, n, w)"
    by (rule prod_cases3)
  let ?st = "st\<lparr>nd := n, smx := m, world := w\<rparr>"
  have "case n_server (nd st) of None \<Rightarrow> chs = []
      | Some s \<Rightarrow> synced chs (visit st) b s \<and> length b < chan_cap"
    using Cons.prems by (auto split: option.splits)
  from receive_one [OF r this] have one: "handled [env] st ?st"
    "case n_server n of None \<Rightarrow> chs = [] | Some s \<Rightarrow> synced chs (visit st) (b @ [env]) s"
    by simp_all
  have "n_server n \<noteq> None \<Longrightarrow> n_server (nd st) \<noteq> None"
    using r by (auto simp: recvLoop_received_def site_hook_def elim!: handleDown_cases split: prod.splits)
  with one(2) Cons.prems have "case n_server (nd ?st) of None \<Rightarrow> chs = []
      | Some s \<Rightarrow> synced chs (visit ?st) (b @ [env]) s \<and> length (b @ [env]) + length envs \<le> chan_cap"
    by (auto split: option.splits)
  from Cons.IH [OF this] handled_trans [OF one(1)] show ?case by (auto simp: r split: option.splits)
qed

lemma send_out_flushes:
  assumes "case n_server (nd st) of None \<Rightarrow> chs = [] | Some s \<Rightarrow> synced chs (visit st) b s"
    and "send_out chs st = (f, st')"
  shows "handled [] st st' \<and> site_ok chs st' \<and> (\<forall>c\<in>set chs. f c = b)"
proof (cases "n_server (nd st)")
  case None
  with assms show ?thesis by (auto simp: send_out_def site_ok_def handled_refl)
next
  case (Some s)
  obtain g s' where fl: "flush_each chs s = (g, s')" by (cases "flush_each chs s")
  with Some assms(2) have e: "f = g" "st' = st\<lparr>nd := (nd st)\<lparr>n_server := Some s'\<rparr>\<rparr>"
    by (simp_all add: send_out_def)
  from Some assms(1) have "synced chs (visit st) b s" by simp
  from synced_flush [OF this fl] show ?thesis by (simp add: e site_ok_def handled_def)
qed

lemma serve_handles:
  assumes "site_ok chs st" and "\<forall>b\<in>set bs. length b \<le> chan_cap" and "serve chs bs st = (f, st')"
  shows "handled (concat bs) st st' \<and> site_ok chs st' \<and> (\<forall>c\<in>set chs. f c = bs)"
  using assms
proof (induction bs arbitrary: st f st')
  case Nil
  then show ?case by (auto simp: handled_refl)
next
  case (Cons b bs)
  obtain g st1 where so: "send_out chs (receive b st) = (g, st1)" by (cases "send_out chs (receive b st)")
  obtain h st2 where sv: "serve chs bs st1 = (h, st2)" by (cases "serve chs bs st1")
  have "case n_server (nd st) of None \<Rightarrow> chs = []
      | Some s \<Rightarrow> synced chs (visit st) [] s \<and> length [] + length b \<le> chan_cap"
    using Cons.prems(1,2) by (auto simp: site_ok_def split: option.splits)
  from receive_handles [OF this] have r: "handled b st (receive b st)"
    "case n_server (nd (receive b st)) of None \<Rightarrow> chs = []
      | Some s \<Rightarrow> synced chs (visit (receive b st)) b s"
    by (auto simp: handled_def split: option.splits)
  from send_out_flushes [OF r(2) so] have o: "handled b st st1" "site_ok chs st1" "\<forall>c\<in>set chs. g c = b"
    using handled_trans [OF r(1), of "[]"] by auto
  from Cons.IH [OF o(2) _ sv] Cons.prems(2) have
    s: "handled (concat bs) st1 st2" "site_ok chs st2" "\<forall>c\<in>set chs. h c = bs" by auto
  from Cons.prems(3) so sv have "f = (\<lambda>c. g c # h c)" "st' = st2" by simp_all
  with o s handled_trans [OF o(1) s(1)] show ?case by simp
qed


subsection \<open>The tree\<close>

text \<open>
  Each child is behind the channel its Downstream handler reads: what the handler sent, batch by
  batch, is what the child's receive loop gets.
\<close>

datatype 'w tree = Tree (root_site: "'w site") (subtrees: "(chan \<times> 'w tree) list")

fun feed :: "envelope list list \<Rightarrow> 'w tree \<Rightarrow> 'w tree" where
  "feed bs (Tree st kids) =
     (case serve (map fst kids) bs st of
        (f, st') \<Rightarrow> Tree st' (map (\<lambda>(c, t). (c, feed (f c) t)) kids))"

fun sites :: "'w tree \<Rightarrow> 'w site list" where
  "sites (Tree st kids) = st # concat (map (\<lambda>(c, t). sites t) kids)"

fun tree_ok :: "'w tree \<Rightarrow> bool" where
  "tree_ok (Tree st kids) \<longleftrightarrow> site_ok (map fst kids) st \<and> (\<forall>(c, t)\<in>set kids. tree_ok t)"

lemma kids_fst [simp]: "map (fst \<circ> (\<lambda>(c, t). (c, g c t))) kids = map fst kids"
  by (induction kids) auto

lemma kids_all2:
  assumes "\<And>c t. (c, t) \<in> set kids \<Longrightarrow> list_all2 P (sites t) (sites (g c t))"
  shows "list_all2 P (concat (map (\<lambda>(c, t). sites t) kids))
    (concat (map (\<lambda>(c, t). sites t) (map (\<lambda>(c, t). (c, g c t)) kids)))"
  using assms
proof (induction kids)
  case (Cons k kids)
  then show ?case by (cases k) (auto intro!: list_all2_appendI)
qed simp

lemma feed_handles:
  assumes "tree_ok t" and "\<forall>b\<in>set bs. length b \<le> chan_cap"
  shows "list_all2 (handled (concat bs)) (sites t) (sites (feed bs t)) \<and> tree_ok (feed bs t)"
  using assms
proof (induction t)
  case (Tree st kids)
  obtain f st' where sv: "serve (map fst kids) bs st = (f, st')" by (cases "serve (map fst kids) bs st")
  have ok: "site_ok (map fst kids) st" and kids: "\<And>c t. (c, t) \<in> set kids \<Longrightarrow> tree_ok t"
    using Tree.prems(1) by auto
  from serve_handles [OF ok Tree.prems(2) sv]
  have s: "handled (concat bs) st st'" "site_ok (map fst kids) st'"
    and f: "\<And>c t. (c, t) \<in> set kids \<Longrightarrow> f c = bs" by force+
  have ih: "list_all2 (handled (concat bs)) (sites t) (sites (feed (f c) t)) \<and> tree_ok (feed (f c) t)"
    if "(c, t) \<in> set kids" for c t
    unfolding f [OF that] by (rule Tree.IH [OF that]) (simp_all add: kids [OF that] Tree.prems(2))
  have "tree_ok (feed bs (Tree st kids))" using s(2) ih by (auto simp: sv)
  moreover have "list_all2 (handled (concat bs)) (sites (Tree st kids)) (sites (feed bs (Tree st kids)))"
    using s(1) kids_all2 [of kids "handled (concat bs)" "\<lambda>c t. feed (f c) t"] ih by (simp add: sv)
  ultimately show ?case by blast
qed

subsection \<open>From the root\<close>

text \<open>A batch of \<open>SendDown\<close> calls by the service at the root.\<close>

type_synonym message = "string \<times> string \<times> int \<times> int"

definition message_env :: "string \<Rightarrow> message \<Rightarrow> envelope" where
  "message_env i x = (case x of (kind, payload, t1, t2) \<Rightarrow> newEnvelope i kind payload t1 t2)"

lemma message_env_simp [simp]: "message_env i (kind, payload, t1, t2) = newEnvelope i kind payload t1 t2"
  by (simp add: message_env_def)

fun send_downs :: "message list \<Rightarrow> 'w site \<Rightarrow> 'w site" where
  "send_downs [] st = st"
| "send_downs ((kind, payload, t1, t2) # xs) st =
     (case SendDown (visit st (newEnvelope (cfg_id (cfg (nd st))) kind payload t1 t2))
             kind payload t1 t2 (nd st) (smx st) of
        (_, n, m) \<Rightarrow> send_downs xs (st\<lparr>nd := n, smx := m\<rparr>))"

fun publish :: "message list \<Rightarrow> 'w tree \<Rightarrow> 'w tree" where
  "publish xs (Tree st kids) =
     (case send_out (map fst kids) (send_downs xs st) of
        (f, st') \<Rightarrow> Tree st' (map (\<lambda>(c, t). (c, feed [f c] t)) kids))"

lemma send_downs_buffers:
  assumes "n_server (nd st) = Some s" and "synced chs (visit st) b s" and "length b \<le> chan_cap"
  shows "\<exists>s'. n_server (nd (send_downs xs st)) = Some s' \<and> ChildrenCount s' = ChildrenCount s \<and>
    synced chs (visit st) (take chan_cap (b @ map (message_env (cfg_id (cfg (nd st)))) xs)) s' \<and>
    world (send_downs xs st) = world st \<and> visit (send_downs xs st) = visit st \<and>
    EnvelopesDropped (smx (send_downs xs st)) ''downstream'' ''buffer_full'' =
      EnvelopesDropped (smx st) ''downstream'' ''buffer_full''
        + (length b + length xs - chan_cap) * ChildrenCount s"
  using assms
proof (induction xs arbitrary: st b s)
  case Nil
  then show ?case by simp
next
  case (Cons x xs)
  obtain kind payload t1 t2 where x: "x = (kind, payload, t1, t2)" by (rule prod_cases4)
  let ?env = "newEnvelope (cfg_id (cfg (nd st))) kind payload t1 t2"
  obtain re s' m' where bc: "BroadcastDownstream (visit st ?env) ?env s (smx st) = (re, s', m')"
    by (rule prod_cases3)
  let ?st = "st\<lparr>nd := (nd st)\<lparr>n_server := Some s'\<rparr>, smx := m'\<rparr>"
  let ?b = "if length b < chan_cap then b @ [?env] else b"
  note sy = synced_broadcast [OF Cons.prems(2) bc]
  have step: "send_downs (x # xs) st = send_downs xs ?st"
    using Cons.prems(1) bc by (simp add: x SendDown_def)
  have "take chan_cap (b @ ?env # ys) = take chan_cap (?b @ ys)" for ys
    using Cons.prems(3) by (simp add: take_Cons')
  moreover have "(length ?b + length xs - chan_cap) * ChildrenCount s +
      (if length b < chan_cap then 0 else ChildrenCount s) =
      (length b + length (x # xs) - chan_cap) * ChildrenCount s"
    using Cons.prems(3) by (cases "length b < chan_cap") (simp_all add: Suc_diff_le)
  ultimately show ?case
    using Cons.IH [of ?st s' ?b] sy(1,3,4) Cons.prems(3) unfolding step by (auto simp: x)
qed

lemma publish_handles:
  assumes "tree_ok (Tree st kids)" and srv: "n_server (nd st) = Some s"
    and envs_def: "envs = take chan_cap (map (message_env (cfg_id (cfg (nd st)))) xs)"
  shows "\<exists>st' kids'. publish xs (Tree st kids) = Tree st' kids' \<and> world st' = world st \<and>
    EnvelopesDropped (smx st') ''downstream'' ''buffer_full'' =
      EnvelopesDropped (smx st) ''downstream'' ''buffer_full'' + (length xs - chan_cap) * ChildrenCount s \<and>
    list_all2 (handled envs) (concat (map (\<lambda>(c, t). sites t) kids)) (concat (map (\<lambda>(c, t). sites t) kids')) \<and>
    tree_ok (Tree st' kids')"
proof -
  obtain f st' where so: "send_out (map fst kids) (send_downs xs st) = (f, st')"
    by (cases "send_out (map fst kids) (send_downs xs st)")
  let ?kids = "map (\<lambda>(c, t). (c, feed [f c] t)) kids"
  have syn: "synced (map fst kids) (visit st) [] s" and kids: "\<And>c t. (c, t) \<in> set kids \<Longrightarrow> tree_ok t"
    using assms(1) srv by (auto simp: site_ok_def)
  from send_downs_buffers [OF srv syn, of xs] obtain s' where
    s': "n_server (nd (send_downs xs st)) = Some s'" "synced (map fst kids) (visit st) envs s'"
    and st: "world (send_downs xs st) = world st" "visit (send_downs xs st) = visit st"
      "EnvelopesDropped (smx (send_downs xs st)) ''downstream'' ''buffer_full'' =
        EnvelopesDropped (smx st) ''downstream'' ''buffer_full'' + (length xs - chan_cap) * ChildrenCount s"
    by (auto simp: envs_def)
  have "case n_server (nd (send_downs xs st)) of None \<Rightarrow> map fst kids = []
      | Some s \<Rightarrow> synced (map fst kids) (visit (send_downs xs st)) envs s"
    using s' st(2) by simp
  from send_out_flushes [OF this so] have st': "handled [] (send_downs xs st) st'"
    "site_ok (map fst kids) st'" and f: "\<And>c t. (c, t) \<in> set kids \<Longrightarrow> f c = envs" by force+
  have fed: "list_all2 (handled envs) (sites t) (sites (feed [f c] t)) \<and> tree_ok (feed [f c] t)"
    if "(c, t) \<in> set kids" for c t
    using feed_handles [OF kids [OF that], of "[envs]"] f [OF that] by (simp add: envs_def)
  have "publish xs (Tree st kids) = Tree st' ?kids" using so by simp
  moreover have "tree_ok (Tree st' ?kids)" using st'(2) fed by auto
  moreover have "world st' = world st" "EnvelopesDropped (smx st') = EnvelopesDropped (smx (send_downs xs st))"
    using st'(1) st(1) by (simp_all add: handled_def)
  moreover note kids_all2 [of kids "handled envs" "\<lambda>c t. feed [f c] t", OF fed [THEN conjunct1]]
  ultimately show ?thesis
    using st(3) by (intro exI [of _ st'] exI [of _ ?kids]) simp
qed

end
