(* ===== verification/Node_Path.thy ===== *)
theory Node_Path
  imports Node_Facts "HOL-Library.Sublist"
begin

text \<open>
  The way up: envelopes that enter a node from below go through its handlers and on to its
  parent, from node to node. Each node on the path runs the loop of the \<open>Upstream\<close> handler of
  \<open>Server\<close> with \<open>handleUpstreamFromChild\<close> of \<open>Node\<close> as its hook. What its client has sent
  successfully is what gRPC accepted: the next node receives it in this order, less what is lost
  with streams that break. Nothing else uses the nodes meanwhile: no retry pass and no other
  sender, for which there are \<open>Node_Retry\<close> and \<open>Chain_System\<close>, where order is not kept.
\<close>

subsection \<open>The hook of the server\<close>

text \<open>
  \<open>forwardUp\<close> never panics (\<open>forwardUp_cases\<close>); the hook's result type has no room for it.
\<close>

definition node_up_hook :: "'w grpc \<Rightarrow> ('w node \<times> 'w) up_hook" where
  "node_up_hook N c env mu =
     (case mu of (m, n, w) \<Rightarrow>
        (case handleUpstreamFromChild N c env n m w of
           (Returned e, n', m', w') \<Rightarrow> (e, m', n', w')
         | (Panicked, n', m', w') \<Rightarrow> (Some (Errorf ''panic'' [] []), m', n', w')))"

text \<open>Handlers that are not the network: they leave the ledger of sends alone.\<close>

definition quiet :: "('w \<times> send_log) node \<Rightarrow> bool" where
  "quiet n \<longleftrightarrow> (\<forall>k. \<forall>h\<in>set (slice_at k (upstreamHandlers n)). \<forall>c env w l. snd (h c env (w, l)) = l)"

lemma quiet_run:
  assumes "quiet n"
  shows "snd (runUpstreamHandlers c env n (w, l)) = l"
proof -
  have "snd (foldl (\<lambda>w h. h c env w) (w, l) hs) = l"
    if "\<forall>h\<in>set hs. \<forall>c env w l. snd (h c env (w, l)) = l" for hs w
    using that
  proof (induction hs arbitrary: w)
    case (Cons h hs)
    obtain w1 l1 where h: "h c env (w, l) = (w1, l1)" by (rule prod.exhaust)
    have "snd (h c env (w, l)) = l" using Cons.prems by simp
    then have "l1 = l" by (simp add: h)
    with Cons.IH [of w1] Cons.prems h show ?case by simp
  qed simp
  from this [of "slice_at (Kind env) (upstreamHandlers n)" w] assms show ?thesis
    unfolding quiet_def runUpstreamHandlers_def by blast
qed

lemma shuffles_subseq: "xs \<in> shuffles d f \<Longrightarrow> subseq d xs"
proof (induction xs arbitrary: d f)
  case (Cons x xs)
  from Cons.prems show ?case
    by (cases d) (auto simp: Cons_in_shuffles_iff dest!: Cons.IH intro: subseq_Cons')
qed simp

subsection \<open>A node on the path\<close>

text \<open>\<open>carried\<close> says which of the envelopes that its client sends arrive at the next node.\<close>

record 'w stop =
  un :: "('w \<times> send_log) node"
  umx :: metrics
  uwd :: 'w
  ulog :: send_log
  unet :: "'w grpc"
  uctx :: ctx
  carried :: "nat \<Rightarrow> bool"

fun carry :: "(nat \<Rightarrow> bool) \<Rightarrow> nat \<Rightarrow> envelope list \<Rightarrow> envelope list \<times> envelope list" where
  "carry p i [] = ([], [])"
| "carry p i (env # envs) =
     (case carry p (i + 1) envs of
        (arr, lost) \<Rightarrow> if p i then (env # arr, lost) else (arr, env # lost))"

lemma carry_splits: "envs \<in> shuffles (fst (carry p i envs)) (snd (carry p i envs))"
proof (induction envs arbitrary: i)
  case (Cons env envs)
  obtain arr lost where c: "carry p (i + 1) envs = (arr, lost)" by (rule prod.exhaust)
  have "envs \<in> shuffles arr lost" using Cons.IH [of "i + 1", unfolded c] by simp
  then show ?case using c by (auto simp: Cons_in_shuffles_iff)
qed simp

lemma carry_all [simp]: "carry (\<lambda>_. True) i envs = (envs, [])"
  by (induction envs arbitrary: i) simp_all

definition stop_ok :: "'w stop \<Rightarrow> bool" where
  "stop_ok x \<longleftrightarrow> log_blind (un x) \<and> quiet (un x) \<and> n_client (un x) \<noteq> None"

text \<open>The Upstream handler of the node, on the envelopes of one stream from below.\<close>

definition pass_up :: "envelope list \<Rightarrow> 'w stop \<Rightarrow> 'w stop" where
  "pass_up envs x =
     (case Upstream_loop (Some (node_up_hook (logged (unet x)))) None (uctx x) (map RecvEnv envs)
             (umx x, un x, uwd x, ulog x) of
        (_, m, n, w, l) \<Rightarrow> x\<lparr>un := n, umx := m, uwd := w, ulog := l\<rparr>)"

definition sent_on :: "'w stop \<Rightarrow> 'w stop \<Rightarrow> envelope list" where
  "sent_on x x' = drop (length (delivered (ulog x))) (delivered (ulog x'))"

definition queued_at :: "'w stop \<Rightarrow> 'w stop \<Rightarrow> envelope list" where
  "queued_at x x' = drop (length (items (pendingq (un x)))) (items (pendingq (un x')))"

text \<open>What comes out above, and each node afterwards with what was lost on its way to the next.\<close>

fun climb :: "envelope list \<Rightarrow> 'w stop list \<Rightarrow> envelope list \<times> ('w stop \<times> envelope list) list" where
  "climb envs [] = (envs, [])"
| "climb envs (x # xs) =
     (let y = pass_up envs x in
      case carry (carried x) 0 (sent_on x y) of
        (arrived, lost) \<Rightarrow> (case climb arrived xs of (up, ys) \<Rightarrow> (up, (y, lost) # ys)))"

subsection \<open>One hop\<close>

lemma up_hook_one:
  assumes "log_blind n" and "quiet n" and "n_client n \<noteq> None"
    and "node_up_hook (logged N) c env (m, n, w, l) = (e, m', n', w', l')"
  shows "e = None \<and> log_blind n' \<and> quiet n' \<and> n_client n' \<noteq> None \<and>
    EnvelopesReceived m' = EnvelopesReceived m \<and>
    (items (pendingq n') = items (pendingq n) \<and> delivered l' = delivered l @ [env] \<or>
     items (pendingq n') = items (pendingq n) @ [env] \<and> delivered l' = delivered l)"
proof -
  obtain w1 l1 where h: "runUpstreamHandlers c env n (w, l) = (w1, l1)" by (rule prod.exhaust)
  have l1: "l1 = l" using quiet_run [OF assms(2), of c env w l] by (simp add: h)
  obtain r n2 m2 w2 l2 where f: "forwardUp (logged N) env n m (w1, l) = (r, n2, m2, w2, l2)"
    by (rule prod_cases5)
  note fl = forwardUp_logged [OF assms(1,3) f] and fr = forwardUp_frame [OF f]
  have "EnvelopesReceived m2 = EnvelopesReceived m"
    using f by (auto elim!: forwardUp_cases SendUpstream_cases simp: metrics_defs)
  moreover have "n_client n2 \<noteq> None"
    using f assms(3) by (auto elim!: forwardUp_cases)
  moreover have "e = None" "m' = m2" "n' = n2" "l' = l2"
    using assms(4) f fl by (auto simp: node_up_hook_def handleUpstreamFromChild_def h l1)
  ultimately show ?thesis
    using assms(1,2) fl fr by (simp add: log_blind_def quiet_def)
qed

lemma up_loop:
  assumes "log_blind n" and "quiet n" and "n_client n \<noteq> None"
    and "Upstream_loop (Some (node_up_hook (logged N))) a c (map RecvEnv envs) (m, n, w, l) = (r, m', n', w', l')"
  shows "r = Continue \<and> log_blind n' \<and> quiet n' \<and> n_client n' \<noteq> None \<and>
    EnvelopesReceived m' ''upstream'' = EnvelopesReceived m ''upstream'' + length envs \<and>
    (\<exists>d f. envs \<in> shuffles d f \<and> delivered l' = delivered l @ d \<and>
      items (pendingq n') = items (pendingq n) @ f)"
  using assms
proof (induction envs arbitrary: m n w l)
  case Nil
  then show ?case by auto
next
  case (Cons env envs)
  obtain e m1 n1 w1 l1 where h:
    "node_up_hook (logged N) c env (inc_received ''upstream'' m, n, w, l) = (e, m1, n1, w1, l1)"
    by (rule prod_cases5)
  from up_hook_one [OF Cons.prems(1-3) h]
  obtain d0 f0 where one: "e = None" "log_blind n1" "quiet n1" "n_client n1 \<noteq> None"
    "EnvelopesReceived m1 = EnvelopesReceived (inc_received ''upstream'' m)"
    "[env] \<in> shuffles d0 f0" "delivered l1 = delivered l @ d0"
    "items (pendingq n1) = items (pendingq n) @ f0"
    by (metis append_Nil2 shuffles.simps(1,2) singletonI)
  have "Upstream_loop (Some (node_up_hook (logged N))) a c (map RecvEnv envs) (m1, n1, w1, l1) = (r, m', n', w', l')"
    using Cons.prems(4) h one(1) by simp
  from Cons.IH [OF one(2-4) this] obtain d f where rest: "r = Continue" "log_blind n'" "quiet n'"
    "n_client n' \<noteq> None" "EnvelopesReceived m' ''upstream'' = EnvelopesReceived m1 ''upstream'' + length envs"
    "envs \<in> shuffles d f" "delivered l' = delivered l1 @ d" "items (pendingq n') = items (pendingq n1) @ f"
    by blast
  have "env # envs \<in> shuffles (d0 @ d) (f0 @ f)"
    using one(6) rest(6) by (cases d0; cases f0) (auto simp: Cons_in_shuffles_iff)
  with one rest show ?case by auto
qed

lemma pass_up_splits:
  assumes "stop_ok x"
  shows "envs \<in> shuffles (sent_on x (pass_up envs x)) (queued_at x (pass_up envs x)) \<and>
    stop_ok (pass_up envs x) \<and>
    EnvelopesReceived (umx (pass_up envs x)) ''upstream'' =
      EnvelopesReceived (umx x) ''upstream'' + length envs"
proof -
  obtain r m n w l where run: "Upstream_loop (Some (node_up_hook (logged (unet x)))) None (uctx x)
      (map RecvEnv envs) (umx x, un x, uwd x, ulog x) = (r, m, n, w, l)"
    by (rule prod_cases5)
  from up_loop [OF _ _ _ run] assms show ?thesis
    by (auto simp: pass_up_def run stop_ok_def sent_on_def queued_at_def)
qed

subsection \<open>The whole path\<close>

lemma climb_conserves:
  assumes "\<forall>x\<in>set xs. stop_ok x" and "climb envs xs = (up, ys)"
  shows "list_all2 (\<lambda>x (y, lost). stop_ok y) xs ys \<and> subseq up envs \<and>
    mset envs = mset up + (\<Sum>(x, y, lost)\<leftarrow>zip xs ys. mset (queued_at x y) + mset lost)"
  using assms
proof (induction xs arbitrary: envs up ys)
  case Nil
  then show ?case by simp
next
  case (Cons x xs)
  let ?x = "pass_up envs x"
  obtain arrived lost where w: "carry (carried x) 0 (sent_on x ?x) = (arrived, lost)" by (rule prod.exhaust)
  obtain up' zs where c: "climb arrived xs = (up', zs)" by (rule prod.exhaust)
  with w Cons.prems(2) have e: "up = up'" "ys = (?x, lost) # zs" by (simp_all add: Let_def)
  from Cons.prems(1) have "stop_ok x" by simp
  note hop = pass_up_splits [OF this, of envs]
  have "sent_on x ?x \<in> shuffles arrived lost" using carry_splits [of "sent_on x ?x" "carried x" 0] by (simp add: w)
  then have wire: "mset (sent_on x ?x) = mset arrived + mset lost" "subseq arrived (sent_on x ?x)"
    using mset_shuffles shuffles_subseq by blast+
  from Cons.IH [OF _ c] Cons.prems(1) have ih: "list_all2 (\<lambda>x (y, lost). stop_ok y) xs zs" "subseq up' arrived"
    "mset arrived = mset up' + (\<Sum>(x, y, lost)\<leftarrow>zip xs zs. mset (queued_at x y) + mset lost)" by auto
  have "mset envs = mset (sent_on x ?x) + mset (queued_at x ?x)" using hop mset_shuffles by blast
  moreover have "subseq up' envs"
    using ih(2) wire(2) hop shuffles_subseq subseq_order.order_trans by metis
  ultimately show ?case
    using ih hop wire(1) by (simp add: e ac_simps)
qed

subsection \<open>A path whose streams are up\<close>

text \<open>A node with an upstream stream, and a network that takes every envelope and loses none.\<close>

definition stop_up :: "'w stop \<Rightarrow> bool" where
  "stop_up x \<longleftrightarrow> stop_ok x \<and> (\<exists>c st. n_client (un x) = Some c \<and> upstreamStream c = Some st) \<and>
     (\<forall>st env w. fst (g_send (unet x) st env w) = None) \<and> carried x = (\<lambda>_. True)"

lemma up_hook_open:
  assumes "quiet n" and "n_client n = Some c" and "upstreamStream c = Some st"
    and "\<And>st env w. fst (g_send N st env w) = None"
    and "node_up_hook (logged N) cx env (m, n, w, l) = (e, m', n', w', l')"
  shows "e = None \<and> n' = n \<and> delivered l' = delivered l @ [env]"
proof -
  obtain w1 l1 where h: "runUpstreamHandlers cx env n (w, l) = (w1, l1)" by (rule prod.exhaust)
  have l1: "l1 = l" using quiet_run [OF assms(1), of cx env w l] by (simp add: h)
  obtain w2 where "g_send N st env w1 = (None, w2)" using assms(4) by (metis prod.collapse)
  note s = node_SendUpstream_open [OF assms(3) this, of n m l]
  have "n\<lparr>n_client := Some c\<rparr> = n" using assms(2) by simp
  with assms(2,5) s show ?thesis
    by (auto simp: node_up_hook_def handleUpstreamFromChild_def h l1 forwardUp_def)
qed

lemma up_loop_open:
  assumes "quiet n" and "n_client n = Some c" and "upstreamStream c = Some st"
    and "\<And>st env w. fst (g_send N st env w) = None"
    and "Upstream_loop (Some (node_up_hook (logged N))) a cx (map RecvEnv envs) (m, n, w, l) = (r, m', n', w', l')"
  shows "n' = n \<and> delivered l' = delivered l @ envs"
  using assms(5)
proof (induction envs arbitrary: m w l)
  case (Cons env envs)
  obtain e m1 n1 w1 l1 where h:
    "node_up_hook (logged N) cx env (inc_received ''upstream'' m, n, w, l) = (e, m1, n1, w1, l1)"
    by (rule prod_cases5)
  note one = up_hook_open [OF assms(1-4) h]
  with h Cons.prems have "Upstream_loop (Some (node_up_hook (logged N))) a cx (map RecvEnv envs)
      (m1, n, w1, l1) = (r, m', n', w', l')" by simp
  from Cons.IH [OF this] one show ?case by simp
qed simp

lemma pass_up_open:
  assumes "stop_up x"
  shows "sent_on x (pass_up envs x) = envs \<and> un (pass_up envs x) = un x"
proof -
  obtain r m n w l where run: "Upstream_loop (Some (node_up_hook (logged (unet x)))) None (uctx x)
      (map RecvEnv envs) (umx x, un x, uwd x, ulog x) = (r, m, n, w, l)"
    by (rule prod_cases5)
  from assms obtain c st where "quiet (un x)" "n_client (un x) = Some c" "upstreamStream c = Some st"
    and "\<And>st env w. fst (g_send (unet x) st env w) = None"
    by (auto simp: stop_up_def stop_ok_def)
  from up_loop_open [OF this run] show ?thesis by (simp add: pass_up_def run sent_on_def)
qed

lemma climb_open:
  assumes "\<forall>x\<in>set xs. stop_up x"
  shows "fst (climb envs xs) = envs \<and> map (\<lambda>(y, lost). (un y, lost)) (snd (climb envs xs)) = map (\<lambda>x. (un x, [])) xs"
  using assms
proof (induction xs)
  case (Cons x xs)
  then have "stop_up x" "carried x = (\<lambda>_. True)" by (simp_all add: stop_up_def)
  with Cons pass_up_open [OF this(1), of envs] show ?case
    by (cases "climb envs xs") (simp add: Let_def)
qed simp

end
