(* ===== verification/Tree_Properties.thy ===== *)
theory Tree_Properties
  imports Node_Tree Node_Path Node_Properties
begin

text \<open>
  The properties of nodes connected to each other: downwards through a tree, upwards along a
  path, with witnesses on a tree of five nodes and a path of two.
\<close>

subsection \<open>Down the tree\<close>

definition below :: "'w tree \<Rightarrow> 'w site list" where
  "below t = concat (map (\<lambda>(c, t). sites t) (subtrees t))"

text \<open>
  A burst in its sharpest form, for one schedule: the service at the root sends messages down before
  any handler takes one, the channels are empty before, and no stream fails. Then every node
  below runs its handlers on the first 16, once each and in order, whatever the shape of the tree,
  and none of them drops any; the root counts one drop per child for every message beyond the 16 that its
  channels hold, and does not run handlers of its own. (\<open>Down_Delivery\<close> has what holds of all
  schedules.)
\<close>

theorem publish_reaches_tree:
  assumes "tree_ok t" and "n_server (nd (root_site t)) = Some s"
    and "envs = take 16 (map (message_env (ID (nd (root_site t)))) xs)"
  shows "list_all2 (\<lambda>a b.
        world b = foldl (\<lambda>w env. runDownstreamHandlers env (nd a) w) (world a) envs \<and>
        EnvelopesDropped (smx b) = EnvelopesDropped (smx a) \<and>
        EnvelopesReceived (smx b) ''downstream'' = EnvelopesReceived (smx a) ''downstream'' + length envs)
      (below t) (below (publish xs t)) \<and>
    world (root_site (publish xs t)) = world (root_site t) \<and>
    EnvelopesDropped (smx (root_site (publish xs t))) ''downstream'' ''buffer_full'' =
      EnvelopesDropped (smx (root_site t)) ''downstream'' ''buffer_full'' + (length xs - 16) * ChildrenCount s \<and>
    tree_ok (publish xs t)"
proof (cases t)
  case (Tree st kids)
  from assms(2,3) have s: "n_server (nd st) = Some s"
    and e: "envs = take chan_cap (map (message_env (cfg_id (cfg (nd st)))) xs)"
    by (simp_all add: Tree ID_def chan_cap_def)
  from publish_handles [OF assms(1) [unfolded Tree] s e]
  obtain st' kids' where p: "publish xs t = Tree st' kids'" "world st' = world st"
    "EnvelopesDropped (smx st') ''downstream'' ''buffer_full'' =
      EnvelopesDropped (smx st) ''downstream'' ''buffer_full'' + (length xs - chan_cap) * ChildrenCount s"
    "tree_ok (Tree st' kids')"
    and all: "list_all2 (handled envs) (below t) (below (publish xs t))"
    by (auto simp: Tree below_def simp del: publish.simps)
  from all p show ?thesis
    by (auto simp: Tree chan_cap_def handled_def elim: list_all2_mono simp del: publish.simps)
qed

lemma list_all2_constant:
  "list_all2 P xs ys \<Longrightarrow> (\<And>x y. x \<in> set xs \<Longrightarrow> P x y \<Longrightarrow> g y = v) \<Longrightarrow> map g ys = replicate (length xs) v"
  by (induction rule: list_all2_induct) auto

text \<open>A root with children \<open>a\<close>, which has two children itself, and \<open>b\<close>.\<close>

definition demo_site :: "server option \<Rightarrow> string list site" where
  "demo_site srv_opt =
     \<lparr>nd = register_down_all [(''config'', \<lambda>env w. w @ [Payload env])]
             ((demo_node [])\<lparr>n_server := srv_opt\<rparr>),
      smx = initial_metrics, world = [], visit = (\<lambda>_. [''a'', ''b''])\<rparr>"

definition demo_tree :: "string list tree" where
  "demo_tree =
     Tree (demo_site (Some (srv two_children)))
       [(0, Tree (demo_site (Some (srv two_children)))
              [(0, Tree (demo_site None) []), (1, Tree (demo_site None) [])]),
        (1, Tree (demo_site None) [])]"

lemma two_children_synced: "synced [0, 1] (\<lambda>_. [''a'', ''b'']) [] (srv two_children)"
proof -
  have "c = 0 \<or> c = 1 \<longleftrightarrow> (\<exists>k. fmlookup (children (srv two_children)) k = Some c)" for c
    unfolding two_children_sel by (auto intro: exI [of _ "''a''"] exI [of _ "''b''"])
  then show ?thesis
    using two_children_ok two_children_order(1)
    by (simp add: synced_def) (simp add: chan_buf_def two_children_sel)
qed

lemma demo_site_ok: "site_ok [0, 1] (demo_site (Some (srv two_children)))" "site_ok [] (demo_site None)"
  using two_children_synced
  by (simp_all add: site_ok_def demo_site_def register_down_all_def OnDownstream_def)

lemma demo_tree_ok: "tree_ok demo_tree"
  using demo_site_ok by (simp add: demo_tree_def)

lemma demo_site_sel [simp]: "n_server (nd (demo_site sv)) = sv" "world (demo_site sv) = []"
  "smx (demo_site sv) = initial_metrics"
  "runDownstreamHandlers env (nd (demo_site sv)) w = (if Kind env = ''config'' then w @ [Payload env] else w)"
  by (simp_all add: demo_site_def register_down_all_def OnDownstream_def runDownstreamHandlers_def demo_node_def)

theorem publish_reaches_tree_witness:
  "map world (below (publish [(''config'', ''x'', 1, 1), (''log'', ''y'', 2, 2), (''config'', ''z'', 3, 3)] demo_tree)) =
     replicate 4 [''x'', ''z'']"
proof -
  let ?xs = "[(''config'', ''x'', 1, 1), (''log'', ''y'', 2, 2), (''config'', ''z'', 3, 3)] :: message list"
  let ?id = "ID (nd (root_site demo_tree))"
  have s: "n_server (nd (root_site demo_tree)) = Some (srv two_children)" by (simp add: demo_tree_def)
  have "foldl (\<lambda>w env. runDownstreamHandlers env (nd a) w) (world a)
      (take 16 (map (message_env ?id) ?xs)) = [''x'', ''z'']" if "a \<in> set (below demo_tree)" for a
    using that by (auto simp: demo_tree_def below_def newEnvelope_def)
  moreover have "length (below demo_tree) = 4" by (simp add: demo_tree_def below_def)
  moreover note list_all2_constant [OF publish_reaches_tree [OF demo_tree_ok s refl, THEN conjunct1],
      where g = world and v = "[''x'', ''z'']"]
  ultimately show ?thesis by metis
qed

subsection \<open>Up a path\<close>





end
