(* ===== verification/Lock_Discipline.thy ===== *)
theory Lock_Discipline
  imports Prelude
begin

text \<open>
  Goroutines that share mutexes and fields, and a discipline under which they neither deadlock nor
  race: every goroutine takes mutexes in increasing order, gives them back in the opposite
  order, and touches a guarded field only while it holds its guard. The discipline is an executable
  check of the code of each goroutine by itself (\<open>run_held\<close>); the locale \<open>lock_discipline\<close> derives
  from it what holds of all interleavings.
\<close>

subsection \<open>The code of a goroutine, as far as others can see it\<close>

text \<open>
  A mutex of Go (\<open>Exclusive\<close>) or one side of a \<open>RWMutex\<close>, an access to a shared field, a choice that
  the data decides, a loop, and a \<open>go\<close> statement.
\<close>

datatype mode = Shared | Exclusive

datatype ('m, 'f, 'a) stmt =
    Acquire mode 'm
  | Release 'm
  | Get 'f
  | Put 'f
  | Branch "('m, 'f, 'a) stmt list" "('m, 'f, 'a) stmt list"
  | Repeat "('m, 'f, 'a) stmt list"
  | Go 'a

type_synonym 'm holding = "('m \<times> mode) list"

text \<open>A thread: the mutexes it holds, the last taken first, and what it has still to do.\<close>

type_synonym ('m, 'f, 'a) thread = "'m holding \<times> ('m, 'f, 'a) stmt list"

definition grantable :: "mode \<Rightarrow> 'm \<Rightarrow> ('m, 'f, 'a) thread list \<Rightarrow> bool" where
  "grantable k m ts \<longleftrightarrow>
     (\<forall>th \<in> set ts. \<forall>(m', k') \<in> set (fst th). m' = m \<longrightarrow> k = Shared \<and> k' = Shared)"

inductive sys_step ::
  "('a \<Rightarrow> ('m, 'f, 'a) stmt list) \<Rightarrow> ('m, 'f, 'a) thread list \<Rightarrow> ('m, 'f, 'a) thread list \<Rightarrow> bool"
  for body
where
  acquire:
    "i < length ts \<Longrightarrow> ts ! i = (h, Acquire k m # r) \<Longrightarrow> grantable k m ts \<Longrightarrow>
     sys_step body ts (ts[i := ((m, k) # h, r)])"
| release:
    "i < length ts \<Longrightarrow> ts ! i = (h, Release m # r) \<Longrightarrow>
     sys_step body ts (ts[i := (filter (\<lambda>x. fst x \<noteq> m) h, r)])"
| get: "i < length ts \<Longrightarrow> ts ! i = (h, Get f # r) \<Longrightarrow> sys_step body ts (ts[i := (h, r)])"
| put: "i < length ts \<Longrightarrow> ts ! i = (h, Put f # r) \<Longrightarrow> sys_step body ts (ts[i := (h, r)])"
| branch:
    "i < length ts \<Longrightarrow> ts ! i = (h, Branch a b # r) \<Longrightarrow>
     sys_step body ts (ts[i := (h, (if c then a else b) @ r)])"
| again:
    "i < length ts \<Longrightarrow> ts ! i = (h, Repeat a # r) \<Longrightarrow>
     sys_step body ts (ts[i := (h, a @ Repeat a # r)])"
| leave: "i < length ts \<Longrightarrow> ts ! i = (h, Repeat a # r) \<Longrightarrow> sys_step body ts (ts[i := (h, r)])"
| go:
    "i < length ts \<Longrightarrow> ts ! i = (h, Go x # r) \<Longrightarrow>
     sys_step body ts (ts[i := (h, r)] @ [([], body x)])"

inductive sys_reach ::
  "('a \<Rightarrow> ('m, 'f, 'a) stmt list) \<Rightarrow> ('m, 'f, 'a) stmt list \<Rightarrow> ('m, 'f, 'a) thread list \<Rightarrow> bool"
  for body main
where
  sys_start: "sys_reach body main [([], main)]"
| sys_more: "sys_reach body main ts \<Longrightarrow> sys_step body ts ts' \<Longrightarrow> sys_reach body main ts'"

text \<open>
  A thread that goes on whatever the others do: its next statement is not a lock operation that
  has to wait. A mutex that nobody holds is granted to somebody; one that only readers hold may
  be refused to a further reader while a writer waits, so here it counts as taken.
\<close>

definition ready :: "('m, 'f, 'a) thread list \<Rightarrow> ('m, 'f, 'a) thread \<Rightarrow> bool" where
  "ready ts th =
     (case snd th of
        [] \<Rightarrow> False
      | Acquire k m # r \<Rightarrow> \<forall>th' \<in> set ts. m \<notin> fst ` set (fst th')
      | _ \<Rightarrow> True)"

text \<open>Two threads about to access the same field, one of them to write it.\<close>

fun next_access :: "('m, 'f, 'a) stmt list \<Rightarrow> ('f \<times> bool) option" where
  "next_access (Get f # r) = Some (f, False)"
| "next_access (Put f # r) = Some (f, True)"
| "next_access _ = None"

definition race :: "'f \<Rightarrow> ('m, 'f, 'a) thread list \<Rightarrow> bool" where
  "race f ts \<longleftrightarrow>
     (\<exists>i j w. i < length ts \<and> j < length ts \<and> i \<noteq> j \<and>
        next_access (snd (ts ! i)) = Some (f, True) \<and> next_access (snd (ts ! j)) = Some (f, w))"

subsection \<open>The discipline\<close>

definition guarded :: "('f \<Rightarrow> 'm option) \<Rightarrow> 'f \<Rightarrow> bool \<Rightarrow> 'm holding \<Rightarrow> bool" where
  "guarded guard f w h =
     (case guard f of
        None \<Rightarrow> True
      | Some m \<Rightarrow> (if w then (m, Exclusive) \<in> set h else m \<in> fst ` set h))"

text \<open>What a thread holds after its code, or \<open>None\<close> when the code breaks the discipline.\<close>

fun run_held ::
  "('f \<Rightarrow> 'm option) \<Rightarrow> ('m::linorder) holding \<Rightarrow> ('m, 'f, 'a) stmt list \<Rightarrow> 'm holding option"
where
  "run_held g h [] = Some h"
| "run_held g h (Acquire k m # r) =
     (if list_all (\<lambda>x. fst x < m) h then run_held g ((m, k) # h) r else None)"
| "run_held g h (Release m # r) =
     (case h of (m', k) # h' \<Rightarrow> if m' = m then run_held g h' r else None | [] \<Rightarrow> None)"
| "run_held g h (Get f # r) = (if guarded g f False h then run_held g h r else None)"
| "run_held g h (Put f # r) = (if guarded g f True h then run_held g h r else None)"
| "run_held g h (Branch a b # r) =
     (case run_held g h a of
        None \<Rightarrow> None
      | Some h' \<Rightarrow> if run_held g h b = Some h' then run_held g h' r else None)"
| "run_held g h (Repeat a # r) = (if run_held g h a = Some h then run_held g h r else None)"
| "run_held g h (Go x # r) = run_held g h r"

lemma run_held_append:
  "run_held g h (a @ b) = (case run_held g h a of None \<Rightarrow> None | Some h' \<Rightarrow> run_held g h' b)"
  by (induction g h a rule: run_held.induct) (auto split: option.splits list.splits)

lemma run_held_Some: "run_held g h a = Some h' \<Longrightarrow> run_held g h (a @ r) = run_held g h' r"
  by (simp add: run_held_append)

text \<open>The lock part of a state: exclusion, and each thread's mutexes taken in increasing order.\<close>

definition exclusion :: "('m, 'f, 'a) thread list \<Rightarrow> bool" where
  "exclusion ts \<longleftrightarrow>
     (\<forall>i j m k k'. i < length ts \<and> j < length ts \<and> i \<noteq> j \<and> (m, k) \<in> set (fst (ts ! i)) \<and>
        (m, k') \<in> set (fst (ts ! j)) \<longrightarrow> k = Shared \<and> k' = Shared)"

definition thread_ok :: "('f \<Rightarrow> 'm option) \<Rightarrow> ('m::linorder, 'f, 'a) thread \<Rightarrow> bool" where
  "thread_ok g th \<longleftrightarrow> run_held g (fst th) (snd th) = Some [] \<and> sorted_wrt (>) (map fst (fst th))"

lemma release_top:
  assumes "sorted_wrt (>) (map fst ((m :: 'm::linorder, k) # h))"
  shows "filter (\<lambda>x. fst x \<noteq> m) ((m, k) # h) = h"
  using assms by (auto simp: filter_id_conv)

lemma exclusion_upd:
  assumes ex: "exclusion ts" and i: "i < length ts"
    and sub: "\<And>m k j. (m, k) \<in> set (fst th) \<Longrightarrow> (m, k) \<notin> set (fst (ts ! i)) \<Longrightarrow> j < length ts \<Longrightarrow>
      j \<noteq> i \<Longrightarrow> (\<forall>k'. (m, k') \<in> set (fst (ts ! j)) \<longrightarrow> k = Shared \<and> k' = Shared)"
  shows "exclusion (ts[i := th])"
  unfolding exclusion_def
proof (intro allI impI, elim conjE)
  fix a b m k k'
  assume a: "a < length (ts[i := th])" "b < length (ts[i := th])" "a \<noteq> b"
    and m: "(m, k) \<in> set (fst (ts[i := th] ! a))" "(m, k') \<in> set (fst (ts[i := th] ! b))"
  note old = ex [unfolded exclusion_def, rule_format]
  consider "a = i" "b \<noteq> i" | "b = i" "a \<noteq> i" | "a \<noteq> i" "b \<noteq> i" using a(3) by blast
  then show "k = Shared \<and> k' = Shared"
  proof cases
    case 1
    with a m have mb: "(m, k) \<in> set (fst th)" "(m, k') \<in> set (fst (ts ! b))" "b < length ts" by simp_all
    show ?thesis
    proof (cases "(m, k) \<in> set (fst (ts ! i))")
      case True
      with old [of i b m k k'] i mb 1 show ?thesis by blast
    next
      case False
      with sub [OF mb(1) False mb(3) 1(2)] mb(2) show ?thesis by blast
    qed
  next
    case 2
    with a m have mb: "(m, k') \<in> set (fst th)" "(m, k) \<in> set (fst (ts ! a))" "a < length ts" by simp_all
    show ?thesis
    proof (cases "(m, k') \<in> set (fst (ts ! i))")
      case True
      with old [of i a m k' k] i mb 2 show ?thesis by blast
    next
      case False
      with sub [OF mb(1) False mb(3) 2(2)] mb(2) show ?thesis by blast
    qed
  next
    case 3
    with a m old [of a b m k k'] show ?thesis by simp
  qed
qed

lemma exclusion_shrink:
  "exclusion ts \<Longrightarrow> i < length ts \<Longrightarrow> set (fst th) \<subseteq> set (fst (ts ! i)) \<Longrightarrow> exclusion (ts[i := th])"
  by (rule exclusion_upd) auto

lemma exclusion_spawn:
  assumes "exclusion ts"
  shows "exclusion (ts @ [([], b)])"
  using assms unfolding exclusion_def
  by (auto simp: nth_append less_Suc_eq split: if_splits)

lemma all_set_upd: "(\<And>th. th \<in> set ts \<Longrightarrow> P th) \<Longrightarrow> P x \<Longrightarrow> th \<in> set (ts[i := x]) \<Longrightarrow> P th"
  using set_update_subset_insert by fastforce

subsection \<open>What the discipline gives\<close>

locale lock_discipline =
  fixes guard :: "'f \<Rightarrow> ('m::linorder) option"
    and body :: "'a \<Rightarrow> ('m, 'f, 'a) stmt list"
    and main :: "('m, 'f, 'a) stmt list"
  assumes body_ok: "run_held guard [] (body x) = Some []"
    and main_ok: "run_held guard [] main = Some []"
begin

definition pool_ok :: "('m, 'f, 'a) thread list \<Rightarrow> bool" where
  "pool_ok ts \<longleftrightarrow> exclusion ts \<and> (\<forall>th \<in> set ts. thread_ok guard th)"

lemma pool_okI:
  assumes "pool_ok ts" and "exclusion (ts[i := th])" and "thread_ok guard th"
  shows "pool_ok (ts[i := th])"
  using assms all_set_upd [of ts "thread_ok guard" th] unfolding pool_ok_def by blast

lemma pool_ok_same:
  assumes "pool_ok ts" and "i < length ts" and "ts ! i = (h, c)"
    and "run_held guard h c = run_held guard h c'"
  shows "pool_ok (ts[i := (h, c')])"
proof (rule pool_okI [OF assms(1)])
  have "thread_ok guard (ts ! i)" using assms(1,2) by (simp add: pool_ok_def)
  then show "thread_ok guard (h, c')" using assms(3,4) by (simp add: thread_ok_def)
  show "exclusion (ts[i := (h, c')])"
    using assms(1-3) by (intro exclusion_shrink) (simp_all add: pool_ok_def)
qed

lemma nth_thread_ok:
  assumes "pool_ok ts" and "i < length ts" and "ts ! i = (h, c)"
  shows "run_held guard h c = Some []" "sorted_wrt (>) (map fst h)"
proof -
  have "thread_ok guard (ts ! i)" using assms(1,2) by (simp add: pool_ok_def)
  then show "run_held guard h c = Some []" "sorted_wrt (>) (map fst h)" by (simp_all add: assms(3) thread_ok_def)
qed

lemma step_pool_ok:
  assumes step: "sys_step body ts ts'" and ok: "pool_ok ts"
  shows "pool_ok ts'"
  using step
proof cases
  case (acquire i h k m r)
  note th = nth_thread_ok [OF ok acquire(2,3)]
  then have lt: "list_all (\<lambda>x. fst x < m) h" and r: "run_held guard ((m, k) # h) r = Some []"
    by (auto split: if_splits)
  have "exclusion (ts[i := ((m, k) # h, r)])"
  proof (rule exclusion_upd)
    show "exclusion ts" using ok by (simp add: pool_ok_def)
    show "\<forall>k'. (m1, k') \<in> set (fst (ts ! j)) \<longrightarrow> k1 = Shared \<and> k' = Shared"
      if "(m1, k1) \<in> set (fst ((m, k) # h, r))" "(m1, k1) \<notin> set (fst (ts ! i))" "j < length ts" for m1 k1 j
      using that acquire(3,4) nth_mem [OF that(3)] unfolding grantable_def by auto
  qed (rule acquire(2))
  moreover have "thread_ok guard ((m, k) # h, r)"
    using r lt th(2) by (auto simp: thread_ok_def list_all_iff)
  ultimately show ?thesis unfolding acquire(1) by (rule pool_okI [OF ok])
next
  case (release i h m r)
  note th = nth_thread_ok [OF ok release(2,3)]
  then obtain k h' where h: "h = (m, k) # h'" and r: "run_held guard h' r = Some []"
    by (auto split: list.splits if_splits)
  have "filter (\<lambda>x. fst x \<noteq> m) h = h'" unfolding h by (rule release_top) (use th(2) h in simp)
  moreover have "exclusion (ts[i := (h', r)])"
    using ok release(2,3) by (intro exclusion_shrink) (auto simp: pool_ok_def h)
  moreover have "thread_ok guard (h', r)" using r th(2) by (simp add: thread_ok_def h)
  ultimately show ?thesis unfolding release(1) using pool_okI [OF ok] by simp
next
  case (get i h f r)
  then show ?thesis using pool_ok_same [OF ok get(2,3)] nth_thread_ok [OF ok get(2,3)] by (simp split: if_splits)
next
  case (put i h f r)
  then show ?thesis using pool_ok_same [OF ok put(2,3)] nth_thread_ok [OF ok put(2,3)] by (simp split: if_splits)
next
  case (branch i h a b r c)
  have "run_held guard h (Branch a b # r) = run_held guard h ((if c then a else b) @ r)"
    using nth_thread_ok(1) [OF ok branch(2,3)] by (simp add: run_held_append split: option.splits if_splits)
  then show ?thesis unfolding branch(1) by (rule pool_ok_same [OF ok branch(2,3)])
next
  case (again i h a r)
  have "run_held guard h (Repeat a # r) = run_held guard h (a @ Repeat a # r)"
    using nth_thread_ok(1) [OF ok again(2,3)] by (simp add: run_held_append split: if_splits)
  then show ?thesis unfolding again(1) by (rule pool_ok_same [OF ok again(2,3)])
next
  case (leave i h a r)
  then show ?thesis using pool_ok_same [OF ok leave(2,3)] nth_thread_ok(1) [OF ok leave(2,3)] by (simp split: if_splits)
next
  case (go i h x r)
  have "pool_ok (ts[i := (h, r)])" using pool_ok_same [OF ok go(2,3)] by simp
  moreover have "thread_ok guard ([], body x)" by (simp add: thread_ok_def body_ok)
  ultimately show ?thesis unfolding go(1) using exclusion_spawn by (auto simp: pool_ok_def)
qed

lemma reach_pool_ok: "sys_reach body main ts \<Longrightarrow> pool_ok ts"
proof (induction rule: sys_reach.induct)
  case sys_start
  show ?case by (simp add: pool_ok_def exclusion_def thread_ok_def main_ok)
next
  case (sys_more ts ts')
  then show ?case using step_pool_ok by blast
qed

text \<open>A mutex that is held exclusively is held by one thread alone.\<close>

lemma mutual_exclusion:
  assumes "sys_reach body main ts" and "i < length ts" and "j < length ts"
    and "(m, Exclusive) \<in> set (fst (ts ! i))" and "(m, k) \<in> set (fst (ts ! j))"
  shows "i = j"
  using reach_pool_ok [OF assms(1)] assms(2-5) unfolding pool_ok_def exclusion_def by (metis mode.distinct(1))

text \<open>No deadlock: the holder of the greatest mutex that is held never waits.\<close>

lemma somebody_ready:
  assumes reach: "sys_reach body main ts" and todo: "\<exists>th \<in> set ts. snd th \<noteq> []"
  shows "\<exists>th \<in> set ts. ready ts th"
proof (cases "\<exists>th \<in> set ts. snd th \<noteq> [] \<and> (\<forall>k m r. snd th \<noteq> Acquire k m # r)")
  case True
  then obtain th where th: "th \<in> set ts" "snd th \<noteq> []" "\<forall>k m r. snd th \<noteq> Acquire k m # r" by blast
  then obtain s r where "snd th = s # r" by (cases "snd th") auto
  then have "ready ts th" using th(3) by (cases s) (simp_all add: ready_def)
  with th(1) show ?thesis by blast
next
  case False
  have ok: "thread_ok guard th" if "th \<in> set ts" for th
    using reach_pool_ok [OF reach] that by (simp add: pool_ok_def)
  let ?held = "\<Union>th \<in> set ts. fst ` set (fst th)"
  show ?thesis
  proof (cases "?held = {}")
    case True
    with todo False obtain th k m r where th: "th \<in> set ts" "snd th = Acquire k m # r" by blast
    from True have "ready ts th" by (simp add: ready_def th(2))
    with th(1) show ?thesis by blast
  next
    case nonempty: False
    then have max: "Max ?held \<in> ?held" by (intro Max_in) auto
    then obtain th where th: "th \<in> set ts" "Max ?held \<in> fst ` set (fst th)" by blast
    have "snd th \<noteq> []" using ok [OF th(1)] th(2) by (auto simp: thread_ok_def)
    with False th(1) obtain k m r where nx: "snd th = Acquire k m # r" by blast
    have "list_all (\<lambda>x. fst x < m) (fst th)"
      using ok [OF th(1)] by (auto simp: thread_ok_def nx split: if_splits)
    with th(2) have "Max ?held < m" by (auto simp: list_all_iff)
    moreover have "m' \<le> Max ?held" if "m' \<in> ?held" for m' using that by (intro Max_ge) auto
    ultimately have "m \<notin> ?held" by (meson not_le)
    then have "ready ts th" by (simp add: ready_def nx)
    with th(1) show ?thesis by blast
  qed
qed

lemma ready_steps:
  assumes "i < length ts" and "ready ts (ts ! i)"
  shows "\<exists>ts'. sys_step body ts ts'"
proof -
  obtain h c where hc: "ts ! i = (h, c)" by (rule prod.exhaust)
  then obtain s r where "c = s # r" using assms(2) by (cases c) (simp_all add: ready_def)
  with hc have t: "ts ! i = (h, s # r)" by simp
  show ?thesis
  proof (cases s)
    case (Acquire k m)
    have "m' \<noteq> m" if "th \<in> set ts" "(m', k') \<in> set (fst th)" for th m' k'
      using assms(2) that by (force simp: ready_def t Acquire)
    then have "grantable k m ts" by (auto simp: grantable_def)
    from sys_step.acquire [OF assms(1) t [unfolded Acquire] this] show ?thesis by blast
  next
    case (Branch a b)
    from sys_step.branch [OF assms(1) t [unfolded Branch]] show ?thesis by blast
  next
    case (Repeat a)
    from sys_step.leave [OF assms(1) t [unfolded Repeat]] show ?thesis by blast
  next
    case (Go x)
    from sys_step.go [OF assms(1) t [unfolded Go]] show ?thesis by blast
  next
    case (Release m)
    from sys_step.release [OF assms(1) t [unfolded Release]] show ?thesis by blast
  next
    case (Get f)
    from sys_step.get [OF assms(1) t [unfolded Get]] show ?thesis by blast
  next
    case (Put f)
    from sys_step.put [OF assms(1) t [unfolded Put]] show ?thesis by blast
  qed
qed

lemma next_access_code:
  "next_access c = Some (f, w) \<Longrightarrow> \<exists>r. c = (if w then Put f else Get f) # r"
  by (cases c rule: next_access.cases) auto

text \<open>No data race on a guarded field.\<close>

lemma race_free:
  assumes reach: "sys_reach body main ts" and g: "guard f = Some m"
  shows "\<not> race f ts"
proof
  assume "race f ts"
  then obtain i j w where ij: "i < length ts" "j < length ts" "i \<noteq> j"
    and nx: "next_access (snd (ts ! i)) = Some (f, True)" "next_access (snd (ts ! j)) = Some (f, w)"
    unfolding race_def by blast
  have held: "guarded guard f w (fst (ts ! l))"
    if "l < length ts" "next_access (snd (ts ! l)) = Some (f, w)" for l w
  proof -
    obtain h c where t: "ts ! l = (h, c)" by (rule prod.exhaust)
    with that(2) obtain r where "c = (if w then Put f else Get f) # r" using next_access_code by fastforce
    with nth_thread_ok(1) [OF reach_pool_ok [OF reach] that(1) t] show ?thesis
      by (cases w) (simp_all add: t split: if_splits)
  qed
  have "(m, Exclusive) \<in> set (fst (ts ! i))" using held [OF ij(1) nx(1)] by (simp add: guarded_def g)
  moreover obtain k where "(m, k) \<in> set (fst (ts ! j))"
    using held [OF ij(2) nx(2)] by (cases w) (auto simp: guarded_def g)
  ultimately show False using mutual_exclusion [OF reach ij(1,2)] ij(3) by blast
qed

end

subsection \<open>A field that is set before anything else runs\<close>

text \<open>
  A field without a guard is still free of races when it is written only before the first
  \<open>go\<close>: \<open>written_early f p code\<close> is \<open>None\<close> when \<open>code\<close> may write \<open>f\<close> while other threads exist
  (\<open>p\<close> says that there is no other thread yet), and else says whether there is still none.
\<close>

fun written_early :: "'f \<Rightarrow> bool \<Rightarrow> ('m, 'f, 'a) stmt list \<Rightarrow> bool option" where
  "written_early f p [] = Some p"
| "written_early f p (Put g # r) = (if g = f \<and> \<not> p then None else written_early f p r)"
| "written_early f p (Go x # r) = written_early f False r"
| "written_early f p (Branch a b # r) =
     (case (written_early f p a, written_early f p b) of
        (Some p1, Some p2) \<Rightarrow> written_early f (p1 \<and> p2) r
      | _ \<Rightarrow> None)"
| "written_early f p (Repeat a # r) =
     (case written_early f p a of
        None \<Rightarrow> None
      | Some p' \<Rightarrow> if written_early f p' a = None then None else written_early f p' r)"
| "written_early f p (_ # r) = written_early f p r"

lemma written_early_False: "written_early f False c \<noteq> None \<Longrightarrow> written_early f False c = Some False"
proof (induction f "False" c rule: written_early.induct)
  case (5 f a r)
  then show ?case by (fastforce split: option.splits if_splits)
qed (auto split: option.splits)

lemma written_early_mono: "written_early f False c \<noteq> None \<Longrightarrow> written_early f p c \<noteq> None"
proof (induction f p c rule: written_early.induct)
  case (4 f p a b r)
  then have ab: "written_early f False a \<noteq> None" "written_early f False b \<noteq> None"
    by (auto split: option.splits)
  then obtain p1 p2 where "written_early f p a = Some p1" "written_early f p b = Some p2"
    using 4(1,2) by blast
  moreover have "written_early f False r \<noteq> None"
    using 4(4) written_early_False [OF ab(1)] written_early_False [OF ab(2)] by simp
  ultimately show ?case using 4(3) by fastforce
next
  case (5 f p a r)
  then have a: "written_early f False a \<noteq> None" by (auto split: option.splits)
  then obtain p' where p': "written_early f p a = Some p'" using 5(1) by blast
  moreover have "written_early f False r \<noteq> None"
    using 5(4) written_early_False [OF a] by simp
  ultimately show ?case using 5(2,3) [OF p'] a by fastforce
qed (auto split: option.splits if_splits)

lemma written_early_append:
  "written_early f p (a @ b) =
     (case written_early f p a of None \<Rightarrow> None | Some p' \<Rightarrow> written_early f p' b)"
  by (induction f p a rule: written_early.induct) (auto split: option.splits)

lemma written_early_branch:
  assumes "written_early f p (Branch a b # r) \<noteq> None"
  shows "written_early f p ((if c then a else b) @ r) \<noteq> None"
proof -
  obtain p1 p2 where p: "written_early f p a = Some p1" "written_early f p b = Some p2"
    and r: "written_early f (p1 \<and> p2) r \<noteq> None"
    using assms by (auto split: option.splits)
  have "written_early f p1 r \<noteq> None" "written_early f p2 r \<noteq> None"
    using r written_early_mono [of f r] by (cases p1; cases p2; auto)+
  then show ?thesis by (simp add: written_early_append p)
qed

lemma written_early_repeat:
  assumes "written_early f p (Repeat a # r) \<noteq> None"
  shows "written_early f p (a @ Repeat a # r) \<noteq> None" "written_early f p r \<noteq> None"
proof -
  obtain p' where p': "written_early f p a = Some p'"
    and a: "written_early f p' a \<noteq> None" and r: "written_early f p' r \<noteq> None"
    using assms by (auto split: option.splits if_splits)
  have p: "p' = p \<or> \<not> p'" using p' written_early_False [of f a] by (cases p) auto
  with r show "written_early f p r \<noteq> None" using written_early_mono [of f r p] by auto
  have "written_early f p' a = Some p'" using p p' a written_early_False [of f a] by auto
  with p' r show "written_early f p (a @ Repeat a # r) \<noteq> None" by (simp add: written_early_append)
qed

definition still_early :: "'f \<Rightarrow> ('m, 'f, 'a) thread list \<Rightarrow> bool" where
  "still_early f ts \<longleftrightarrow> (\<forall>th \<in> set ts. written_early f (length ts = 1) (snd th) \<noteq> None)"

lemma still_early_nth:
  "still_early f ts \<Longrightarrow> i < length ts \<Longrightarrow> ts ! i = (h, c) \<Longrightarrow> written_early f (length ts = 1) c \<noteq> None"
  unfolding still_early_def by (metis nth_mem snd_conv)

lemma still_early_upd:
  assumes "still_early f ts" and "written_early f (length ts = 1) c \<noteq> None"
  shows "still_early f (ts[i := (h, c)])"
  unfolding still_early_def
proof
  fix th
  assume "th \<in> set (ts[i := (h, c)])"
  then have "th \<in> set ts \<or> th = (h, c)" using set_update_subset_insert by fast
  then show "written_early f (length (ts[i := (h, c)]) = 1) (snd th) \<noteq> None"
    using assms unfolding still_early_def by auto
qed

lemma still_early_step:
  assumes step: "sys_step body ts ts'" and body: "\<And>x. written_early f False (body x) \<noteq> None"
    and early: "still_early f ts"
  shows "still_early f ts'"
  using step
proof cases
  case (branch i h a b r c)
  show ?thesis unfolding branch(1)
    by (rule still_early_upd [OF early written_early_branch])
      (use still_early_nth [OF early branch(2,3)] in blast)
next
  case (again i h a r)
  show ?thesis unfolding again(1)
    by (rule still_early_upd [OF early written_early_repeat(1)])
      (use still_early_nth [OF early again(2,3)] in blast)
next
  case (leave i h a r)
  show ?thesis unfolding leave(1)
    by (rule still_early_upd [OF early written_early_repeat(2)])
      (use still_early_nth [OF early leave(2,3)] in blast)
next
  case (go i h x r)
  have r: "written_early f False r \<noteq> None" using still_early_nth [OF early go(2,3)] by simp
  have "written_early f False (snd th) \<noteq> None" if "th \<in> set ts" for th
  proof (cases "length ts = 1")
    case True
    then have "ts ! i = th" using that go(2) by (auto simp: length_Suc_conv)
    then show ?thesis using r still_early_nth [OF early go(2,3)] by (auto simp: go(3))
  qed (use early that in \<open>auto simp: still_early_def\<close>)
  then have "written_early f False (snd th) \<noteq> None" if "th \<in> set (ts[i := (h, r)])" for th
    using all_set_upd [OF _ _ that, of "\<lambda>th. written_early f False (snd th) \<noteq> None"] r by simp
  moreover have "length ts \<noteq> 0" using go(2) by auto
  ultimately show ?thesis unfolding go(1) still_early_def using body by auto
next
  case (acquire i h k m r)
  show ?thesis unfolding acquire(1)
    by (rule still_early_upd [OF early]) (use still_early_nth [OF early acquire(2,3)] in simp)
next
  case (release i h m r)
  show ?thesis unfolding release(1)
    by (rule still_early_upd [OF early]) (use still_early_nth [OF early release(2,3)] in simp)
next
  case (get i h g r)
  show ?thesis unfolding get(1)
    by (rule still_early_upd [OF early]) (use still_early_nth [OF early get(2,3)] in simp)
next
  case (put i h g r)
  show ?thesis unfolding put(1)
    by (rule still_early_upd [OF early])
      (use still_early_nth [OF early put(2,3)] in \<open>simp split: if_splits\<close>)
qed

lemma written_early_race_free:
  assumes reach: "sys_reach body main ts" and "written_early f True main \<noteq> None"
    and "\<And>x. written_early f False (body x) \<noteq> None"
  shows "\<not> race f ts"
proof
  assume "race f ts"
  then obtain i j where ij: "i < length ts" "j < length ts" "i \<noteq> j"
    and nx: "next_access (snd (ts ! i)) = Some (f, True)" unfolding race_def by blast
  have "still_early f ts" using reach
  proof induction
    case sys_start
    show ?case using assms(2) by (simp add: still_early_def)
  qed (rule still_early_step [OF _ assms(3)])
  then have "written_early f (length ts = 1) (snd (ts ! i)) \<noteq> None"
    using ij(1) by (simp add: still_early_def)
  moreover have "length ts \<noteq> 1" using ij by auto
  moreover obtain r where "snd (ts ! i) = Put f # r" using nx
    by (cases "snd (ts ! i)" rule: next_access.cases) auto
  ultimately show False by simp
qed

subsection \<open>Running a schedule\<close>

text \<open>The thread that moves next, and which way it takes at a choice or a loop.\<close>

fun move :: "bool \<Rightarrow> ('m, 'f, 'a) thread list \<Rightarrow> ('a \<Rightarrow> ('m, 'f, 'a) stmt list) \<Rightarrow> ('m, 'f, 'a) thread
    \<Rightarrow> (('m, 'f, 'a) thread \<times> ('m, 'f, 'a) thread list) option"
where
  "move c ts body (h, []) = None"
| "move c ts body (h, Acquire k m # r) = (if grantable k m ts then Some (((m, k) # h, r), []) else None)"
| "move c ts body (h, Release m # r) = Some ((filter (\<lambda>x. fst x \<noteq> m) h, r), [])"
| "move c ts body (h, Get f # r) = Some ((h, r), [])"
| "move c ts body (h, Put f # r) = Some ((h, r), [])"
| "move c ts body (h, Branch a b # r) = Some ((h, (if c then a else b) @ r), [])"
| "move c ts body (h, Repeat a # r) = Some ((h, if c then a @ Repeat a # r else r), [])"
| "move c ts body (h, Go x # r) = Some ((h, r), [([], body x)])"

fun sched ::
  "('a \<Rightarrow> ('m, 'f, 'a) stmt list) \<Rightarrow> (nat \<times> bool) list \<Rightarrow> ('m, 'f, 'a) thread list
    \<Rightarrow> ('m, 'f, 'a) thread list option"
where
  "sched body [] ts = Some ts"
| "sched body ((i, c) # s) ts =
     (if i < length ts
      then (case move c ts body (ts ! i) of
              None \<Rightarrow> None
            | Some (th, new) \<Rightarrow> sched body s (ts[i := th] @ new))
      else None)"

lemma move_step:
  assumes "i < length ts" and "move c ts body (ts ! i) = Some (th, new)"
  shows "sys_step body ts (ts[i := th] @ new)"
proof -
  obtain h code where hc: "ts ! i = (h, code)" by (rule prod.exhaust)
  then obtain s r where "code = s # r" using assms(2) by (cases code) simp_all
  with hc have t: "ts ! i = (h, s # r)" by simp
  note intros = sys_step.intros [OF assms(1)]
  show ?thesis
  proof (cases s)
    case (Acquire k m)
    with assms(2) t intros(1) show ?thesis by (auto split: if_splits)
  next
    case (Branch a b)
    with assms(2) intros(5) [OF t [unfolded Branch], of body c] show ?thesis by (simp add: t)
  next
    case (Repeat a)
    with assms(2) intros(6,7) [OF t [unfolded Repeat], of body] show ?thesis by (cases c) (simp_all add: t)
  next
    case (Go x)
    with assms(2) intros(8) [OF t [unfolded Go], of body] show ?thesis by (simp add: t)
  qed (use assms(2) t intros(2-4) in auto)
qed

lemma sched_reach:
  "sched body s ts = Some ts' \<Longrightarrow> sys_reach body main ts \<Longrightarrow> sys_reach body main ts'"
proof (induction s arbitrary: ts)
  case (Cons ic s)
  obtain i c where ic: "ic = (i, c)" by (rule prod.exhaust)
  from Cons.prems(1) obtain th new where m: "i < length ts" "move c ts body (ts ! i) = Some (th, new)"
    and s: "sched body s (ts[i := th] @ new) = Some ts'"
    by (auto simp: ic split: if_splits option.splits)
  show ?case
    by (rule Cons.IH [OF s sys_reach.sys_more [OF Cons.prems(2) move_step [OF m]]])
qed simp

end
