(* ===== verification/Allow_List.thy ===== *)
theory Allow_List
  imports Server_Facts
begin

text \<open>
  \<open>examples/node/allowlist.go\<close>: the service's own approval policy for children, and its
  contract as the authorization hook of the server.
\<close>

record childAllowList =
  allowed :: "(string, bool) fmap"

definition newChildAllowList :: "string list \<Rightarrow> childAllowList" where
  "newChildAllowList ids = \<lparr>allowed = foldl (\<lambda>m i. fmupd i True m) fmempty ids\<rparr>"

definition allow_Add :: "string \<Rightarrow> childAllowList \<Rightarrow> childAllowList" where
  "allow_Add nodeID l = l\<lparr>allowed := fmupd nodeID True (allowed l)\<rparr>"

definition allow_Remove :: "string \<Rightarrow> childAllowList \<Rightarrow> childAllowList" where
  "allow_Remove nodeID l = l\<lparr>allowed := fmdrop nodeID (allowed l)\<rparr>"

text \<open>\<open>ks\<close> is the order in which the map is visited.\<close>

definition allow_List :: "string list \<Rightarrow> childAllowList \<Rightarrow> string list" where
  "allow_List ks l = filter (\<lambda>k. fmlookup (allowed l) k \<noteq> None) ks"

definition contains :: "childAllowList \<Rightarrow> string \<Rightarrow> bool" where
  "contains l nodeID = (case fmlookup (allowed l) nodeID of None \<Rightarrow> False | Some b \<Rightarrow> b)"

definition Authorize :: "childAllowList \<Rightarrow> authorize_hook" where
  "Authorize l c nodeID =
     (if nodeID = '''' then Some (Errorf ''child did not send a node-id'' [] [])
      else if \<not> contains l nodeID
      then Some (Errorf ''node-id %q is not in the allowed list'' [nodeID] [])
      else
        (case peer_auth c of
           None \<Rightarrow> Some (Errorf ''no peer info on connection'' [] [])
         | Some (TLSInfo (cn # _)) \<Rightarrow>
             (if cn \<noteq> nodeID
              then Some (Errorf ''claimed node-id %q does not match certificate CommonName %q'' [nodeID, cn] [])
              else None)
         | Some _ \<Rightarrow> Some (Errorf ''no client certificate presented'' [] [])))"

text \<open>The common name of the certificate the peer presented first.\<close>

definition peer_cn :: "ctx \<Rightarrow> string option" where
  "peer_cn c = (case peer_auth c of Some (TLSInfo (cn # _)) \<Rightarrow> Some cn | _ \<Rightarrow> None)"

subsection \<open>The contract of an editable policy\<close>

datatype admin_op = Approve string | Revoke string

fun op_id :: "admin_op \<Rightarrow> string" where
  "op_id (Approve i) = i"
| "op_id (Revoke i) = i"

fun is_approve :: "admin_op \<Rightarrow> bool" where
  "is_approve (Approve i) = True"
| "is_approve (Revoke i) = False"

text \<open>
  A policy is edited by approving and revoking ids, and admits exactly the children that claim
  an approved, non-empty id and present a certificate for it.
\<close>

locale child_policy =
  fixes approve :: "string \<Rightarrow> 'p \<Rightarrow> 'p"
    and revoke :: "string \<Rightarrow> 'p \<Rightarrow> 'p"
    and member :: "'p \<Rightarrow> string \<Rightarrow> bool"
    and hook :: "'p \<Rightarrow> authorize_hook"
  assumes member_approve: "member (approve i p) j \<longleftrightarrow> j = i \<or> member p j"
    and member_revoke: "member (revoke i p) j \<longleftrightarrow> j \<noteq> i \<and> member p j"
    and hook_admits: "hook p c i = None \<longleftrightarrow> i \<noteq> '''' \<and> member p i \<and> peer_cn c = Some i"
begin

definition edit :: "'p \<Rightarrow> admin_op \<Rightarrow> 'p" where
  "edit p a = (case a of Approve i \<Rightarrow> approve i p | Revoke i \<Rightarrow> revoke i p)"

lemma member_edit: "member (edit p a) i \<longleftrightarrow> (if op_id a = i then is_approve a else member p i)"
  by (cases a) (auto simp: edit_def member_approve member_revoke)

text \<open>The last edit that names an id decides it.\<close>

lemma member_edits:
  "member (foldl edit p as) i \<longleftrightarrow>
     (case filter (\<lambda>a. op_id a = i) (rev as) of [] \<Rightarrow> member p i | a # _ \<Rightarrow> is_approve a)"
  by (induction as rule: rev_induct) (simp_all add: member_edit)

lemma no_impersonation: "hook p c i = None \<Longrightarrow> hook p' c j = None \<Longrightarrow> i = j"
  by (simp add: hook_admits)

lemma revoked_rejected: "hook (revoke i p) c i \<noteq> None"
  by (simp add: hook_admits member_revoke)

lemma approved_admitted: "i \<noteq> '''' \<Longrightarrow> peer_cn c = Some i \<Longrightarrow> hook (approve i p) c i = None"
  by (simp add: hook_admits member_approve)

end

lemma contains_Add: "contains (allow_Add i l) j \<longleftrightarrow> j = i \<or> contains l j"
  by (simp add: contains_def allow_Add_def)

lemma contains_Remove: "contains (allow_Remove i l) j \<longleftrightarrow> j \<noteq> i \<and> contains l j"
  by (simp add: contains_def allow_Remove_def)

lemma Authorize_admits:
  "Authorize l c i = None \<longleftrightarrow> i \<noteq> '''' \<and> contains l i \<and> peer_cn c = Some i"
  by (auto simp: Authorize_def peer_cn_def split: option.split auth_info.split list.split)

interpretation al: child_policy allow_Add allow_Remove contains Authorize
  by unfold_locales (simp_all add: contains_Add contains_Remove Authorize_admits)

lemma contains_new: "contains (newChildAllowList ids) i \<longleftrightarrow> i \<in> set ids"
  unfolding newChildAllowList_def
  by (induction ids rule: rev_induct) (auto simp: contains_def)

subsection \<open>The map holds no \<open>false\<close>\<close>

definition allow_ok :: "childAllowList \<Rightarrow> bool" where
  "allow_ok l \<longleftrightarrow> (\<forall>i. fmlookup (allowed l) i \<noteq> Some False)"

lemma allow_ok_new [simp]: "allow_ok (newChildAllowList ids)"
  unfolding newChildAllowList_def
  by (induction ids rule: rev_induct) (auto simp: allow_ok_def)

lemma allow_ok_edit [simp]: "allow_ok l \<Longrightarrow> allow_ok (al.edit l a)"
  by (cases a) (auto simp: al.edit_def allow_ok_def allow_Add_def allow_Remove_def)

lemma allow_ok_edits: "allow_ok l \<Longrightarrow> allow_ok (foldl al.edit l as)"
  by (induction as arbitrary: l) simp_all

lemma allow_List_contains:
  assumes "allow_ok l" and "range_order ks (allowed l)"
  shows "set (allow_List ks l) = {i. contains l i}" and "distinct (allow_List ks l)"
proof -
  have "fmlookup (allowed l) i \<noteq> None \<longleftrightarrow> contains l i" for i
    using assms(1) [unfolded allow_ok_def, rule_format, of i]
    by (cases "fmlookup (allowed l) i") (auto simp: contains_def)
  moreover have "i \<in> set ks \<longleftrightarrow> fmlookup (allowed l) i \<noteq> None" for i
    using range_order_lookup [OF assms(2)] by simp
  ultimately show "set (allow_List ks l) = {i. contains l i}" by (auto simp: allow_List_def)
  show "distinct (allow_List ks l)" using assms(2) by (simp add: allow_List_def range_order_def)
qed

subsection \<open>As the hook of a server\<close>

lemma authorize_with_policy:
  assumes "authorizeChild s = Authorize l" and "authorize now c i s m = (None, s', m')"
  shows "i \<noteq> ''''" "contains l i" "peer_cn c = Some i"
proof -
  have "Authorize l c i = None"
    using assms by (auto simp: authorize_def split: option.splits)
  then show "i \<noteq> ''''" "contains l i" "peer_cn c = Some i" by (simp_all add: Authorize_admits)
qed

end
