(* ===== verification/Service_Config.thy ===== *)
theory Service_Config
  imports Node Allow_List
begin

text \<open>
  \<open>examples/node/config.go\<close> and the part of \<open>main\<close> in \<open>examples/node/main.go\<close> that turns a
  configuration file into a node, with the configuration of \<open>examples/agent/main.go\<close>. Reading
  the file and decoding its JSON are given by their results, functions of the path and of the
  bytes read.
\<close>

record TLSConfig =
  CACertPath :: string
  CertPath :: string
  KeyPath :: string

record FileConfig =
  cfID :: string
  cfListenAddr :: string
  cfParentAddr :: string
  StoragePath :: string
  HTTPAddr :: string
  cfTLS :: "TLSConfig option"
  AllowedChildIDs :: "string list"

definition loadConfig ::
  "(string \<Rightarrow> go_error + string) \<Rightarrow> (string \<Rightarrow> go_error + FileConfig) \<Rightarrow> string
    \<Rightarrow> go_error + FileConfig"
where
  "loadConfig readFile unmarshal path =
     (case readFile path of
        Inl err \<Rightarrow> Inl (Errorf ''read config %s: %w'' [path] [err])
      | Inr data \<Rightarrow>
          (case unmarshal data of
             Inl err \<Rightarrow> Inl (Errorf ''parse config %s: %w'' [path] [err])
           | Inr c \<Rightarrow>
               if cfID c = '''' then Inl (Errorf ''config: \"id\" is required'' [] [])
               else if StoragePath c = '''' then Inl (Errorf ''config: \"storage_path\" is required'' [] [])
               else if cfListenAddr c = '''' \<and> cfParentAddr c = ''''
               then Inl (Errorf ''config: at least one of \"listen_addr\" or \"parent_addr\" is required'' [] [])
               else Inr c))"

text \<open>The options \<open>main\<close> assembles, in order; an \<open>Inl\<close> ends the process.\<close>

definition service_options ::
  "tls_lib \<Rightarrow> FileConfig \<Rightarrow> childAllowList \<Rightarrow> go_error + 'w node_option list"
where
  "service_options lib c allow =
     (let opts = [WithID (cfID c)]
            @ (if cfListenAddr c \<noteq> '''' then [WithListenAddr (cfListenAddr c)] else [])
            @ (if cfParentAddr c \<noteq> ''''
               then [WithResolver (static_resolver (NewStaticResolver (cfParentAddr c)))] else [])
      in case cfTLS c of
           None \<Rightarrow> Inr opts
         | Some t \<Rightarrow>
             (case NewMTLSAuthenticator (CACertPath t) (CertPath t) (KeyPath t) of
                Inl err \<Rightarrow> Inl (Errorf ''configure mTLS: %v'' [] [err])
              | Inr a \<Rightarrow> Inr (opts @ [WithAuthenticator (mtls lib a), WithAuthorizeChild (Authorize allow)])))"

definition service_node :: "tls_lib \<Rightarrow> FileConfig \<Rightarrow> go_error + 'w node" where
  "service_node lib c =
     (case service_options lib c (newChildAllowList (AllowedChildIDs c)) of
        Inl err \<Rightarrow> Inl err
      | Inr opts \<Rightarrow>
          (case New opts of
             Inl err \<Rightarrow> Inl (Errorf ''create node: %v'' [] [err])
           | Inr n \<Rightarrow> Inr n))"

subsection \<open>The agent's configuration\<close>

record AgentConfig =
  ServiceAddr :: string
  IntervalSeconds :: "64 word"
  agPayload :: string

definition agent_loadConfig ::
  "(string \<Rightarrow> go_error + string) \<Rightarrow> (string \<Rightarrow> go_error + AgentConfig) \<Rightarrow> string
    \<Rightarrow> go_error + AgentConfig"
where
  "agent_loadConfig readFile unmarshal path =
     (case readFile path of
        Inl err \<Rightarrow> Inl (Errorf ''read config %s: %w'' [path] [err])
      | Inr data \<Rightarrow>
          (case unmarshal data of
             Inl err \<Rightarrow> Inl (Errorf ''parse config %s: %w'' [path] [err])
           | Inr c \<Rightarrow>
               if ServiceAddr c = '''' then Inl (Errorf ''config: \"service_addr\" is required'' [] [])
               else Inr c))"

subsection \<open>Facts\<close>

lemma loadConfig_Inr:
  "loadConfig rd um path = Inr c \<longleftrightarrow>
     (\<exists>data. rd path = Inr data \<and> um data = Inr c \<and> cfID c \<noteq> '''' \<and> StoragePath c \<noteq> '''' \<and>
       (cfListenAddr c \<noteq> '''' \<or> cfParentAddr c \<noteq> ''''))"
  by (auto simp: loadConfig_def split: sum.splits)

lemma agent_loadConfig_Inr:
  "agent_loadConfig rd um path = Inr c \<longleftrightarrow>
     (\<exists>data. rd path = Inr data \<and> um data = Inr c \<and> ServiceAddr c \<noteq> '''')"
  by (auto simp: agent_loadConfig_def split: sum.splits)

text \<open>The node configuration the options of \<open>main\<close> produce.\<close>

definition service_config :: "FileConfig \<Rightarrow> authenticator option \<Rightarrow> childAllowList \<Rightarrow> 'w config" where
  "service_config c a allow =
     \<lparr>cfg_id = cfID c, listenAddr = cfListenAddr c,
      cfg_resolver = (if cfParentAddr c \<noteq> ''''
        then Some (static_resolver (NewStaticResolver (cfParentAddr c))) else None),
      cfg_authn = a,
      cfg_authorizeChild = (if a = None then None else Some (Authorize allow))\<rparr>"

lemmas option_defs = WithID_def WithListenAddr_def WithResolver_def WithAuthenticator_def
  WithAuthorizeChild_def zero_config_def

lemma service_options_config:
  assumes "service_options lib c allow = Inr opts"
  obtains a where "foldl (\<lambda>c opt. opt c) zero_config opts = service_config c a allow"
    and "a = None \<longleftrightarrow> cfTLS c = None"
  using assms
  by (cases "cfTLS c")
    (auto simp: service_options_def service_config_def option_defs Let_def split: sum.splits if_splits)

lemma New_service:
  assumes "service_options lib c allow = Inr opts" and "cfID c \<noteq> ''''"
    and "cfListenAddr c \<noteq> '''' \<or> cfParentAddr c \<noteq> ''''"
  shows "\<exists>n a. New opts = Inr n \<and> cfg n = service_config c a allow \<and> (a = None \<longleftrightarrow> cfTLS c = None)"
proof -
  obtain a where fold: "foldl (\<lambda>c opt. opt c) zero_config opts = service_config c a allow"
    and a: "a = None \<longleftrightarrow> cfTLS c = None"
    using service_options_config [OF assms(1)] by blast
  have "cfg_id (service_config c a allow) \<noteq> ''''"
    "\<not> (listenAddr (service_config c a allow) = '''' \<and> cfg_resolver (service_config c a allow) = None)"
    using assms(2,3) by (auto simp: service_config_def)
  then show ?thesis using a by (auto simp: New_def fold Let_def)
qed

end
