(* ===== verification/Bolt_Store.thy ===== *)
theory Bolt_Store
  imports Envelope "HOL-Library.List_Lexorder" "HOL-Library.Char_ord"
begin

text \<open>
  \<open>examples/node/storage\<close>: the service's record of envelopes in a BoltDB file.

  bbolt and the protobuf codec are library code. \<open>bolt\<close> and \<open>codec\<close> hold the functions the
  source calls: \<open>'d\<close> is the state of a database and \<open>'t\<close> that of a transaction. A function
  passed to \<open>Update\<close> transforms the transaction and returns an error; one passed to \<open>View\<close>
  returns an error and the results it collected. \<open>ForEach\<close> is the sequence of pairs it visits.
\<close>

record codec =
  Marshal :: "envelope \<Rightarrow> go_error + string"
  Unmarshal :: "string \<Rightarrow> go_error + envelope"

record ('d, 't) bolt =
  bolt_Open :: "string \<Rightarrow> go_error + 'd"
  bolt_Update :: "('t \<Rightarrow> go_error option \<times> 't) \<Rightarrow> 'd \<Rightarrow> go_error option \<times> 'd"
  bolt_View :: "('t \<Rightarrow> go_error option \<times> envelope list) \<Rightarrow> 'd \<Rightarrow> go_error option \<times> envelope list"
  CreateBucketIfNotExists :: "string \<Rightarrow> 't \<Rightarrow> go_error option \<times> 't"
  bucket_Put :: "string \<Rightarrow> string \<Rightarrow> string \<Rightarrow> 't \<Rightarrow> go_error option \<times> 't"
  bucket_Delete :: "string \<Rightarrow> string \<Rightarrow> 't \<Rightarrow> go_error option \<times> 't"
  bucket_ForEach :: "string \<Rightarrow> 't \<Rightarrow> (string \<times> string) list"

definition bucketName :: string where
  "bucketName = ''envelopes''"

record QueryFilter =
  fKind :: string
  Since :: int

definition NewBoltStorage :: "('d, 't) bolt \<Rightarrow> string \<Rightarrow> go_error + 'd" where
  "NewBoltStorage L path =
     (case bolt_Open L path of
        Inl err \<Rightarrow> Inl (Errorf ''open bolt db: %w'' [] [err])
      | Inr db \<Rightarrow>
          (case bolt_Update L (CreateBucketIfNotExists L bucketName) db of
             (Some err, db') \<Rightarrow> Inl (Errorf ''create bucket: %w'' [] [err])
           | (None, db') \<Rightarrow> Inr db'))"

definition Save :: "('d, 't) bolt \<Rightarrow> codec \<Rightarrow> envelope \<Rightarrow> 'd \<Rightarrow> go_error option \<times> 'd" where
  "Save L C env db =
     (case Marshal C env of
        Inl err \<Rightarrow> (Some (Errorf ''marshal envelope: %w'' [] [err]), db)
      | Inr data \<Rightarrow> bolt_Update L (bucket_Put L bucketName (EnvId env) data) db)"

text \<open>The loop of \<open>Query\<close> over the pairs of the bucket, with the results so far.\<close>

fun query_loop ::
  "codec \<Rightarrow> QueryFilter \<Rightarrow> (string \<times> string) list \<Rightarrow> envelope list \<Rightarrow> go_error option \<times> envelope list"
where
  "query_loop C q [] results = (None, results)"
| "query_loop C q ((k, v) # kvs) results =
     (case Unmarshal C v of
        Inl err \<Rightarrow> (Some (Errorf ''unmarshal envelope: %w'' [] [err]), results)
      | Inr env \<Rightarrow>
          if fKind q \<noteq> '''' \<and> Kind env \<noteq> fKind q then query_loop C q kvs results
          else if Since q \<noteq> 0 \<and> Timestamp env < Since q then query_loop C q kvs results
          else query_loop C q kvs (results @ [env]))"

definition Query ::
  "('d, 't) bolt \<Rightarrow> codec \<Rightarrow> QueryFilter \<Rightarrow> 'd \<Rightarrow> envelope list \<times> go_error option"
where
  "Query L C q db =
     (case bolt_View L (\<lambda>tx. query_loop C q (bucket_ForEach L bucketName tx) []) db of
        (err, results) \<Rightarrow> (results, err))"

fun delete_loop :: "('d, 't) bolt \<Rightarrow> string list \<Rightarrow> 't \<Rightarrow> go_error option \<times> 't" where
  "delete_loop L [] tx = (None, tx)"
| "delete_loop L (i # ids) tx =
     (case bucket_Delete L bucketName i tx of
        (Some err, tx') \<Rightarrow> (Some err, tx')
      | (None, tx') \<Rightarrow> delete_loop L ids tx')"

definition Delete :: "('d, 't) bolt \<Rightarrow> string list \<Rightarrow> 'd \<Rightarrow> go_error option \<times> 'd" where
  "Delete L ids db = bolt_Update L (delete_loop L ids) db"

subsection \<open>What the store relies on\<close>

text \<open>
  The documented behaviour of the library, over what the bucket of the source holds: \<open>dv\<close> of a
  database, \<open>tv\<close> of a transaction. \<open>Update\<close> commits all of a function's changes or none;
  \<open>Put\<close> and \<open>Delete\<close> change one key; \<open>ForEach\<close> visits each pair once, in the byte order of
  the keys; \<open>View\<close> runs its function on the database as it is. Any of them may fail.
\<close>

definition update_law ::
  "('d, 't) bolt \<Rightarrow> ('d \<Rightarrow> (string, string) fmap) \<Rightarrow> ('t \<Rightarrow> (string, string) fmap) \<Rightarrow> bool"
where
  "update_law L dv tv \<longleftrightarrow> (\<forall>f d.
     (case bolt_Update L f d of
        (Some e, d') \<Rightarrow> dv d' = dv d
      | (None, d') \<Rightarrow> (\<exists>t t'. tv t = dv d \<and> f t = (None, t') \<and> dv d' = tv t')))"

definition bucket_law :: "('d, 't) bolt \<Rightarrow> ('t \<Rightarrow> (string, string) fmap) \<Rightarrow> bool" where
  "bucket_law L tv \<longleftrightarrow>
     (\<forall>k v t t'. bucket_Put L bucketName k v t = (None, t') \<longrightarrow> tv t' = fmupd k v (tv t)) \<and>
     (\<forall>k t t'. bucket_Delete L bucketName k t = (None, t') \<longrightarrow> tv t' = fmdrop k (tv t)) \<and>
     (\<forall>t t'. CreateBucketIfNotExists L bucketName t = (None, t') \<longrightarrow> tv t' = tv t)"

definition view_law ::
  "('d, 't) bolt \<Rightarrow> ('d \<Rightarrow> (string, string) fmap) \<Rightarrow> ('t \<Rightarrow> (string, string) fmap) \<Rightarrow> bool"
where
  "view_law L dv tv \<longleftrightarrow>
     (\<forall>f d rs. bolt_View L f d = (None, rs) \<longrightarrow> (\<exists>t. tv t = dv d \<and> f t = (None, rs))) \<and>
     (\<forall>t. sorted (map fst (bucket_ForEach L bucketName t)) \<and>
        distinct (map fst (bucket_ForEach L bucketName t)) \<and>
        map_of (bucket_ForEach L bucketName t) = fmlookup (tv t))"

definition bolt_laws ::
  "('d, 't) bolt \<Rightarrow> ('d \<Rightarrow> (string, string) fmap) \<Rightarrow> ('t \<Rightarrow> (string, string) fmap) \<Rightarrow> bool"
where
  "bolt_laws L dv tv \<longleftrightarrow> update_law L dv tv \<and> bucket_law L tv \<and> view_law L dv tv"

definition codec_law :: "codec \<Rightarrow> bool" where
  "codec_law C \<longleftrightarrow> (\<forall>env data. Marshal C env = Inr data \<longrightarrow> Unmarshal C data = Inr env)"

subsection \<open>The bucket as a map of envelopes\<close>

definition store_ok :: "codec \<Rightarrow> (string, string) fmap \<Rightarrow> bool" where
  "store_ok C m \<longleftrightarrow>
     (\<forall>k v. fmlookup m k = Some v \<longrightarrow> (\<exists>env. Unmarshal C v = Inr env \<and> EnvId env = k))"

definition store_of :: "codec \<Rightarrow> (string, string) fmap \<Rightarrow> (string, envelope) fmap" where
  "store_of C m = fmmap (\<lambda>v. projr (Unmarshal C v)) m"

definition matches :: "QueryFilter \<Rightarrow> envelope \<Rightarrow> bool" where
  "matches q env \<longleftrightarrow> (fKind q = '''' \<or> Kind env = fKind q) \<and> (Since q = 0 \<or> Since q \<le> Timestamp env)"

lemma store_of_upd:
  "Unmarshal C v = Inr env \<Longrightarrow> store_of C (fmupd k v m) = fmupd k env (store_of C m)"
  by (auto simp: store_of_def intro!: fmap_ext)

lemma store_of_drop: "store_of C (fmdrop k m) = fmdrop k (store_of C m)"
  by (auto simp: store_of_def intro!: fmap_ext)

lemma store_ok_upd:
  "store_ok C m \<Longrightarrow> Unmarshal C v = Inr env \<Longrightarrow> store_ok C (fmupd (EnvId env) v m)"
  by (auto simp: store_ok_def)

lemma store_ok_drop: "store_ok C m \<Longrightarrow> store_ok C (fmdrop k m)"
  by (auto simp: store_ok_def)

lemma query_loop_all:
  assumes "\<forall>(k, v) \<in> set kvs. \<exists>env. Unmarshal C v = Inr env"
  shows "query_loop C q kvs acc =
    (None, acc @ filter (matches q) (map (\<lambda>(k, v). projr (Unmarshal C v)) kvs))"
  using assms
proof (induction kvs arbitrary: acc)
  case (Cons kv kvs)
  obtain k v where kv: "kv = (k, v)" by fastforce
  with Cons.prems obtain env where "Unmarshal C v = Inr env" by auto
  with Cons kv show ?case by (auto simp: matches_def)
qed simp

lemma delete_loop_view:
  assumes "bucket_law L tv" and "delete_loop L ids t = (None, t')"
  shows "tv t' = fmdrop_set (set ids) (tv t)"
  using assms(2)
proof (induction ids arbitrary: t)
  case (Cons i ids)
  then obtain t1 where d: "bucket_Delete L bucketName i t = (None, t1)"
    and r: "delete_loop L ids t1 = (None, t')"
    by (auto split: prod.splits option.splits)
  from d assms(1) have "tv t1 = fmdrop i (tv t)" by (simp add: bucket_law_def)
  with Cons.IH [OF r] show ?case by (auto intro!: fmap_ext)
qed simp

subsection \<open>The contract of a store of envelopes\<close>

text \<open>
  A store refines a map from ids to envelopes: a save that succeeds sets one id, a deletion that
  succeeds removes the named ids, one that fails changes nothing, and a query that succeeds
  returns exactly the matching envelopes, each once, in the order of their ids.
\<close>

locale envelope_store =
  fixes ok :: "'d \<Rightarrow> bool"
    and abs :: "'d \<Rightarrow> (string, envelope) fmap"
    and save :: "envelope \<Rightarrow> 'd \<Rightarrow> go_error option \<times> 'd"
    and delete :: "string list \<Rightarrow> 'd \<Rightarrow> go_error option \<times> 'd"
    and query :: "QueryFilter \<Rightarrow> 'd \<Rightarrow> envelope list \<times> go_error option"
  assumes keyed: "ok d \<Longrightarrow> fmlookup (abs d) k = Some env \<Longrightarrow> EnvId env = k"
    and save_ok: "ok d \<Longrightarrow> save env d = (None, d') \<Longrightarrow>
      ok d' \<and> abs d' = fmupd (EnvId env) env (abs d)"
    and save_failed: "ok d \<Longrightarrow> save env d = (Some e, d') \<Longrightarrow> ok d' \<and> abs d' = abs d"
    and delete_ok: "ok d \<Longrightarrow> delete ids d = (None, d') \<Longrightarrow>
      ok d' \<and> abs d' = fmdrop_set (set ids) (abs d)"
    and delete_failed: "ok d \<Longrightarrow> delete ids d = (Some e, d') \<Longrightarrow> ok d' \<and> abs d' = abs d"
    and query_ok: "ok d \<Longrightarrow> query q d = (rs, None) \<Longrightarrow>
      set rs = {env. fmlookup (abs d) (EnvId env) = Some env \<and> matches q env} \<and>
      sorted (map EnvId rs) \<and> distinct (map EnvId rs)"
begin

text \<open>The callers ignore the errors of \<open>save\<close> but for a line of log.\<close>

fun save_all :: "envelope list \<Rightarrow> 'd \<Rightarrow> envelope list \<times> 'd" where
  "save_all [] d = ([], d)"
| "save_all (env # envs) d =
     (case save env d of
        (e, d1) \<Rightarrow> (case save_all envs d1 of
           (saved, d2) \<Rightarrow> (if e = None then env # saved else saved, d2)))"

lemma save_all_effect:
  "ok d \<Longrightarrow> save_all envs d = (saved, d') \<Longrightarrow>
     ok d' \<and> abs d' = foldl (\<lambda>m env. fmupd (EnvId env) env m) (abs d) saved \<and> subseq saved envs"
proof (induction envs arbitrary: d d' saved)
  case Nil
  then show ?case by simp
next
  case (Cons env envs)
  obtain e d1 where s: "save env d = (e, d1)" by (cases "save env d")
  obtain saved1 d2 where r: "save_all envs d1 = (saved1, d2)" by (cases "save_all envs d1")
  have d1: "ok d1" "abs d1 = (if e = None then fmupd (EnvId env) env (abs d) else abs d)"
    using save_ok [OF Cons.prems(1)] save_failed [OF Cons.prems(1)] s by (cases e; auto)+
  from Cons.IH [OF d1(1) r] Cons.prems(2) s r d1(2) show ?case
    by (cases e) auto
qed

text \<open>Reading back what was saved.\<close>

lemma saved_found:
  assumes "ok d" and "save env d = (None, d')" and "query q d' = (rs, None)" and "matches q env"
  shows "env \<in> set rs"
  using save_ok [OF assms(1,2)] query_ok [OF _ assms(3)] assms(4) by auto

lemma replaced_not_found:
  assumes "ok d" and "save env d = (None, d')" and "query q d' = (rs, None)"
    and "EnvId old = EnvId env" and "old \<noteq> env"
  shows "old \<notin> set rs"
  using save_ok [OF assms(1,2)] query_ok [OF _ assms(3)] assms(4,5) by auto

lemma deleted_not_found:
  assumes "ok d" and "delete ids d = (None, d')" and "query q d' = (rs, None)"
    and "EnvId env \<in> set ids"
  shows "env \<notin> set rs"
  using delete_ok [OF assms(1,2)] query_ok [OF _ assms(3)] assms(4) by auto

lemma query_after_failed_save:
  assumes "ok d" and "save env d = (Some e, d')" and "query q d = (rs, None)"
    and "query q d' = (rs', None)"
  shows "set rs' = set rs"
  using save_failed [OF assms(1,2)] query_ok [OF assms(1,3)] query_ok [OF _ assms(4)] by auto

end

subsection \<open>The Bolt store is one\<close>

definition bolt_ok ::
  "('d, 't) bolt \<Rightarrow> codec \<Rightarrow> ('d \<Rightarrow> (string, string) fmap) \<Rightarrow> ('t \<Rightarrow> (string, string) fmap) \<Rightarrow> 'd \<Rightarrow> bool"
where
  "bolt_ok L C dv tv d \<longleftrightarrow> bolt_laws L dv tv \<and> codec_law C \<and> store_ok C (dv d)"

lemma updateD:
  assumes "update_law L dv tv"
  shows "bolt_Update L f d = (Some e, d') \<Longrightarrow> dv d' = dv d"
    and "bolt_Update L f d = (None, d') \<Longrightarrow> \<exists>t t'. tv t = dv d \<and> f t = (None, t') \<and> dv d' = tv t'"
  using assms [unfolded update_law_def, rule_format, where f = f and d = d] by simp_all

lemma bolt_save_ok:
  assumes ok: "bolt_ok L C dv tv d" and run: "Save L C env d = (None, d')"
  shows "bolt_ok L C dv tv d' \<and> store_of C (dv d') = fmupd (EnvId env) env (store_of C (dv d))"
proof -
  from ok have laws: "update_law L dv tv" "bucket_law L tv" "codec_law C" "store_ok C (dv d)"
    by (simp_all add: bolt_ok_def bolt_laws_def)
  from run obtain data where m: "Marshal C env = Inr data"
    and u: "bolt_Update L (bucket_Put L bucketName (EnvId env) data) d = (None, d')"
    by (auto simp: Save_def split: sum.splits)
  from updateD(2) [OF laws(1) u] laws(2) have dv: "dv d' = fmupd (EnvId env) data (dv d)"
    by (auto simp: bucket_law_def)
  from m laws(3) have "Unmarshal C data = Inr env" by (simp add: codec_law_def)
  then show ?thesis
    using ok store_ok_upd [OF laws(4)] by (simp add: bolt_ok_def dv store_of_upd)
qed

lemma bolt_save_failed:
  assumes "bolt_ok L C dv tv d" and "Save L C env d = (Some e, d')"
  shows "bolt_ok L C dv tv d' \<and> store_of C (dv d') = store_of C (dv d)"
proof -
  have "dv d' = dv d"
    using assms updateD(1) [of L dv tv]
    by (auto simp: Save_def bolt_ok_def bolt_laws_def split: sum.splits)
  with assms(1) show ?thesis by (simp add: bolt_ok_def)
qed

lemma store_ok_drop_set:
  assumes "store_ok C m" shows "store_ok C (fmdrop_set A m)"
  using assms by (auto simp: store_ok_def)

lemma store_of_drop_set: "store_of C (fmdrop_set A m) = fmdrop_set A (store_of C m)"
  by (auto simp: store_of_def intro!: fmap_ext)

lemma bolt_delete_ok:
  assumes ok: "bolt_ok L C dv tv d" and run: "Delete L ids d = (None, d')"
  shows "bolt_ok L C dv tv d' \<and> store_of C (dv d') = fmdrop_set (set ids) (store_of C (dv d))"
proof -
  from ok have laws: "update_law L dv tv" "bucket_law L tv"
    by (simp_all add: bolt_ok_def bolt_laws_def)
  from run have u: "bolt_Update L (delete_loop L ids) d = (None, d')" by (simp add: Delete_def)
  from updateD(2) [OF laws(1) u]
  obtain t t' where "tv t = dv d" "delete_loop L ids t = (None, t')" "dv d' = tv t'" by blast
  with delete_loop_view [OF laws(2)] have "dv d' = fmdrop_set (set ids) (dv d)" by metis
  with ok show ?thesis by (simp add: bolt_ok_def store_ok_drop_set store_of_drop_set)
qed

lemma bolt_delete_failed:
  assumes "bolt_ok L C dv tv d" and "Delete L ids d = (Some e, d')"
  shows "bolt_ok L C dv tv d' \<and> store_of C (dv d') = store_of C (dv d)"
proof -
  have "dv d' = dv d"
    using assms updateD(1) [of L dv tv] by (auto simp: Delete_def bolt_ok_def bolt_laws_def)
  with assms(1) show ?thesis by (simp add: bolt_ok_def)
qed

lemma bolt_query_list:
  assumes ok: "bolt_ok L C dv tv d" and run: "Query L C q d = (rs, None)"
  obtains kvs where "rs = filter (matches q) (map (\<lambda>(k, v). projr (Unmarshal C v)) kvs)"
    and "sorted (map fst kvs)" "distinct (map fst kvs)" "map_of kvs = fmlookup (dv d)"
    and "\<forall>(k, v) \<in> set kvs. \<exists>env. Unmarshal C v = Inr env \<and> EnvId env = k"
proof -
  from ok have laws: "view_law L dv tv" "store_ok C (dv d)"
    by (simp_all add: bolt_ok_def bolt_laws_def)
  from run have "bolt_View L (\<lambda>tx. query_loop C q (bucket_ForEach L bucketName tx) []) d = (None, rs)"
    by (auto simp: Query_def split: prod.splits)
  with laws(1) have "\<exists>t. tv t = dv d \<and>
      query_loop C q (bucket_ForEach L bucketName t) [] = (None, rs)"
    by (simp add: view_law_def)
  then obtain t where t: "tv t = dv d"
    "query_loop C q (bucket_ForEach L bucketName t) [] = (None, rs)"
    by blast
  define kvs where "kvs = bucket_ForEach L bucketName t"
  have kvs: "sorted (map fst kvs)" "distinct (map fst kvs)" "map_of kvs = fmlookup (dv d)"
    using laws(1) t(1) by (auto simp: view_law_def kvs_def)
  have dec: "\<forall>(k, v) \<in> set kvs. \<exists>env. Unmarshal C v = Inr env \<and> EnvId env = k"
    using laws(2) kvs(2,3) by (auto simp: store_ok_def dest: map_of_is_SomeI)
  then have "query_loop C q kvs [] =
      (None, [] @ filter (matches q) (map (\<lambda>(k, v). projr (Unmarshal C v)) kvs))"
    by (intro query_loop_all) fast
  with t(2) that kvs dec show thesis by (simp add: kvs_def)
qed

lemma bolt_query_ok:
  assumes ok: "bolt_ok L C dv tv d" and run: "Query L C q d = (rs, None)"
  shows "set rs = {env. fmlookup (store_of C (dv d)) (EnvId env) = Some env \<and> matches q env} \<and>
    sorted (map EnvId rs) \<and> distinct (map EnvId rs)"
proof -
  obtain kvs where rs: "rs = filter (matches q) (map (\<lambda>(k, v). projr (Unmarshal C v)) kvs)"
    and kvs: "sorted (map fst kvs)" "distinct (map fst kvs)" "map_of kvs = fmlookup (dv d)"
    and dec: "\<forall>(k, v) \<in> set kvs. \<exists>env. Unmarshal C v = Inr env \<and> EnvId env = k"
    by (rule bolt_query_list [OF ok run])
  have ids: "map EnvId (map (\<lambda>(k, v). projr (Unmarshal C v)) kvs) = map fst kvs"
    using dec by (induction kvs) auto
  have "sorted (map EnvId rs) \<and> distinct (map EnvId rs)"
    unfolding rs using kvs(1,2) ids by (metis distinct_map_filter sorted_filter)
  moreover have "env \<in> set rs \<longleftrightarrow> fmlookup (store_of C (dv d)) (EnvId env) = Some env \<and> matches q env"
    for env
  proof -
    have mem: "(k, v) \<in> set kvs \<longleftrightarrow> fmlookup (dv d) k = Some v" for k v
      using kvs(2,3) by (metis map_of_eq_Some_iff)
    have "(\<exists>(k, v) \<in> set kvs. projr (Unmarshal C v) = env) \<longleftrightarrow>
        fmlookup (store_of C (dv d)) (EnvId env) = Some env"
    proof
      assume "\<exists>(k, v) \<in> set kvs. projr (Unmarshal C v) = env"
      then obtain k v where kv: "(k, v) \<in> set kvs" "projr (Unmarshal C v) = env" by auto
      with dec have "EnvId env = k" by fastforce
      with kv mem show "fmlookup (store_of C (dv d)) (EnvId env) = Some env"
        by (simp add: store_of_def)
    next
      assume "fmlookup (store_of C (dv d)) (EnvId env) = Some env"
      then obtain v where "fmlookup (dv d) (EnvId env) = Some v" "projr (Unmarshal C v) = env"
        by (auto simp: store_of_def)
      with mem show "\<exists>(k, v) \<in> set kvs. projr (Unmarshal C v) = env" by blast
    qed
    then show ?thesis unfolding rs by auto
  qed
  ultimately show ?thesis by blast
qed

lemma bolt_keyed:
  assumes "bolt_ok L C dv tv d" and "fmlookup (store_of C (dv d)) k = Some env"
  shows "EnvId env = k"
proof -
  from assms(2) obtain v where "fmlookup (dv d) k = Some v" "env = projr (Unmarshal C v)"
    by (auto simp: store_of_def)
  with assms(1) show ?thesis by (force simp: bolt_ok_def store_ok_def)
qed

interpretation bolt: envelope_store "bolt_ok L C dv tv" "\<lambda>d. store_of C (dv d)" "Save L C"
  "Delete L" "Query L C"
  for L :: "('d, 't) bolt" and C dv tv
  by unfold_locales
    (rule bolt_keyed bolt_save_ok bolt_save_failed bolt_delete_ok bolt_delete_failed bolt_query_ok; assumption)+

subsection \<open>A fresh store\<close>

lemma NewBoltStorage_empty:
  assumes "bolt_laws L dv tv" and "codec_law C" and "\<And>db. bolt_Open L path = Inr db \<Longrightarrow> dv db = fmempty"
    and "NewBoltStorage L path = Inr d"
  shows "bolt_ok L C dv tv d" and "dv d = fmempty"
proof -
  from assms(4) obtain db where db: "bolt_Open L path = Inr db"
    "bolt_Update L (CreateBucketIfNotExists L bucketName) db = (None, d)"
    by (auto simp: NewBoltStorage_def split: sum.splits prod.splits option.splits)
  from assms(1) have laws: "update_law L dv tv" "bucket_law L tv" by (simp_all add: bolt_laws_def)
  from updateD(2) [OF laws(1) db(2)] laws(2) have "dv d = dv db" by (auto simp: bucket_law_def)
  with assms(3) [OF db(1)] show "dv d = fmempty" by simp
  with assms(1,2) show "bolt_ok L C dv tv d" by (simp add: bolt_ok_def store_ok_def)
qed

end
