(* ===== verification/Http_Api.thy ===== *)
theory Http_Api
  imports Node_Facts Service_Config Bolt_Store
begin

text \<open>
  The REST API of \<open>examples/node/main.go\<close>: the handlers, the writer they answer on and the
  routes. The node's outside world is a pair: the database of the service and the network.

  A JSON document is kept as a value and an error message unrendered; decoding a request body
  into a struct with one string field is given by its result, a function of the field's name.
\<close>

subsection \<open>Responses\<close>

datatype json =
    JNull
  | JStr string
  | JBytes string
  | JMsg go_error
  | JInt int
  | JBool bool
  | JArr "json list"
  | JObj "(string \<times> json) list"

datatype chunk = Bytes string | Msg go_error | Json json

type_synonym headers = "(string, string) fmap"

text \<open>
  \<open>http.ResponseWriter\<close>: the header map that handlers edit, what was sent when the status line
  was written (a copy of the map at that moment), and the body.
\<close>

record response =
  header :: headers
  status_line :: "(nat \<times> headers) option"
  body :: "chunk list"

definition new_response :: response where
  "new_response = \<lparr>header = fmempty, status_line = None, body = []\<rparr>"

definition WriteHeader :: "nat \<Rightarrow> response \<Rightarrow> response" where
  "WriteHeader code w =
     (if status_line w = None then w\<lparr>status_line := Some (code, header w)\<rparr> else w)"

definition SetHeader :: "string \<Rightarrow> string \<Rightarrow> response \<Rightarrow> response" where
  "SetHeader k v w = w\<lparr>header := fmupd k v (header w)\<rparr>"

definition write_chunk :: "chunk \<Rightarrow> response \<Rightarrow> response" where
  "write_chunk b w = (let w' = WriteHeader 200 w in w'\<lparr>body := body w' @ [b]\<rparr>)"

definition http_Error :: "go_error \<Rightarrow> nat \<Rightarrow> response \<Rightarrow> response" where
  "http_Error msg code w =
     write_chunk (Msg msg)
       (WriteHeader code
         (SetHeader ''X-Content-Type-Options'' ''nosniff''
           (SetHeader ''Content-Type'' ''text/plain; charset=utf-8'' w)))"

definition writeJSON :: "json \<Rightarrow> response \<Rightarrow> response" where
  "writeJSON v w = write_chunk (Json v) (SetHeader ''Content-Type'' ''application/json'' w)"

text \<open>What the client gets when the handler has returned.\<close>

definition sent_status :: "response \<Rightarrow> nat" where
  "sent_status w = (case status_line w of None \<Rightarrow> 200 | Some (code, h) \<Rightarrow> code)"

definition sent_header :: "string \<Rightarrow> response \<Rightarrow> string option" where
  "sent_header k w =
     (case status_line w of None \<Rightarrow> fmlookup (header w) k | Some (code, h) \<Rightarrow> fmlookup h k)"

definition StatusAccepted :: nat where "StatusAccepted = 202"
definition StatusNoContent :: nat where "StatusNoContent = 204"
definition StatusPartialContent :: nat where "StatusPartialContent = 206"
definition StatusBadRequest :: nat where "StatusBadRequest = 400"
definition StatusInternalServerError :: nat where "StatusInternalServerError = 500"

subsection \<open>The service\<close>

definition kindLog :: string where "kindLog = ''log''"
definition kindConfig :: string where "kindConfig = ''config''"

record ('d, 'n) service =
  svc_node :: "('d \<times> 'n) node"
  svc_metrics :: metrics
  svc_world :: "'d \<times> 'n"
  svc_allow :: childAllowList

text \<open>The two handlers \<open>main\<close> registers; an error of \<open>Save\<close> is only logged.\<close>

definition save_log :: "('d, 't) bolt \<Rightarrow> codec \<Rightarrow> ('d \<times> 'n) up_handler" where
  "save_log L C c env w = (case w of (d, g) \<Rightarrow> (snd (Save L C env d), g))"

definition save_config :: "('d, 't) bolt \<Rightarrow> codec \<Rightarrow> ('d \<times> 'n) down_handler" where
  "save_config L C env w = (case w of (d, g) \<Rightarrow> (snd (Save L C env d), g))"

definition register_handlers :: "('d, 't) bolt \<Rightarrow> codec \<Rightarrow> ('d \<times> 'n) node \<Rightarrow> ('d \<times> 'n) node" where
  "register_handlers L C n =
     OnDownstream kindConfig (save_config L C) (OnUpstream kindLog (save_log L C) n)"

text \<open>
  The hook given to the node is a method of the shared allow list, so an edit of the list changes
  what the hook answers from then on.
\<close>

definition sync_policy :: "childAllowList \<Rightarrow> 'w node \<Rightarrow> 'w node" where
  "sync_policy l n =
     (case cfg_authorizeChild (cfg n) of
        None \<Rightarrow> n
      | Some _ \<Rightarrow>
          n\<lparr>cfg := (cfg n)\<lparr>cfg_authorizeChild := Some (Authorize l)\<rparr>,
            n_server := map_option (SetAuthorizeChild (Some (Authorize l))) (n_server n)\<rparr>)"

definition edit_policy :: "childAllowList \<Rightarrow> ('d, 'n) service \<Rightarrow> ('d, 'n) service" where
  "edit_policy l y = y\<lparr>svc_allow := l, svc_node := sync_policy l (svc_node y)\<rparr>"

text \<open>
  What a request brings: the body as the decoder sees it, the path value, the query parameter,
  the context; and what the run chooses: two clock readings and the order of a map.
\<close>

record request =
  rq_decode :: "string \<Rightarrow> go_error + string"
  rq_pathValue :: string
  rq_since :: string
  rq_ctx :: ctx
  now1 :: int
  now2 :: int
  map_order :: "string list"

definition parse_failed :: "go_error \<Rightarrow> response \<Rightarrow> response" where
  "parse_failed err w = http_Error (Errorf ''parse json: %v'' [] [err]) StatusBadRequest w"

subsection \<open>Handlers\<close>

definition handleDashboard :: "string \<Rightarrow> response \<Rightarrow> response" where
  "handleDashboard html w =
     write_chunk (Bytes html) (SetHeader ''Content-Type'' ''text/html; charset=utf-8'' w)"

definition handleAgentLog ::
  "('d \<times> 'n) grpc \<Rightarrow> request \<Rightarrow> ('d, 'n) service \<Rightarrow> response \<Rightarrow> response outcome \<times> ('d, 'n) service"
where
  "handleAgentLog N rq y w =
     (case rq_decode rq ''payload'' of
        Inl err \<Rightarrow> (Returned (parse_failed err w), y)
      | Inr p \<Rightarrow>
          (case SendUp N (rq_ctx rq) kindLog p (now1 rq) (now2 rq)
                  (svc_node y) (svc_metrics y) (svc_world y) of
             (r, n', m', w') \<Rightarrow>
               (case r of
                  Panicked \<Rightarrow> Panicked
                | Returned (Some err) \<Rightarrow>
                    Returned (http_Error (Errorf ''send up: %v'' [] [err]) StatusInternalServerError w)
                | Returned None \<Rightarrow>
                    Returned (writeJSON (JObj [(''status'', JStr ''accepted'')]) (WriteHeader StatusAccepted w)),
                y\<lparr>svc_node := n', svc_metrics := m', svc_world := w'\<rparr>)))"

definition handleAdminConfig ::
  "request \<Rightarrow> ('d, 'n) service \<Rightarrow> response \<Rightarrow> response \<times> ('d, 'n) service"
where
  "handleAdminConfig rq y w =
     (case rq_decode rq ''data'' of
        Inl err \<Rightarrow> (parse_failed err w, y)
      | Inr p \<Rightarrow>
          (case SendDown (map_order rq) kindConfig p (now1 rq) (now2 rq) (svc_node y) (svc_metrics y) of
             ((result, err), n', m') \<Rightarrow>
               (if err \<noteq> None then
                  writeJSON (JObj [(''delivered'', JInt (int (Delivered result))),
                                   (''dropped'', JArr (map JStr (Dropped result)))])
                    (WriteHeader StatusPartialContent w)
                else WriteHeader StatusAccepted w,
                y\<lparr>svc_node := n', svc_metrics := m'\<rparr>)))"

definition handleAdminConfigForChild ::
  "request \<Rightarrow> ('d, 'n) service \<Rightarrow> response \<Rightarrow> response \<times> ('d, 'n) service"
where
  "handleAdminConfigForChild rq y w =
     (case rq_decode rq ''data'' of
        Inl err \<Rightarrow> (parse_failed err w, y)
      | Inr p \<Rightarrow>
          (case nodeSendToChild (rq_pathValue rq) kindConfig p (now1 rq) (now2 rq)
                  (svc_node y) (svc_metrics y) of
             (err, n', m') \<Rightarrow>
               (case err of
                  Some e \<Rightarrow> http_Error (Errorf ''send to child: %v'' [] [e]) StatusBadRequest w
                | None \<Rightarrow> WriteHeader StatusAccepted w,
                y\<lparr>svc_node := n', svc_metrics := m'\<rparr>)))"

text \<open>The generated struct tags omit empty fields; a nil slice is encoded as \<open>null\<close>.\<close>

definition env_json :: "envelope \<Rightarrow> json" where
  "env_json env =
     JObj ((if EnvId env \<noteq> '''' then [(''id'', JStr (EnvId env))] else [])
       @ (if Kind env \<noteq> '''' then [(''kind'', JStr (Kind env))] else [])
       @ (if Payload env \<noteq> '''' then [(''payload'', JBytes (Payload env))] else [])
       @ (if Timestamp env \<noteq> 0 then [(''timestamp'', JInt (Timestamp env))] else []))"

definition entries_json :: "envelope list \<Rightarrow> json" where
  "entries_json es = (if es = [] then JNull else JArr (map env_json es))"

definition handleAdminLogs ::
  "('d, 't) bolt \<Rightarrow> codec \<Rightarrow> request \<Rightarrow> ('d, 'n) service \<Rightarrow> response \<Rightarrow> response"
where
  "handleAdminLogs L C rq y w =
     (let since = (if rq_since rq = '''' then Inr 0 else ParseInt (rq_since rq)) in
      case since of
        Inl err \<Rightarrow> http_Error (Errorf ''parse since: %v'' [] [err]) StatusBadRequest w
      | Inr t \<Rightarrow>
          (case Query L C \<lparr>fKind = kindLog, Since = t\<rparr> (fst (svc_world y)) of
             (entries, Some err) \<Rightarrow>
               http_Error (Errorf ''query: %v'' [] [err]) StatusInternalServerError w
           | (entries, None) \<Rightarrow> writeJSON (entries_json entries) w))"

definition handleAdminStatus :: "('d, 'n) service \<Rightarrow> response \<Rightarrow> response" where
  "handleAdminStatus y w =
     writeJSON (JObj
       [(''children_count'', JInt (int (nodeChildrenCount (svc_node y)))),
        (''connected_to_parent'', JBool (ConnectedToParent (svc_node y))),
        (''has_parent'', JBool (HasParent (svc_node y))),
        (''id'', JStr (ID (svc_node y))),
        (''listen_addr'', JStr (ListenAddr (svc_node y)))]) w"

definition handleAdminChildren :: "('d, 'n) service \<Rightarrow> response \<Rightarrow> response" where
  "handleAdminChildren y w =
     writeJSON (JObj [(''children_count'', JInt (int (nodeChildrenCount (svc_node y))))]) w"

definition allowed_json :: "string list \<Rightarrow> childAllowList \<Rightarrow> json" where
  "allowed_json ks l = JObj [(''allowed_child_ids'', JArr (map JStr (allow_List ks l)))]"

definition handleGetAllowedChildren :: "request \<Rightarrow> ('d, 'n) service \<Rightarrow> response \<Rightarrow> response" where
  "handleGetAllowedChildren rq y w = writeJSON (allowed_json (map_order rq) (svc_allow y)) w"

definition handleApproveChild ::
  "request \<Rightarrow> ('d, 'n) service \<Rightarrow> response \<Rightarrow> response \<times> ('d, 'n) service"
where
  "handleApproveChild rq y w =
     (case rq_decode rq ''node_id'' of
        Inl err \<Rightarrow> (parse_failed err w, y)
      | Inr i \<Rightarrow>
          if i = '''' then
            (http_Error (Errorf ''\"node_id\" is required'' [] []) StatusBadRequest w, y)
          else
            (let y' = edit_policy (allow_Add i (svc_allow y)) y in
             (writeJSON (allowed_json (map_order rq) (svc_allow y')) (WriteHeader StatusAccepted w), y')))"

definition handleRevokeChild ::
  "request \<Rightarrow> ('d, 'n) service \<Rightarrow> response \<Rightarrow> response \<times> ('d, 'n) service"
where
  "handleRevokeChild rq y w =
     (WriteHeader StatusNoContent w,
      edit_policy (allow_Remove (rq_pathValue rq) (svc_allow y)) y)"

definition handlePendingChildren :: "request \<Rightarrow> ('d, 'n) service \<Rightarrow> response \<Rightarrow> response" where
  "handlePendingChildren rq y w =
     writeJSON (JArr (map (\<lambda>p. JObj
         [(''first_seen'', JInt (Unix (FirstSeen p))), (''last_reason'', JMsg (LastReason p)),
          (''node_id'', JStr (NodeID p))])
       (nodePendingChildren (map_order rq) (svc_node y)))) w"

subsection \<open>Routes\<close>

text \<open>
  A pattern of \<open>http.ServeMux\<close>: the method, the segments, and whether it ends in a slash and
  so matches everything below. Paths are lists of segments. A pattern for GET also serves HEAD. Of
  the patterns below only the one for the root overlaps with others, and a pattern that names
  its whole path is more specific than it. With no matching pattern the answer is 405 if one
  matches but for its method, and 404 otherwise.
\<close>

datatype seg = Lit string | Wild string

datatype pattern = Pattern (pat_method: string) (pat_segs: "seg list") (pat_subtree: bool)

datatype endpoint =
    Dashboard | AgentLog | AdminConfig | AdminConfigForChild | AdminLogs | AdminStatus
  | AdminChildren | GetAllowedChildren | ApproveChild | RevokeChild | PendingChildrenList | Metrics

definition routes :: "(pattern \<times> endpoint) list" where
  "routes =
    [(Pattern ''GET'' [] True, Dashboard),
     (Pattern ''POST'' [Lit ''api'', Lit ''v1'', Lit ''agent'', Lit ''logs''] False, AgentLog),
     (Pattern ''POST'' [Lit ''api'', Lit ''v1'', Lit ''admin'', Lit ''config''] False, AdminConfig),
     (Pattern ''POST'' [Lit ''api'', Lit ''v1'', Lit ''admin'', Lit ''config'', Wild ''child_id''] False,
        AdminConfigForChild),
     (Pattern ''GET'' [Lit ''api'', Lit ''v1'', Lit ''admin'', Lit ''logs''] False, AdminLogs),
     (Pattern ''GET'' [Lit ''api'', Lit ''v1'', Lit ''admin'', Lit ''status''] False, AdminStatus),
     (Pattern ''GET'' [Lit ''api'', Lit ''v1'', Lit ''admin'', Lit ''children''] False, AdminChildren),
     (Pattern ''GET'' [Lit ''api'', Lit ''v1'', Lit ''admin'', Lit ''allowed-children''] False,
        GetAllowedChildren),
     (Pattern ''POST'' [Lit ''api'', Lit ''v1'', Lit ''admin'', Lit ''allowed-children''] False,
        ApproveChild),
     (Pattern ''DELETE''
        [Lit ''api'', Lit ''v1'', Lit ''admin'', Lit ''allowed-children'', Wild ''node_id''] False,
        RevokeChild),
     (Pattern ''GET'' [Lit ''api'', Lit ''v1'', Lit ''admin'', Lit ''pending-children''] False,
        PendingChildrenList),
     (Pattern ''GET'' [Lit ''metrics''] False, Metrics)]"

fun match_segs :: "seg list \<Rightarrow> bool \<Rightarrow> string list \<Rightarrow> bool" where
  "match_segs [] subtree path \<longleftrightarrow> subtree \<or> path = []"
| "match_segs (Lit s # segs) subtree [] \<longleftrightarrow> False"
| "match_segs (Wild v # segs) subtree [] \<longleftrightarrow> False"
| "match_segs (Lit s # segs) subtree (p # path) \<longleftrightarrow> p = s \<and> match_segs segs subtree path"
| "match_segs (Wild v # segs) subtree (p # path) \<longleftrightarrow> p \<noteq> '''' \<and> match_segs segs subtree path"

definition method_matches :: "string \<Rightarrow> string \<Rightarrow> bool" where
  "method_matches pm m \<longleftrightarrow> pm = m \<or> pm = ''GET'' \<and> m = ''HEAD''"

fun pat_matches :: "string \<Rightarrow> string list \<Rightarrow> pattern \<Rightarrow> bool" where
  "pat_matches m path (Pattern pm segs sub) \<longleftrightarrow> method_matches pm m \<and> match_segs segs sub path"

fun pat_path :: "string list \<Rightarrow> pattern \<Rightarrow> bool" where
  "pat_path path (Pattern pm segs sub) \<longleftrightarrow> match_segs segs sub path"

definition route :: "string \<Rightarrow> string list \<Rightarrow> nat + endpoint" where
  "route m path =
     (case filter (\<lambda>(p, e). pat_matches m path p) routes of
        [] \<Rightarrow> Inl (if list_ex (\<lambda>(p, e). pat_path path p) routes then 405 else 404)
      | (p, e) # others \<Rightarrow>
          (case filter (\<lambda>(p, e). \<not> pat_subtree p) ((p, e) # others) of
             [] \<Rightarrow> Inr e
           | (p', e') # _ \<Rightarrow> Inr e'))"

text \<open>Serving one request; \<open>/metrics\<close> is a handler of the Prometheus library.\<close>

definition serve_request ::
  "('d, 't) bolt \<Rightarrow> codec \<Rightarrow> ('d \<times> 'n) grpc \<Rightarrow> string \<Rightarrow> (metrics \<Rightarrow> response \<Rightarrow> response)
    \<Rightarrow> endpoint \<Rightarrow> request \<Rightarrow> ('d, 'n) service \<Rightarrow> response outcome \<times> ('d, 'n) service"
where
  "serve_request L C N html metrics_handler e rq y =
     (let w = new_response in
      case e of
        Dashboard \<Rightarrow> (Returned (handleDashboard html w), y)
      | AgentLog \<Rightarrow> handleAgentLog N rq y w
      | AdminConfig \<Rightarrow> map_prod Returned id (handleAdminConfig rq y w)
      | AdminConfigForChild \<Rightarrow> map_prod Returned id (handleAdminConfigForChild rq y w)
      | AdminLogs \<Rightarrow> (Returned (handleAdminLogs L C rq y w), y)
      | AdminStatus \<Rightarrow> (Returned (handleAdminStatus y w), y)
      | AdminChildren \<Rightarrow> (Returned (handleAdminChildren y w), y)
      | GetAllowedChildren \<Rightarrow> (Returned (handleGetAllowedChildren rq y w), y)
      | ApproveChild \<Rightarrow> map_prod Returned id (handleApproveChild rq y w)
      | RevokeChild \<Rightarrow> map_prod Returned id (handleRevokeChild rq y w)
      | PendingChildrenList \<Rightarrow> (Returned (handlePendingChildren rq y w), y)
      | Metrics \<Rightarrow> (Returned (metrics_handler (svc_metrics y) w), y))"

subsection \<open>Facts: responses\<close>

lemma status_line_simps [simp]:
  "status_line (SetHeader k v w) = status_line w"
  "status_line (WriteHeader c w) = (case status_line w of None \<Rightarrow> Some (c, header w) | Some s \<Rightarrow> Some s)"
  "status_line (write_chunk b w) = (case status_line w of None \<Rightarrow> Some (200, header w) | Some s \<Rightarrow> Some s)"
  "header (SetHeader k v w) = fmupd k v (header w)"
  "header (WriteHeader c w) = header w" "header (write_chunk b w) = header w"
  "body (SetHeader k v w) = body w" "body (WriteHeader c w) = body w"
  "body (write_chunk b w) = body w @ [b]"
  "status_line new_response = None" "header new_response = fmempty" "body new_response = []"
  by (simp_all add: SetHeader_def WriteHeader_def write_chunk_def new_response_def Let_def
      split: option.split)

lemma sent_writeJSON [simp]:
  "sent_status (writeJSON v w) = sent_status w" "body (writeJSON v w) = body w @ [Json v]"
  by (simp_all add: writeJSON_def sent_status_def split: option.split)

lemma sent_http_Error:
  assumes "status_line w = None"
  shows "sent_status (http_Error e code w) = code" "body (http_Error e code w) = body w @ [Msg e]"
    "sent_header ''Content-Type'' (http_Error e code w) = Some ''text/plain; charset=utf-8''"
  using assms by (simp_all add: http_Error_def sent_status_def sent_header_def)

text \<open>\<open>writeJSON\<close> sets the content type only when nothing has been sent yet.\<close>

lemma writeJSON_content_type:
  "sent_header ''Content-Type'' (writeJSON v w) =
     (case status_line w of None \<Rightarrow> Some ''application/json''
      | Some (c, h) \<Rightarrow> fmlookup h ''Content-Type'')"
  by (simp add: writeJSON_def sent_header_def split: option.split)

lemma sent_status_WriteHeader [simp]:
  "status_line w = None \<Longrightarrow> sent_status (WriteHeader code w) = code"
  by (simp add: sent_status_def)

lemma sent_status_new [simp]: "sent_status new_response = 200"
  by (simp add: sent_status_def)

lemma kinds_nonempty [simp]: "kindLog \<noteq> []" "kindConfig \<noteq> []"
  by (simp_all add: kindLog_def kindConfig_def)

lemma parse_failed_sent:
  "sent_status (parse_failed e new_response) = 400"
  "body (parse_failed e new_response) = [Msg (Errorf ''parse json: %v'' [] [e])]"
  by (simp_all add: parse_failed_def sent_http_Error StatusBadRequest_def)

lemmas status_code_defs = StatusAccepted_def StatusNoContent_def StatusPartialContent_def
  StatusBadRequest_def StatusInternalServerError_def

subsection \<open>Facts: routes\<close>

lemma match_lits: "match_segs (map Lit ss) False path \<longleftrightarrow> path = ss"
  by (induction ss arbitrary: path) (auto split: list.splits elim: match_segs.elims)

lemma match_lits_wild:
  "match_segs (map Lit ss @ [Wild v]) False path \<longleftrightarrow> (\<exists>i. path = ss @ [i] \<and> i \<noteq> '''')"
proof (induction ss arbitrary: path)
  case Nil
  then show ?case by (cases path) auto
next
  case (Cons s ss)
  then show ?case by (cases path) auto
qed

lemma match_lit_patterns:
  "match_segs [Lit a] False path \<longleftrightarrow> path = [a]"
  "match_segs [Lit a, Lit b, Lit c, Lit d] False path \<longleftrightarrow> path = [a, b, c, d]"
  "match_segs [Lit a, Lit b, Lit c, Lit d, Wild v] False path \<longleftrightarrow> (\<exists>i. path = [a, b, c, d, i] \<and> i \<noteq> '''')"
  using match_lits [of "[a]" path] match_lits [of "[a, b, c, d]" path]
    match_lits_wild [of "[a, b, c, d]" v path]
  by simp_all

text \<open>The table of the API, method by method.\<close>

definition api_get :: "string list \<Rightarrow> endpoint" where
  "api_get path =
     (if path = [''api'', ''v1'', ''admin'', ''logs''] then AdminLogs
      else if path = [''api'', ''v1'', ''admin'', ''status''] then AdminStatus
      else if path = [''api'', ''v1'', ''admin'', ''children''] then AdminChildren
      else if path = [''api'', ''v1'', ''admin'', ''allowed-children''] then GetAllowedChildren
      else if path = [''api'', ''v1'', ''admin'', ''pending-children''] then PendingChildrenList
      else if path = [''metrics''] then Metrics
      else Dashboard)"

definition api_post :: "string list \<Rightarrow> nat + endpoint" where
  "api_post path =
     (if path = [''api'', ''v1'', ''agent'', ''logs''] then Inr AgentLog
      else if path = [''api'', ''v1'', ''admin'', ''config''] then Inr AdminConfig
      else if path = [''api'', ''v1'', ''admin'', ''allowed-children''] then Inr ApproveChild
      else if (\<exists>i. path = [''api'', ''v1'', ''admin'', ''config'', i] \<and> i \<noteq> '''') then Inr AdminConfigForChild
      else Inl 405)"

definition api_delete :: "string list \<Rightarrow> nat + endpoint" where
  "api_delete path =
     (if (\<exists>i. path = [''api'', ''v1'', ''admin'', ''allowed-children'', i] \<and> i \<noteq> '''') then Inr RevokeChild
      else Inl 405)"

definition api_table :: "string \<Rightarrow> string list \<Rightarrow> nat + endpoint" where
  "api_table m path =
     (if m = ''GET'' \<or> m = ''HEAD'' then Inr (api_get path)
      else if m = ''POST'' then api_post path
      else if m = ''DELETE'' then api_delete path
      else Inl 405)"

lemma route_405: "list_ex (\<lambda>(p, e). pat_path path p) routes"
  by (simp add: routes_def)

lemma methods_match:
  "method_matches ''GET'' ''GET''" "method_matches ''GET'' ''HEAD''" "\<not> method_matches ''POST'' ''GET''"
  "\<not> method_matches ''POST'' ''HEAD''" "\<not> method_matches ''DELETE'' ''GET''"
  "\<not> method_matches ''DELETE'' ''HEAD''" "\<not> method_matches ''GET'' ''POST''"
  "method_matches ''POST'' ''POST''" "\<not> method_matches ''DELETE'' ''POST''"
  "\<not> method_matches ''GET'' ''DELETE''" "\<not> method_matches ''POST'' ''DELETE''"
  "method_matches ''DELETE'' ''DELETE''"
  by (simp_all add: method_matches_def)

lemma route_get: "route ''GET'' path = Inr (api_get path)"
  unfolding route_def api_get_def routes_def
  by (simp add: match_lit_patterns methods_match del: match_segs.simps(2-5))

lemma route_head: "route ''HEAD'' path = Inr (api_get path)"
  unfolding route_def api_get_def routes_def
  by (simp add: match_lit_patterns methods_match del: match_segs.simps(2-5))

lemma route_post: "route ''POST'' path = api_post path"
  unfolding route_def api_post_def routes_def
  by (auto simp: match_lit_patterns methods_match simp del: match_segs.simps(2-5))

lemma route_delete: "route ''DELETE'' path = api_delete path"
  unfolding route_def api_delete_def routes_def
  by (auto simp: match_lit_patterns methods_match simp del: match_segs.simps(2-5))

lemma route_other:
  assumes "m \<noteq> ''GET''" "m \<noteq> ''HEAD''" "m \<noteq> ''POST''" "m \<noteq> ''DELETE''"
  shows "route m path = Inl 405"
proof -
  have "\<not> method_matches ''GET'' m" "\<not> method_matches ''POST'' m" "\<not> method_matches ''DELETE'' m"
    using assms by (auto simp: method_matches_def)
  then have "filter (\<lambda>(p, e). pat_matches m path p) routes = []" by (simp add: routes_def)
  with route_405 [of path] show ?thesis by (simp add: route_def)
qed

lemma route_eq: "route m path = api_table m path"
  using route_get [of path] route_head [of path] route_post [of path] route_delete [of path]
    route_other [of m path]
  by (cases "m = ''GET''"; cases "m = ''HEAD''"; cases "m = ''POST''"; cases "m = ''DELETE''")
    (simp_all add: api_table_def)

end
