(* ===== verification/Program_Locks.thy ===== *)
theory Program_Locks
  imports Lock_Discipline Http_Api
begin

text \<open>
  The goroutines of a running service (\<open>examples/node\<close> on top of \<open>node\<close> and \<open>transport\<close>), as
  far as they take mutexes, touch shared fields and start each other: one definition per
  function, in the order of its statements. The conditions of the code are choices here, a \<open>return\<close>
  in the middle leaves the rest to the other alternative, and a deferred \<open>Unlock\<close> is
  \<open>locked\<close>. What the functions do to the fields is in the theories of the components. Calls
  of the libraries (gRPC, bbolt, the metrics, which have locks of their own) and waits for a tick,
  a message or the network do not show. That the code keeps the discipline of
  \<open>Lock_Discipline\<close> is the locale \<open>node_hooks\<close>, for any handlers
  that keep it, and its interpretation for those of the service.
\<close>

subsection \<open>Mutexes, fields and goroutines\<close>

text \<open>\<open>SendMu\<close> and \<open>ClientMu\<close> are the mutexes \<open>sendMu\<close> and \<open>mu\<close> of the client.\<close>

datatype mutex = NodeMu | QueueMu | ServerMu | AllowMu | SendMu | ClientMu

text \<open>The only mutex taken while another one is held is \<open>ClientMu\<close>, under \<open>SendMu\<close>.\<close>

fun rank :: "mutex \<Rightarrow> nat" where
  "rank NodeMu = 0"
| "rank QueueMu = 1"
| "rank ServerMu = 2"
| "rank AllowMu = 3"
| "rank SendMu = 4"
| "rank ClientMu = 5"

lemma rank_eq: "rank m = rank m' \<Longrightarrow> m = m'"
  by (cases m; cases m') simp_all

instantiation mutex :: linorder
begin

definition less_eq_mutex :: "mutex \<Rightarrow> mutex \<Rightarrow> bool" where
  "less_eq_mutex m m' \<longleftrightarrow> rank m \<le> rank m'"

definition less_mutex :: "mutex \<Rightarrow> mutex \<Rightarrow> bool" where
  "less_mutex m m' \<longleftrightarrow> rank m < rank m'"

instance
  by standard (auto simp: less_eq_mutex_def less_mutex_def intro: rank_eq)

end

text \<open>
  The fields that several goroutines use and somebody writes: of the node (\<open>N_\<close>), its queue (\<open>Q_\<close>),
  the server (\<open>S_\<close>), the client (\<open>C_\<close>) and the allow list (\<open>L_\<close>). \<open>C_stream\<close> is the sending
  side of the upstream stream, which a call of \<open>Send\<close> writes.
\<close>

datatype field =
    N_handlers | N_server | N_client
  | Q_items
  | S_authorizeChild | S_children | S_anonSeq | S_pending | S_grpcServer
  | C_baseCtx | C_closed | C_upstreamConn | C_upstreamStream | C_downstreamConn
  | C_downstreamStream | C_downstreamCancel | C_stream
  | L_allowed

text \<open>The mutex that guards a field; three fields have none.\<close>

fun guard :: "field \<Rightarrow> mutex option" where
  "guard N_handlers = Some NodeMu"
| "guard Q_items = Some QueueMu"
| "guard S_authorizeChild = Some ServerMu"
| "guard S_children = Some ServerMu"
| "guard S_anonSeq = Some ServerMu"
| "guard S_pending = Some ServerMu"
| "guard C_baseCtx = Some ClientMu"
| "guard C_closed = Some ClientMu"
| "guard C_upstreamConn = Some ClientMu"
| "guard C_upstreamStream = Some ClientMu"
| "guard C_downstreamConn = Some ClientMu"
| "guard C_downstreamStream = Some ClientMu"
| "guard C_downstreamCancel = Some ClientMu"
| "guard C_stream = Some SendMu"
| "guard L_allowed = Some AllowMu"
| "guard N_server = None"
| "guard N_client = None"
| "guard S_grpcServer = None"

text \<open>
  The goroutines: the \<open>go\<close> statements of the program, the RPC handlers that gRPC starts and the
  requests that the HTTP server starts.
\<close>

datatype activity =
    ListenServe | UpstreamRPC | DownstreamRPC
  | ReconnectLoop | RecvLoop | RetryLoop
  | ApiServer | Serving endpoint

type_synonym code = "(mutex, field, activity) stmt list"

definition locked :: "mutex \<Rightarrow> code \<Rightarrow> code" where
  "locked mu c = Acquire Exclusive mu # c @ [Release mu]"

definition rlocked :: "mutex \<Rightarrow> code \<Rightarrow> code" where
  "rlocked mu c = Acquire Shared mu # c @ [Release mu]"

text \<open>
  What the service plugs into the framework: the bodies of its handlers for what comes from below
  and from above, and the hook that authorizes a child. They may call back into their node.
\<close>

record hooks =
  up_code :: code
  down_code :: code
  hook_code :: code

subsection \<open>The allow list\<close>

definition Add_locks :: code where
  "Add_locks = locked AllowMu [Put L_allowed]"

definition Remove_locks :: code where
  "Remove_locks = locked AllowMu [Put L_allowed]"

definition List_locks :: code where
  "List_locks = rlocked AllowMu [Get L_allowed, Repeat [Get L_allowed]]"

definition contains_locks :: code where
  "contains_locks = rlocked AllowMu [Get L_allowed]"

definition Authorize_locks :: code where
  "Authorize_locks = [Branch [] contains_locks]"

subsection \<open>The server\<close>

definition PendingChildren_locks :: code where
  "PendingChildren_locks = locked ServerMu [Get S_pending, Repeat [Get S_pending]]"

definition SetAuthorizeChild_locks :: code where
  "SetAuthorizeChild_locks = locked ServerMu [Put S_authorizeChild]"

text \<open>\<open>Serve\<close> starts a handler per call of a child.\<close>

definition Listen_locks :: code where
  "Listen_locks =
     [Branch []
        [Put S_grpcServer, Get S_grpcServer, Get S_grpcServer,
         Repeat [Branch [Go UpstreamRPC] [Go DownstreamRPC]]]]"

definition ServerStop_locks :: code where
  "ServerStop_locks = [Get S_grpcServer, Branch [Get S_grpcServer] []]"

definition ChildrenCount_locks :: code where
  "ChildrenCount_locks = locked ServerMu [Get S_children]"

definition BroadcastDownstream_locks :: code where
  "BroadcastDownstream_locks =
     locked ServerMu [Get S_children, Repeat [Get S_children], Branch [Get S_children] []]"

definition SendToChild_locks :: code where
  "SendToChild_locks = locked ServerMu [Get S_children]"

definition recordRejection_locks :: code where
  "recordRejection_locks =
     [Branch [] (locked ServerMu [Get S_pending, Branch [] [Put S_pending]])]"

definition clearRejection_locks :: code where
  "clearRejection_locks = locked ServerMu [Put S_pending]"

text \<open>The hook, the default one or that of the service, runs outside the mutex.\<close>

definition authorize_locks :: "hooks \<Rightarrow> code" where
  "authorize_locks hs =
     locked ServerMu [Get S_authorizeChild] @ [Branch [] (hook_code hs),
       Branch recordRejection_locks clearRejection_locks]"

definition registerChild_locks :: code where
  "registerChild_locks =
     locked ServerMu
       [Branch
          [Get S_anonSeq, Put S_anonSeq, Get S_anonSeq]
          [Get S_children, Branch [Get S_anonSeq, Put S_anonSeq, Get S_anonSeq] []],
        Put S_children]"

definition unregisterChild_locks :: code where
  "unregisterChild_locks = locked ServerMu [Put S_children]"

definition Downstream_locks :: "hooks \<Rightarrow> code" where
  "Downstream_locks hs =
     authorize_locks hs @
     [Branch []
        (registerChild_locks @ ChildrenCount_locks @ unregisterChild_locks @ ChildrenCount_locks)]"

subsection \<open>The client\<close>

definition reopenUpstream_locks :: code where
  "reopenUpstream_locks =
     [Acquire Exclusive ClientMu, Get C_closed,
      Branch [Release ClientMu]
        [Get C_baseCtx, Release ClientMu,
         Branch []
           [Branch []
              [Acquire Exclusive ClientMu, Get C_upstreamConn, Branch [Get C_upstreamConn] [],
               Put C_upstreamConn, Put C_upstreamStream, Release ClientMu]]]]"

definition reopenDownstream_locks :: code where
  "reopenDownstream_locks =
     [Acquire Exclusive ClientMu, Get C_closed,
      Branch [Release ClientMu]
        [Get C_baseCtx, Get C_downstreamCancel, Release ClientMu,
         Branch []
           [Branch []
              [Acquire Exclusive ClientMu, Get C_downstreamConn, Branch [Get C_downstreamConn] [],
               Put C_downstreamConn, Put C_downstreamStream, Put C_downstreamCancel,
               Release ClientMu, Go RecvLoop]]]]"

definition Connect_locks :: code where
  "Connect_locks =
     locked ClientMu [Put C_baseCtx] @ reopenUpstream_locks @ reopenDownstream_locks @
     [Go ReconnectLoop]"

text \<open>The loop ends with the context, or after a look that found the client closed.\<close>

definition reconnectLoop_locks :: code where
  "reconnectLoop_locks =
     (let look = locked ClientMu [Get C_closed, Get C_upstreamStream, Get C_downstreamStream]
      in [Repeat (look @ [Branch reopenUpstream_locks [], Branch reopenDownstream_locks []]),
          Branch [] look])"

definition sendUpstream_locks :: code where
  "sendUpstream_locks =
     (let read = locked ClientMu [Get C_upstreamStream];
          send = [Put C_stream, Branch reopenUpstream_locks []]
      in locked SendMu
           (read @ [Branch (reopenUpstream_locks @ [Branch [] (read @ send)]) send]))"

definition Connected_locks :: code where
  "Connected_locks =
     locked ClientMu
       [Get C_closed, Branch [] [Get C_upstreamStream, Branch [] [Get C_downstreamStream]]]"

definition Close_locks :: code where
  "Close_locks =
     locked ClientMu
       [Put C_closed, Get C_downstreamCancel, Branch [Get C_downstreamCancel] [],
        Get C_upstreamConn, Branch [Get C_upstreamConn] [],
        Get C_downstreamConn, Branch [Get C_downstreamConn] []]"

subsection \<open>The node\<close>

definition push_locks :: code where
  "push_locks = locked QueueMu [Get Q_items, Put Q_items]"

definition drain_locks :: code where
  "drain_locks = locked QueueMu [Get Q_items, Put Q_items]"

definition OnUpstream_locks :: code where
  "OnUpstream_locks = locked NodeMu [Get N_handlers, Put N_handlers]"

definition OnDownstream_locks :: code where
  "OnDownstream_locks = locked NodeMu [Get N_handlers, Put N_handlers]"

text \<open>The handlers run outside the mutex, on a copy of the list.\<close>

definition runUpstreamHandlers_locks :: "hooks \<Rightarrow> code" where
  "runUpstreamHandlers_locks hs = locked NodeMu [Get N_handlers] @ [Repeat (up_code hs)]"

definition runDownstreamHandlers_locks :: "hooks \<Rightarrow> code" where
  "runDownstreamHandlers_locks hs = locked NodeMu [Get N_handlers] @ [Repeat (down_code hs)]"

definition forwardUp_locks :: code where
  "forwardUp_locks =
     [Get N_client, Branch [] (Get N_client # sendUpstream_locks @ [Branch push_locks []])]"

definition SendUp_locks :: "hooks \<Rightarrow> code" where
  "SendUp_locks hs = runUpstreamHandlers_locks hs @ forwardUp_locks"

definition handleUpstreamFromChild_locks :: "hooks \<Rightarrow> code" where
  "handleUpstreamFromChild_locks hs = runUpstreamHandlers_locks hs @ forwardUp_locks"

definition handleDownstreamFromParent_locks :: "hooks \<Rightarrow> code" where
  "handleDownstreamFromParent_locks hs =
     runDownstreamHandlers_locks hs @
     [Get N_server, Branch (Get N_server # BroadcastDownstream_locks) []]"

text \<open>The RPC of the server and the loop of the client that call these hooks.\<close>

definition Upstream_locks :: "hooks \<Rightarrow> code" where
  "Upstream_locks hs =
     authorize_locks hs @ [Branch [] [Repeat [Branch (handleUpstreamFromChild_locks hs) []]]]"

definition recvLoop_locks :: "hooks \<Rightarrow> code" where
  "recvLoop_locks hs =
     [Repeat [Branch (handleDownstreamFromParent_locks hs) []],
      Acquire Exclusive ClientMu, Get C_downstreamStream, Branch [Put C_downstreamStream] [],
      Release ClientMu]"

definition retryLoop_locks :: code where
  "retryLoop_locks =
     [Repeat (drain_locks @ [Repeat (Get N_client # sendUpstream_locks @ [Branch push_locks []])])]"

text \<open>\<open>Connect\<close> returns no error, and \<open>Start\<close> is called once.\<close>

definition Start_locks :: code where
  "Start_locks =
     [Branch
        [Put N_server, Branch (Get N_server # SetAuthorizeChild_locks) [], Go ListenServe] [],
      Branch ([Put N_client, Get N_client] @ Connect_locks @ [Go RetryLoop]) []]"

definition Stop_locks :: code where
  "Stop_locks =
     [Get N_client, Branch (Get N_client # Close_locks) [],
      Get N_server, Branch (Get N_server # ServerStop_locks) []]"

definition ConnectedToParent_locks :: code where
  "ConnectedToParent_locks = [Get N_client, Branch (Get N_client # Connected_locks) []]"

definition NodeChildrenCount_locks :: code where
  "NodeChildrenCount_locks = [Get N_server, Branch [] (Get N_server # ChildrenCount_locks)]"

definition NodePendingChildren_locks :: code where
  "NodePendingChildren_locks = [Get N_server, Branch [] (Get N_server # PendingChildren_locks)]"

definition SendDown_locks :: code where
  "SendDown_locks = [Get N_server, Branch [] (Get N_server # BroadcastDownstream_locks)]"

definition NodeSendToChild_locks :: code where
  "NodeSendToChild_locks = [Get N_server, Branch [] (Get N_server # SendToChild_locks)]"

subsection \<open>The service\<close>

text \<open>One request of the API; what comes before a choice may have failed to parse.\<close>

fun endpoint_locks :: "hooks \<Rightarrow> endpoint \<Rightarrow> code" where
  "endpoint_locks hs Dashboard = []"
| "endpoint_locks hs AgentLog = [Branch [] (SendUp_locks hs)]"
| "endpoint_locks hs AdminConfig = [Branch [] (NodeChildrenCount_locks @ SendDown_locks)]"
| "endpoint_locks hs AdminConfigForChild = [Branch [] NodeSendToChild_locks]"
| "endpoint_locks hs AdminLogs = []"
| "endpoint_locks hs AdminStatus = ConnectedToParent_locks @ NodeChildrenCount_locks"
| "endpoint_locks hs AdminChildren = NodeChildrenCount_locks"
| "endpoint_locks hs GetAllowedChildren = List_locks"
| "endpoint_locks hs ApproveChild = [Branch [] (Add_locks @ List_locks)]"
| "endpoint_locks hs RevokeChild = Remove_locks"
| "endpoint_locks hs PendingChildrenList = NodePendingChildren_locks"
| "endpoint_locks hs Metrics = []"

text \<open>The goroutine of the HTTP server starts one for every request that has a route.\<close>

fun serve_locks :: "endpoint list \<Rightarrow> code" where
  "serve_locks [] = []"
| "serve_locks (e # es) = [Branch [Go (Serving e)] (serve_locks es)]"

definition startAPIServer_locks :: code where
  "startAPIServer_locks = [Repeat (serve_locks (map snd routes))]"

text \<open>The goroutine of \<open>main\<close>, up to its end after the signal.\<close>

definition main_locks :: code where
  "main_locks =
     [Branch List_locks []] @ OnUpstream_locks @ OnDownstream_locks @ Start_locks @
     [Branch [Go ApiServer] []] @ Stop_locks"

fun goroutine :: "hooks \<Rightarrow> activity \<Rightarrow> code" where
  "goroutine hs ListenServe = Get N_server # Listen_locks"
| "goroutine hs UpstreamRPC = Upstream_locks hs"
| "goroutine hs DownstreamRPC = Downstream_locks hs"
| "goroutine hs ReconnectLoop = reconnectLoop_locks"
| "goroutine hs RecvLoop = recvLoop_locks hs"
| "goroutine hs RetryLoop = retryLoop_locks"
| "goroutine hs ApiServer = startAPIServer_locks"
| "goroutine hs (Serving e) = endpoint_locks hs e"

text \<open>The handlers of the service save the envelope; its hook is the allow list.\<close>

definition service_hooks :: hooks where
  "service_hooks = \<lparr>up_code = [], down_code = [], hook_code = Authorize_locks\<rparr>"

subsection \<open>The program keeps the discipline\<close>

text \<open>
  What the framework needs of the code plugged into it: the discipline, from no mutex held to none
  held, and that it does not set the server of the node, a private field.
\<close>

definition disciplined :: "hooks \<Rightarrow> bool" where
  "disciplined hs \<longleftrightarrow>
     list_all (\<lambda>c. run_held guard [] c = Some [] \<and> written_early N_server False c \<noteq> None)
       [up_code hs, down_code hs, hook_code hs]"

lemmas locks_defs =
  Add_locks_def Remove_locks_def List_locks_def contains_locks_def Authorize_locks_def
  PendingChildren_locks_def SetAuthorizeChild_locks_def Listen_locks_def ServerStop_locks_def
  ChildrenCount_locks_def BroadcastDownstream_locks_def SendToChild_locks_def
  recordRejection_locks_def clearRejection_locks_def authorize_locks_def registerChild_locks_def
  unregisterChild_locks_def Downstream_locks_def reopenUpstream_locks_def
  reopenDownstream_locks_def reconnectLoop_locks_def sendUpstream_locks_def Connected_locks_def
  push_locks_def drain_locks_def runUpstreamHandlers_locks_def runDownstreamHandlers_locks_def
  forwardUp_locks_def SendUp_locks_def handleUpstreamFromChild_locks_def
  handleDownstreamFromParent_locks_def Upstream_locks_def recvLoop_locks_def retryLoop_locks_def
  ConnectedToParent_locks_def NodeChildrenCount_locks_def NodePendingChildren_locks_def
  SendDown_locks_def NodeSendToChild_locks_def startAPIServer_locks_def routes_def
  locked_def rlocked_def

text \<open>
  Every function gives back what it takes, takes \<open>ClientMu\<close> at most under \<open>SendMu\<close> and nothing else
  under another mutex, and touches the guarded fields under their guards. What is plugged
  in runs with no mutex held.
\<close>

lemma goroutine_run_held:
  assumes "disciplined hs"
  shows "run_held guard [] (goroutine hs x) = Some []"
proof -
  have hs: "run_held guard [] (up_code hs) = Some []" "run_held guard [] (down_code hs) = Some []"
    "run_held guard [] (hook_code hs) = Some []"
    using assms by (simp_all add: disciplined_def)
  have "run_held guard [] (endpoint_locks hs e) = Some []" for e
    by (cases e) (simp_all add: locks_defs guarded_def less_mutex_def hs Let_def)
  then show ?thesis
    by (cases x) (simp_all add: locks_defs guarded_def less_mutex_def hs Let_def)
qed

lemma main_run_held: "run_held guard [] main_locks = Some []"
  by code_simp

text \<open>The server of a node is set before the first goroutine starts.\<close>

lemma goroutine_server_early:
  assumes "disciplined hs"
  shows "written_early N_server False (goroutine hs x) \<noteq> None"
proof -
  have hs: "written_early N_server False (up_code hs) = Some False"
    "written_early N_server False (down_code hs) = Some False"
    "written_early N_server False (hook_code hs) = Some False"
    using assms by (simp_all add: disciplined_def written_early_False)
  have "written_early N_server False (endpoint_locks hs e) \<noteq> None" for e
    by (cases e) (simp_all add: locks_defs hs Let_def)
  then show ?thesis
    by (cases x) (simp_all add: locks_defs hs Let_def)
qed

lemma main_server_early: "written_early N_server True main_locks \<noteq> None"
  by code_simp

text \<open>So a program of the framework with any disciplined hooks keeps the discipline.\<close>

locale node_hooks =
  fixes hs :: hooks
  assumes disciplined: "disciplined hs"

sublocale node_hooks \<subseteq> lock_discipline guard "goroutine hs" main_locks
  by unfold_locales (simp_all add: goroutine_run_held disciplined main_run_held)

context node_hooks
begin

lemma progress:
  assumes "sys_reach (goroutine hs) main_locks ts" and "\<exists>th \<in> set ts. snd th \<noteq> []"
  shows "\<exists>i < length ts. ready ts (ts ! i) \<and> (\<exists>ts'. sys_step (goroutine hs) ts ts')"
proof -
  obtain th where "th \<in> set ts" "ready ts th" using somebody_ready [OF assms] by blast
  then obtain i where "i < length ts" "ready ts (ts ! i)" by (auto simp: in_set_conv_nth)
  with ready_steps show ?thesis by blast
qed

lemma excluded:
  assumes "sys_reach (goroutine hs) main_locks ts"
  shows "\<forall>i < length ts. \<forall>j < length ts. \<forall>m k.
    (m, Exclusive) \<in> set (fst (ts ! i)) \<and> (m, k) \<in> set (fst (ts ! j)) \<longrightarrow> i = j"
  using mutual_exclusion [OF assms] by blast

lemma field_race_free:
  assumes reach: "sys_reach (goroutine hs) main_locks ts" and f: "f \<noteq> N_client" "f \<noteq> S_grpcServer"
  shows "\<not> race f ts"
proof (cases "guard f")
  case None
  with f have "f = N_server" by (cases f) simp_all
  then show ?thesis
    using written_early_race_free [OF reach main_server_early goroutine_server_early [OF disciplined]] by simp
next
  case (Some m)
  then show ?thesis by (rule race_free [OF reach])
qed

end

interpretation service: node_hooks service_hooks
  by unfold_locales code_simp

end
