(* ===== verification/Lock_Properties.thy ===== *)
theory Lock_Properties
  imports Program_Locks
begin

text \<open>
  What the discipline of \<open>Program_Locks\<close> gives for all interleavings of the goroutines of a node
  with its service, and the two fields that it does not cover.
\<close>

subsection \<open>Runs up to a point\<close>

text \<open>
  A node that listens: \<open>main\<close> up to the \<open>go\<close> statement that starts \<open>Listen\<close>, then \<open>Listen\<close> up
  to its first RPC, and that RPC, admitted by the default hook, up to its first envelope. A step
  is the number of a goroutine with the way it takes at a choice.
\<close>

abbreviation steps :: "nat \<Rightarrow> nat \<Rightarrow> (nat \<times> bool) list" where
  "steps k i \<equiv> replicate k (i, True)"

definition until_listening :: "(nat \<times> bool) list" where
  "until_listening = (0, False) # steps 10 0 @ (0, False) # steps 1 0"

definition until_serving :: "(nat \<times> bool) list" where
  "until_serving = (1, True) # (1, False) # steps 6 1"

definition until_forwarding :: "(nat \<times> bool) list" where
  "until_forwarding =
     steps 4 2 @ (2, False) # steps 3 2 @ (2, False) # steps 5 2 @ [(2, False)]"

definition run_main :: "hooks \<Rightarrow> (nat \<times> bool) list \<Rightarrow> (mutex, field, activity) thread list option" where
  "run_main hs s = sched (goroutine hs) s [([], main_locks)]"

lemma run_main_reach: "run_main hs s = Some ts \<Longrightarrow> sys_reach (goroutine hs) main_locks ts"
  unfolding run_main_def by (rule sched_reach [OF _ sys_reach.sys_start])

text \<open>A race that a run leads to, found by execution.\<close>

definition races_after :: "hooks \<Rightarrow> field \<Rightarrow> (nat \<times> bool) list \<Rightarrow> nat \<Rightarrow> nat \<Rightarrow> bool" where
  "races_after hs f s i j \<longleftrightarrow>
     (case run_main hs s of
        None \<Rightarrow> False
      | Some ts \<Rightarrow>
          i < length ts \<and> j < length ts \<and> i \<noteq> j \<and> next_access (snd (ts ! i)) = Some (f, True) \<and>
          next_access (snd (ts ! j)) \<in> {Some (f, True), Some (f, False)})"

lemma races_after_race:
  assumes "races_after hs f s i j"
  shows "\<exists>ts. sys_reach (goroutine hs) main_locks ts \<and> race f ts"
proof -
  obtain ts where "run_main hs s = Some ts" and ij: "i < length ts" "j < length ts" "i \<noteq> j"
    "next_access (snd (ts ! i)) = Some (f, True)"
    "next_access (snd (ts ! j)) = Some (f, True) \<or> next_access (snd (ts ! j)) = Some (f, False)"
    using assms unfolding races_after_def by (auto split: option.splits)
  moreover from ij have "race f ts" unfolding race_def by blast
  ultimately show ?thesis using run_main_reach by blast
qed

lemma client_raced:
  "races_after service_hooks N_client
     (until_listening @ [(0, True)] @ until_serving @ until_forwarding) 0 2"
  by code_simp

lemma grpc_server_raced:
  "races_after service_hooks S_grpcServer
     (until_listening @ [(0, False), (0, False), (0, True), (0, False), (0, True), (0, True), (0, True),
        (1, True), (1, False)]) 1 0"
  by code_simp

subsection \<open>Handlers that call their node\<close>

text \<open>
  Handlers and a hook that use the node they are plugged into: what comes from below is pushed
  down and makes the handler register another one, what comes from above is answered upwards, and the
  hook looks at the children that wait for approval.
\<close>

definition busy_hooks :: hooks where
  "busy_hooks =
     \<lparr>up_code = SendDown_locks @ OnUpstream_locks, down_code = SendUp_locks service_hooks,
      hook_code = NodePendingChildren_locks\<rparr>"

lemma busy_hooks_disciplined: "disciplined busy_hooks"
  by code_simp

text \<open>Two RPCs of such a node, of which one holds the mutex of the server and the other waits for it.\<close>

definition crowded :: "(mutex, field, activity) thread list" where
  "crowded = the (run_main busy_hooks (until_listening @ until_serving @ steps 3 1 @ steps 1 2))"

lemma crowded_run:
  "run_main busy_hooks (until_listening @ until_serving @ steps 3 1 @ steps 1 2) = Some crowded"
  unfolding crowded_def by (rule option.collapse [symmetric]) code_simp

lemma crowded_facts:
  "\<exists>th \<in> set crowded. snd th \<noteq> []" "fst (crowded ! 2) = [(ServerMu, Exclusive)]"
  "\<not> ready crowded (crowded ! 3)" "length crowded = 4"
  by code_simp+

subsection \<open>Properties\<close>

text \<open>
  C6. No interleaving of the goroutines of a node deadlocks on the mutexes of the program, whatever
  handlers the service plugs in, as long as each of them by itself takes and gives back the
  mutexes in order, also by calls of its own node: while one goroutine has something left to do, one
  of them can go on whatever the others do, and its step is possible.
\<close>

theorem goroutines_never_deadlock:
  assumes "disciplined hs" and "sys_reach (goroutine hs) main_locks ts"
    and "\<exists>th \<in> set ts. snd th \<noteq> []"
  shows "\<exists>i < length ts. ready ts (ts ! i) \<and> (\<exists>ts'. sys_step (goroutine hs) ts ts')"
  by (rule node_hooks.progress [OF node_hooks.intro [OF assms(1)] assms(2,3)])

theorem goroutines_never_deadlock_witness:
  "\<not> ready crowded (crowded ! 3) \<and>
   (\<exists>i < length crowded.
      ready crowded (crowded ! i) \<and> (\<exists>ts'. sys_step (goroutine busy_hooks) crowded ts'))"
  using goroutines_never_deadlock
      [OF busy_hooks_disciplined run_main_reach [OF crowded_run] crowded_facts(1)]
    crowded_facts(3) by blast

text \<open>
  C7. In every interleaving of the goroutines of a node, again with any such handlers, critical
  sections exclude each other: a mutex held exclusively is held by one goroutine alone. No
  interleaving comes to a data race
  on a field of the program other than the client of the node and the gRPC server of its server: two
  goroutines are never about to access it with one of them about to write. In particular two
  calls of \<open>Send\<close> on the upstream stream never overlap.
\<close>

theorem other_fields_race_free:
  assumes "disciplined hs" and "sys_reach (goroutine hs) main_locks ts"
    and "f \<noteq> N_client" and "f \<noteq> S_grpcServer"
  shows "\<not> race f ts \<and>
    (\<forall>i < length ts. \<forall>j < length ts. \<forall>m k.
       (m, Exclusive) \<in> set (fst (ts ! i)) \<and> (m, k) \<in> set (fst (ts ! j)) \<longrightarrow> i = j)"
proof -
  note node = node_hooks.intro [OF assms(1)]
  show ?thesis
    using node_hooks.field_race_free [OF node assms(2-4)] node_hooks.excluded [OF node assms(2)] by blast
qed

theorem other_fields_race_free_witness:
  "\<not> race S_pending crowded \<and> \<not> race N_server crowded \<and>
   (\<forall>k. (ServerMu, k) \<notin> set (fst (crowded ! 3)))"
proof -
  note free = other_fields_race_free [OF busy_hooks_disciplined run_main_reach [OF crowded_run]]
  have "(ServerMu, Exclusive) \<in> set (fst (crowded ! 2))" by (simp add: crowded_facts(2))
  then have "\<not> (ServerMu, k) \<in> set (fst (crowded ! 3))" for k
    using free [of S_pending, THEN conjunct2, rule_format, of 2 3 ServerMu k] crowded_facts(4) by auto
  with free show ?thesis by simp
qed

text \<open>
  C31. The other two fields do race, already in the example service. \<open>Start\<close> sets the client of the
  node after it has started \<open>Listen\<close>, whose handlers read it to forward what a child sends.
  \<open>Listen\<close> sets the gRPC server in its own goroutine, where \<open>Stop\<close> reads it, although the comment in
  the struct says that the mutex of the server guards everything below it.
\<close>

theorem unguarded_fields_race:
  "(\<exists>ts. sys_reach (goroutine service_hooks) main_locks ts \<and> race N_client ts) \<and>
   (\<exists>ts. sys_reach (goroutine service_hooks) main_locks ts \<and> race S_grpcServer ts)"
  using races_after_race [OF client_raced] races_after_race [OF grpc_server_raced] by blast

end
