(* ===== verification/Service_Facts.thy ===== *)
theory Service_Facts
  imports Http_Api
begin

text \<open>
  The service as a whole: the invariant that every request of its API preserves, and the effect
  of the requests that change its state.
\<close>

subsection \<open>Frames\<close>

lemma broadcast_loop_frame:
  "broadcast_loop env ks r s m = (r', s', m') \<Longrightarrow> s' = s\<lparr>chans := chans s'\<rparr>"
proof (induction ks arbitrary: r s m)
  case (Cons k ks)
  show ?case
  proof (cases "fmlookup (children s) k")
    case (Some c)
    show ?thesis
    proof (cases "try_send c env s")
      case None
      with Cons Some show ?thesis by auto
    next
      case (Some s1)
      then have "s1 = s\<lparr>chans := chans s1\<rparr>" by (auto simp: try_send_eq split: if_splits)
      moreover have "s' = s1\<lparr>chans := chans s'\<rparr>"
        using Cons.IH Cons.prems Some \<open>fmlookup (children s) k = Some c\<close> by auto
      ultimately show ?thesis by (cases s; cases s1; cases s') simp
    qed
  qed (use Cons in auto)
qed simp

lemma Broadcast_frame:
  assumes "BroadcastDownstream ks env s m = (re, s', m')"
  shows "authorizeChild s' = authorizeChild s" "children s' = children s" "pending s' = pending s"
    "next_chan s' = next_chan s"
proof -
  have "s' = s\<lparr>chans := chans s'\<rparr>"
    using assms by (auto simp: BroadcastDownstream_def split: prod.splits dest: broadcast_loop_frame)
  then show "authorizeChild s' = authorizeChild s" "children s' = children s" "pending s' = pending s"
      "next_chan s' = next_chan s"
    by (metis server.select_convs server.update_convs(7) server.surjective)+
qed

lemma SendToChild_frame:
  assumes "SendToChild k env s m = (e, s', m')"
  shows "authorizeChild s' = authorizeChild s" "children s' = children s" "pending s' = pending s"
    "next_chan s' = next_chan s"
  using assms by (auto simp: SendToChild_eq split: option.splits if_splits)

subsection \<open>The invariant of the service\<close>

text \<open>
  The node answers children with the current allow list (if it restricts them at all), its
  server is well-formed, and the handlers are the two that \<open>main\<close> registered.
\<close>

definition policy_current :: "childAllowList \<Rightarrow> 'w node \<Rightarrow> bool" where
  "policy_current l n \<longleftrightarrow>
     (cfg_authorizeChild (cfg n) = None \<or>
      cfg_authorizeChild (cfg n) = Some (Authorize l) \<and>
      (\<forall>s. n_server n = Some s \<longrightarrow> authorizeChild s = Authorize l))"

definition node_ok :: "'w node \<Rightarrow> bool" where
  "node_ok n \<longleftrightarrow> (\<forall>s. n_server n = Some s \<longrightarrow> server_ok s)"

definition static_parent :: "'w node \<Rightarrow> bool" where
  "static_parent n \<longleftrightarrow>
     cfg_resolver (cfg n) = None \<or> (\<exists>a. cfg_resolver (cfg n) = Some (static_resolver a))"

lemma static_parent_net:
  assumes "static_parent n" and "net_frame I N"
  shows "net_frame I (node_net N n)"
  using assms
  by (auto simp: static_parent_def node_net_def static_resolver_def net_frame_def split: option.split)

definition svc_inv ::
  "('d, 't) bolt \<Rightarrow> codec \<Rightarrow> ('d \<Rightarrow> bool) \<Rightarrow> ('d, 'n) service \<Rightarrow> bool"
where
  "svc_inv L C store y \<longleftrightarrow>
     policy_current (svc_allow y) (svc_node y) \<and> allow_ok (svc_allow y) \<and> node_ok (svc_node y) \<and>
     upstreamHandlers (svc_node y) = fmupd kindLog [save_log L C] fmempty \<and>
     downstreamHandlers (svc_node y) = fmupd kindConfig [save_config L C] fmempty \<and>
     static_parent (svc_node y) \<and> store (fst (svc_world y))"

lemma svc_invD:
  assumes "svc_inv L C store y"
  shows "policy_current (svc_allow y) (svc_node y)" "allow_ok (svc_allow y)" "node_ok (svc_node y)"
    "upstreamHandlers (svc_node y) = fmupd kindLog [save_log L C] fmempty"
    "downstreamHandlers (svc_node y) = fmupd kindConfig [save_config L C] fmempty"
    "store (fst (svc_world y))" "static_parent (svc_node y)"
  using assms by (simp_all add: svc_inv_def)

lemma server_ok_SendDown:
  assumes "node_ok n" and "\<And>s. n_server n = Some s \<Longrightarrow> range_order ks (children s)"
    and "SendDown ks kind p t1 t2 n m = (re, n', m')"
  shows "node_ok n'" "cfg n' = cfg n" "upstreamHandlers n' = upstreamHandlers n"
    "downstreamHandlers n' = downstreamHandlers n" "policy_current l n \<Longrightarrow> policy_current l n'"
  using assms
  by (auto simp: SendDown_def node_ok_def policy_current_def split: option.splits prod.splits
      dest: server_ok_Broadcast Broadcast_frame(1))

lemma server_ok_nodeSendToChild:
  assumes "node_ok n" and "nodeSendToChild k kind p t1 t2 n m = (e, n', m')"
  shows "node_ok n'" "cfg n' = cfg n" "upstreamHandlers n' = upstreamHandlers n"
    "downstreamHandlers n' = downstreamHandlers n" "policy_current l n \<Longrightarrow> policy_current l n'"
  using assms
  by (auto simp: nodeSendToChild_def node_ok_def policy_current_def split: option.splits prod.splits
      dest: server_ok_SendToChild SendToChild_frame(1))

lemma sync_policy_sel [simp]:
  "upstreamHandlers (sync_policy l n) = upstreamHandlers n"
  "downstreamHandlers (sync_policy l n) = downstreamHandlers n"
  "n_client (sync_policy l n) = n_client n" "pendingq (sync_policy l n) = pendingq n"
  "policy_current l (sync_policy l n)"
  by (auto simp: sync_policy_def policy_current_def SetAuthorizeChild_def split: option.splits)

lemma node_ok_sync_policy [simp]: "node_ok (sync_policy l n) = node_ok n"
  by (auto simp: sync_policy_def node_ok_def split: option.splits)

lemma static_parent_sync [simp]: "static_parent (sync_policy l n) = static_parent n"
  by (auto simp: static_parent_def sync_policy_def split: option.splits)

lemma svc_inv_edit_policy:
  assumes "svc_inv L C store y" and "allow_ok l"
  shows "svc_inv L C store (edit_policy l y)"
  using assms by (simp add: svc_inv_def edit_policy_def)

text \<open>The orders in which a request visits maps are orders of those maps.\<close>

definition orders_ok :: "request \<Rightarrow> ('d, 'n) service \<Rightarrow> bool" where
  "orders_ok rq y \<longleftrightarrow>
     (\<forall>s. n_server (svc_node y) = Some s \<longrightarrow> range_order (map_order rq) (children s))"

lemma slice_at_handlers:
  "upstreamHandlers n = fmupd kindLog [save_log L C] fmempty \<Longrightarrow>
   runUpstreamHandlers c env n w = (if Kind env = kindLog then save_log L C c env w else w)"
  by (simp add: runUpstreamHandlers_def)

text \<open>The effect of an agent's log entry.\<close>

lemma SendUp_log:
  assumes inv: "svc_inv L C store y" and net: "net_frame fst N"
    and run: "SendUp N c kindLog p t1 t2 (svc_node y) m (svc_world y) = (r, n', m', w')"
  shows "r = Returned None"
    and "fst w' = snd (Save L C (newEnvelope (ID (svc_node y)) kindLog p t1 t2) (fst (svc_world y)))"
    and "cfg n' = cfg (svc_node y)" "n_server n' = n_server (svc_node y)"
    "upstreamHandlers n' = upstreamHandlers (svc_node y)"
    "downstreamHandlers n' = downstreamHandlers (svc_node y)"
proof -
  let ?env = "newEnvelope (ID (svc_node y)) kindLog p t1 t2"
  let ?w = "save_log L C c ?env (svc_world y)"
  have fwd: "forwardUp N ?env (svc_node y) m ?w = (r, n', m', w')"
    using run slice_at_handlers [OF svc_invD(4) [OF inv]] by (simp add: SendUp_def ID_def Let_def)
  have "fst w' = fst ?w"
    using fwd by (cases rule: forwardUp_cases) (auto dest: net_frame_SendUpstream [OF static_parent_net [OF svc_invD(7) [OF inv] net]])
  also have "\<dots> = snd (Save L C ?env (fst (svc_world y)))"
    by (simp add: save_log_def split: prod.split)
  finally show "fst w' = snd (Save L C ?env (fst (svc_world y)))" .
  show "r = Returned None" using fwd by (cases rule: forwardUp_cases) simp_all
  show "cfg n' = cfg (svc_node y)" "n_server n' = n_server (svc_node y)"
    "upstreamHandlers n' = upstreamHandlers (svc_node y)"
    "downstreamHandlers n' = downstreamHandlers (svc_node y)"
    using forwardUp_frame [OF fwd] by simp_all
qed

lemma handleAgentLog_eq:
  assumes inv: "svc_inv L C store y" and net: "net_frame fst N"
    and p: "rq_decode rq ''payload'' = Inr p"
    and run: "handleAgentLog N rq y w = (r, y')"
  shows "r = Returned (writeJSON (JObj [(''status'', JStr ''accepted'')]) (WriteHeader StatusAccepted w))"
    and "fst (svc_world y') =
      snd (Save L C (newEnvelope (ID (svc_node y)) kindLog p (now1 rq) (now2 rq)) (fst (svc_world y)))"
    and "cfg (svc_node y') = cfg (svc_node y)" "n_server (svc_node y') = n_server (svc_node y)"
    and "svc_allow y' = svc_allow y"
    and "upstreamHandlers (svc_node y') = upstreamHandlers (svc_node y)"
    and "downstreamHandlers (svc_node y') = downstreamHandlers (svc_node y)"
proof -
  obtain r0 n' m' w' where s: "SendUp N (rq_ctx rq) kindLog p (now1 rq) (now2 rq) (svc_node y)
      (svc_metrics y) (svc_world y) = (r0, n', m', w')"
    by (rule prod_cases4)
  note eff = SendUp_log [OF inv net s]
  show "r = Returned (writeJSON (JObj [(''status'', JStr ''accepted'')]) (WriteHeader StatusAccepted w))"
    and "fst (svc_world y') =
      snd (Save L C (newEnvelope (ID (svc_node y)) kindLog p (now1 rq) (now2 rq)) (fst (svc_world y)))"
    and "cfg (svc_node y') = cfg (svc_node y)" "n_server (svc_node y') = n_server (svc_node y)"
    and "svc_allow y' = svc_allow y"
    and "upstreamHandlers (svc_node y') = upstreamHandlers (svc_node y)"
    and "downstreamHandlers (svc_node y') = downstreamHandlers (svc_node y)"
    using run s eff by (auto simp: handleAgentLog_def p)
qed

subsection \<open>Every request preserves the invariant\<close>

text \<open>A store that a save keeps well-formed, whether it succeeds or fails.\<close>

definition saves_keep :: "('d, 't) bolt \<Rightarrow> codec \<Rightarrow> ('d \<Rightarrow> bool) \<Rightarrow> bool" where
  "saves_keep L C store \<longleftrightarrow> (\<forall>env d. store d \<longrightarrow> store (snd (Save L C env d)))"

lemma bolt_saves_keep: "saves_keep L C (bolt_ok L C dv tv)"
  unfolding saves_keep_def
proof (intro allI impI)
  fix env d
  assume ok: "bolt_ok L C dv tv d"
  obtain e d' where s: "Save L C env d = (e, d')" by (cases "Save L C env d")
  show "bolt_ok L C dv tv (snd (Save L C env d))"
    using bolt.save_ok [OF ok] bolt.save_failed [OF ok] s by (cases e) auto
qed

lemma handleAgentLog_inv:
  assumes inv: "svc_inv L C store y" and net: "net_frame fst N"
    and keep: "saves_keep L C store" and run: "handleAgentLog N rq y w = (r, y')"
  shows "svc_inv L C store y' \<and> r \<noteq> Panicked"
proof (cases "rq_decode rq ''payload''")
  case (Inl err)
  with inv run show ?thesis by (auto simp: handleAgentLog_def)
next
  case (Inr p)
  note eff = handleAgentLog_eq [OF inv net Inr run]
  have "store (fst (svc_world y'))"
    using keep svc_invD(6) [OF inv] by (simp add: eff(2) saves_keep_def)
  with inv eff show ?thesis
    by (simp add: svc_inv_def policy_current_def node_ok_def static_parent_def)
qed

lemma handleAdminConfig_inv:
  assumes "svc_inv L C store y" and "orders_ok rq y" and "handleAdminConfig rq y w = (r, y')"
  shows "svc_inv L C store y'"
proof (cases "rq_decode rq ''data''")
  case (Inl err)
  with assms show ?thesis by (auto simp: handleAdminConfig_def)
next
  case (Inr p)
  obtain re n' m' where s: "SendDown (map_order rq) kindConfig p (now1 rq) (now2 rq) (svc_node y)
      (svc_metrics y) = (re, n', m')"
    by (rule prod_cases3)
  have "y' = y\<lparr>svc_node := n', svc_metrics := m'\<rparr>"
    using assms(3) Inr s by (auto simp: handleAdminConfig_def split: prod.splits)
  with server_ok_SendDown [OF svc_invD(3) [OF assms(1)] _ s] assms(1,2) show ?thesis
    by (simp add: svc_inv_def orders_ok_def static_parent_def)
qed

lemma handleAdminConfigForChild_inv:
  assumes "svc_inv L C store y" and "handleAdminConfigForChild rq y w = (r, y')"
  shows "svc_inv L C store y'"
proof (cases "rq_decode rq ''data''")
  case (Inl err)
  with assms show ?thesis by (auto simp: handleAdminConfigForChild_def)
next
  case (Inr p)
  obtain e n' m' where s: "nodeSendToChild (rq_pathValue rq) kindConfig p (now1 rq) (now2 rq)
      (svc_node y) (svc_metrics y) = (e, n', m')"
    by (rule prod_cases3)
  have "y' = y\<lparr>svc_node := n', svc_metrics := m'\<rparr>"
    using assms(2) Inr s by (auto simp: handleAdminConfigForChild_def)
  with server_ok_nodeSendToChild [OF svc_invD(3) [OF assms(1)] s] assms(1) show ?thesis
    by (simp add: svc_inv_def static_parent_def)
qed

lemma allow_ok_Add [simp]: "allow_ok l \<Longrightarrow> allow_ok (allow_Add i l)"
  using allow_ok_edit [of l "Approve i"] by (simp add: al.edit_def)

lemma allow_ok_Remove [simp]: "allow_ok l \<Longrightarrow> allow_ok (allow_Remove i l)"
  using allow_ok_edit [of l "Revoke i"] by (simp add: al.edit_def)

lemma handleApproveChild_inv:
  assumes "svc_inv L C store y" and "handleApproveChild rq y w = (r, y')"
  shows "svc_inv L C store y'"
  using assms svc_invD(2) [OF assms(1)]
  by (auto simp: handleApproveChild_def Let_def svc_inv_edit_policy split: sum.splits if_splits)

lemma handleRevokeChild_inv:
  assumes "svc_inv L C store y" and "handleRevokeChild rq y w = (r, y')"
  shows "svc_inv L C store y'"
  using assms svc_invD(2) [OF assms(1)]
  by (auto simp: handleRevokeChild_def svc_inv_edit_policy)

lemmas handler_invs = handleAdminConfig_inv handleAdminConfigForChild_inv
  handleApproveChild_inv handleRevokeChild_inv

lemma serve_request_inv:
  assumes inv: "svc_inv L C store y" and net: "net_frame fst N"
    and keep: "saves_keep L C store" and ord: "orders_ok rq y"
    and run: "serve_request L C N html mh e rq y = (r, y')"
  shows "svc_inv L C store y' \<and> r \<noteq> Panicked"
proof (cases e)
  case AgentLog
  with run have "handleAgentLog N rq y new_response = (r, y')" by (simp add: serve_request_def)
  from handleAgentLog_inv [OF inv net keep this] show ?thesis .
next
  case AdminConfig
  then obtain r0 where "handleAdminConfig rq y new_response = (r0, y')" "r = Returned r0"
    using run by (cases "handleAdminConfig rq y new_response") (auto simp: serve_request_def)
  with handleAdminConfig_inv [OF inv ord] show ?thesis by auto
next
  case AdminConfigForChild
  then obtain r0 where "handleAdminConfigForChild rq y new_response = (r0, y')" "r = Returned r0"
    using run by (cases "handleAdminConfigForChild rq y new_response") (auto simp: serve_request_def)
  with handleAdminConfigForChild_inv [OF inv] show ?thesis by auto
next
  case ApproveChild
  then obtain r0 where "handleApproveChild rq y new_response = (r0, y')" "r = Returned r0"
    using run by (cases "handleApproveChild rq y new_response") (auto simp: serve_request_def)
  with handleApproveChild_inv [OF inv] show ?thesis by auto
next
  case RevokeChild
  then obtain r0 where "handleRevokeChild rq y new_response = (r0, y')" "r = Returned r0"
    using run by (cases "handleRevokeChild rq y new_response") (auto simp: serve_request_def)
  with handleRevokeChild_inv [OF inv] show ?thesis by auto
qed (use inv run in \<open>auto simp: serve_request_def\<close>)

subsection \<open>Approval and revocation at the server\<close>

definition restricts_children :: "'w node \<Rightarrow> bool" where
  "restricts_children n \<longleftrightarrow> cfg_authorizeChild (cfg n) \<noteq> None"

lemma hook_current:
  assumes "policy_current l n" and "restricts_children n" and "n_server n = Some s"
  shows "authorizeChild s = Authorize l"
  using assms by (auto simp: policy_current_def restricts_children_def)

lemma restricts_sync [simp]: "restricts_children (sync_policy l n) = restricts_children n"
  by (auto simp: restricts_children_def sync_policy_def split: option.splits)

lemma edit_policy_sel [simp]:
  "svc_allow (edit_policy l y) = l" "svc_node (edit_policy l y) = sync_policy l (svc_node y)"
  "svc_world (edit_policy l y) = svc_world y" "svc_metrics (edit_policy l y) = svc_metrics y"
  by (simp_all add: edit_policy_def)

lemma sync_policy_server:
  assumes "restricts_children n" and "n_server n = Some s"
  shows "n_server (sync_policy l n) = Some (s\<lparr>authorizeChild := Authorize l\<rparr>)"
  using assms
  by (auto simp: sync_policy_def restricts_children_def SetAuthorizeChild_def split: option.splits)

subsection \<open>Starting the service\<close>

text \<open>\<open>main\<close> up to the API: the node is created, given its handlers and started.\<close>

definition start_service ::
  "('d, 't) bolt \<Rightarrow> codec \<Rightarrow> tls_lib \<Rightarrow> ('d \<times> 'n) grpc \<Rightarrow> FileConfig \<Rightarrow> 'd \<Rightarrow> 'n
    \<Rightarrow> go_error + ('d, 'n) service"
where
  "start_service L C lib N c db g =
     (case service_node lib c of
        Inl err \<Rightarrow> Inl err
      | Inr n \<Rightarrow>
          (case Start N (register_handlers L C n) (db, g) of
             (Some err, n', w') \<Rightarrow> Inl (Errorf ''start node: %v'' [] [err])
           | (None, n', w') \<Rightarrow>
               Inr \<lparr>svc_node = n', svc_metrics = initial_metrics, svc_world = w',
                    svc_allow = newChildAllowList (AllowedChildIDs c)\<rparr>))"

text \<open>A service that starts satisfies the invariant; what may fail is the configuration.\<close>

lemma service_node_cfg:
  assumes "loadConfig rd um path = Inr c" and "service_node lib c = Inr n"
  shows "\<exists>a. n = \<lparr>cfg = service_config c a (newChildAllowList (AllowedChildIDs c)), n_server = None,
      n_client = None, upstreamHandlers = fmempty, downstreamHandlers = fmempty,
      pendingq = empty_queue, retryStarted = False\<rparr> \<and> (a = None \<longleftrightarrow> cfTLS c = None)"
proof -
  from assms(1) have c: "cfID c \<noteq> ''''" "cfListenAddr c \<noteq> '''' \<or> cfParentAddr c \<noteq> ''''"
    by (auto simp: loadConfig_Inr)
  from assms(2) obtain opts where o:
    "service_options lib c (newChildAllowList (AllowedChildIDs c)) = Inr opts" "New opts = Inr n"
    by (auto simp: service_node_def split: sum.splits)
  from New_service [OF o(1) c] o(2)
  obtain a where "cfg n = service_config c a (newChildAllowList (AllowedChildIDs c))"
    "a = None \<longleftrightarrow> cfTLS c = None" by auto
  moreover have "n = \<lparr>cfg = cfg n, n_server = None, n_client = None, upstreamHandlers = fmempty,
      downstreamHandlers = fmempty, pendingq = empty_queue, retryStarted = False\<rparr>"
    using o(2) by (auto simp: New_def Let_def split: if_splits)
  ultimately show ?thesis by metis
qed

lemma service_node_ok:
  assumes "loadConfig rd um path = Inr c"
  shows "\<exists>n :: 'w node. service_node lib c = Inr n"
proof -
  from assms have c: "cfID c \<noteq> ''''" "cfListenAddr c \<noteq> '''' \<or> cfParentAddr c \<noteq> ''''"
    by (auto simp: loadConfig_Inr)
  obtain opts :: "'w node_option list"
    where o: "service_options lib c (newChildAllowList (AllowedChildIDs c)) = Inr opts"
    by (cases "cfTLS c") (auto simp: service_options_def NewMTLSAuthenticator_def Let_def)
  from New_service [OF o c] o show ?thesis by (auto simp: service_node_def)
qed

lemma Start_shape:
  assumes "Start N n w = (e, n', w')"
  shows "e = None" "cfg n' = cfg n" "upstreamHandlers n' = upstreamHandlers n"
    "downstreamHandlers n' = downstreamHandlers n"
    "n_server n' = n_server (start_server n)"
    "net_frame I (node_net N n) \<Longrightarrow> I w' = I w"
proof -
  let ?n = "start_server n"
  have fr: "cfg ?n = cfg n" "upstreamHandlers ?n = upstreamHandlers n"
    "downstreamHandlers ?n = downstreamHandlers n" "node_net N ?n = node_net N n"
    by (simp_all add: start_server_def Let_def node_net_def)
  obtain e1 c1 w1 where con:
    "Connect (node_net N n) (NewClient (cfg_id (cfg n)) (cfg_authn (cfg n))) w = (e1, c1, w1)"
    by (rule prod_cases3)
  have e1: "e1 = None" using Connect_returns_nil [of "node_net N n" _ w] con by (metis fst_conv)
  have "e = None \<and> w' = (if cfg_resolver (cfg n) = None then w else w1) \<and>
      n' = (if cfg_resolver (cfg n) = None then ?n
            else ?n\<lparr>n_client := Some c1, retryStarted := True\<rparr>)"
    using assms con by (auto simp: Start_def Let_def fr e1)
  then show "e = None" "cfg n' = cfg n" "upstreamHandlers n' = upstreamHandlers n"
    "downstreamHandlers n' = downstreamHandlers n"
    "n_server n' = n_server ?n" "net_frame I (node_net N n) \<Longrightarrow> I w' = I w"
    using fr net_frame_Connect [of I "node_net N n", OF _ con] by auto
qed

lemma start_server_server:
  assumes "n_server n = None"
  shows "n_server (start_server n) =
    (if listenAddr (cfg n) = '''' then None
     else Some ((NewServer (cfg_authn (cfg n)))
       \<lparr>authorizeChild := (case cfg_authorizeChild (cfg n) of None \<Rightarrow> noopAuthorizeChild | Some h \<Rightarrow> h)\<rparr>))"
  using assms
  by (simp add: start_server_def Let_def SetAuthorizeChild_def NewServer_def split: option.split)

lemma start_service_cases:
  assumes "start_service L C lib N c db g = Inr y"
  obtains n n' w' where "service_node lib c = Inr n"
    "Start N (register_handlers L C n) (db, g) = (None, n', w')"
    "y = \<lparr>svc_node = n', svc_metrics = initial_metrics, svc_world = w',
      svc_allow = newChildAllowList (AllowedChildIDs c)\<rparr>"
  using assms by (auto simp: start_service_def split: sum.splits prod.splits option.splits)

lemma start_service_inv:
  assumes load: "loadConfig rd um path = Inr c" and net: "net_frame fst N"
    and store: "store db" and start: "start_service L C lib N c db g = Inr y"
  shows "svc_inv L C store y"
    and "restricts_children (svc_node y) \<longleftrightarrow> cfTLS c \<noteq> None"
    and "n_server (svc_node y) \<noteq> None \<longleftrightarrow> cfListenAddr c \<noteq> ''''"
    and "ID (svc_node y) = cfID c"
proof -
  obtain n n' w' where n: "service_node lib c = Inr n"
    and st: "Start N (register_handlers L C n) (db, g) = (None, n', w')"
    and y: "y = \<lparr>svc_node = n', svc_metrics = initial_metrics, svc_world = w',
      svc_allow = newChildAllowList (AllowedChildIDs c)\<rparr>"
    by (rule start_service_cases [OF start])
  let ?l = "newChildAllowList (AllowedChildIDs c)"
  from service_node_cfg [OF load n] obtain a where nd: "n = \<lparr>cfg = service_config c a ?l,
      n_server = None, n_client = None, upstreamHandlers = fmempty, downstreamHandlers = fmempty,
      pendingq = empty_queue, retryStarted = False\<rparr>" and a: "a = None \<longleftrightarrow> cfTLS c = None"
    by auto
  let ?r = "register_handlers L C n"
  have r: "cfg ?r = service_config c a ?l" "n_server ?r = None"
    "upstreamHandlers ?r = fmupd kindLog [save_log L C] fmempty"
    "downstreamHandlers ?r = fmupd kindConfig [save_config L C] fmempty"
    by (simp_all add: nd register_handlers_def OnUpstream_def OnDownstream_def)
  have sp: "static_parent ?r"
    by (auto simp: static_parent_def r service_config_def)
  note sh = Start_shape [OF st]
  have w': "fst w' = db" using sh(6) [of fst, OF static_parent_net [OF sp net]] by simp
  have srv: "n_server n' = (if cfListenAddr c = '''' then None
      else Some ((NewServer a)\<lparr>authorizeChild :=
        (if a = None then noopAuthorizeChild else Authorize ?l)\<rparr>))"
    unfolding sh(5) start_server_server [OF r(2)] by (simp add: r service_config_def)
  show "svc_inv L C store y"
    using sp srv sh(2-4) r w' store
    by (auto simp: y svc_inv_def policy_current_def node_ok_def static_parent_def service_config_def
        split: if_splits)
  show "restricts_children (svc_node y) \<longleftrightarrow> cfTLS c \<noteq> None"
    using a by (auto simp: y restricts_children_def sh(2) r service_config_def)
  show "n_server (svc_node y) \<noteq> None \<longleftrightarrow> cfListenAddr c \<noteq> ''''" by (simp add: y srv)
  show "ID (svc_node y) = cfID c" by (simp add: y ID_def sh(2) r service_config_def)
qed

lemma start_service_succeeds:
  assumes "loadConfig rd um path = Inr c"
  shows "\<exists>y. start_service L C lib N c (db :: 'a) (g :: 'c) = Inr y"
proof -
  obtain n :: "('a \<times> 'c) node" where n: "service_node lib c = Inr n"
    using service_node_ok [OF assms] by blast
  obtain e n' w' where st: "Start N (register_handlers L C n) (db, g) = (e, n', w')"
    by (rule prod_cases3)
  with n Start_shape(1) [OF st] show ?thesis by (simp add: start_service_def)
qed

lemma start_service_ID:
  assumes "loadConfig rd um path = Inr c" and "start_service L C lib N c db g = Inr y"
  shows "ID (svc_node y) = cfID c"
proof -
  obtain n n' w' where n: "service_node lib c = Inr n"
    and st: "Start N (register_handlers L C n) (db, g) = (None, n', w')" and y: "svc_node y = n'"
    by (rule start_service_cases [OF assms(2)]) simp
  from service_node_cfg [OF assms(1) n] Start_shape(2) [OF st] show ?thesis
    by (auto simp: y ID_def register_handlers_def OnUpstream_def OnDownstream_def service_config_def)
qed

end
