(* ===== verification/Agent.thy ===== *)
theory Agent
  imports Service_Facts
begin

text \<open>
  \<open>examples/agent/main.go\<close>, a client of the service's API that sends a log entry at every tick,
  and \<open>examples/checkdb/main.go\<close>, which lists what a service has stored.

  Posting a request is given by its result: an error, or the status code of the answer. Encoding
  a map of strings as JSON cannot fail, so \<open>sendLog\<close> has no branch for that.
\<close>

subsection \<open>The agent\<close>

text \<open>A \<open>time.Duration\<close> is an \<open>int64\<close> number of nanoseconds; its product wraps around.\<close>

definition Second :: "64 word" where
  "Second = 1000000000"

definition agent_interval :: "AgentConfig \<Rightarrow> 64 word" where
  "agent_interval c =
     (let interval = IntervalSeconds c * Second in
      if sint interval \<le> 0 then 5 * Second else interval)"

definition agent_url :: "AgentConfig \<Rightarrow> string" where
  "agent_url c = ServiceAddr c @ ''/api/v1/agent/logs''"

definition agent_payload :: "AgentConfig \<Rightarrow> int \<Rightarrow> string" where
  "agent_payload c n = (if agPayload c = '''' then ''agent tick #'' @ fmt_d n else agPayload c)"

type_synonym 'w http_post = "string \<Rightarrow> string \<Rightarrow> json \<Rightarrow> 'w \<Rightarrow> (go_error + nat) \<times> 'w"

definition sendLog :: "'w http_post \<Rightarrow> string \<Rightarrow> string \<Rightarrow> 'w \<Rightarrow> go_error option \<times> 'w" where
  "sendLog post url payload w =
     (case post url ''application/json'' (JObj [(''payload'', JStr payload)]) w of
        (Inl err, w') \<Rightarrow> (Some (Errorf ''post: %w'' [] [err]), w')
      | (Inr code, w') \<Rightarrow>
          (if code \<noteq> StatusAccepted
           then (Some (Errorf ''unexpected status %s'' [fmt_d (int code)] []), w')
           else (None, w')))"

text \<open>
  The loop of \<open>main\<close> for \<open>k\<close> ticks before the signal, \<open>n\<close> being the number of the last tick;
  it never stops on an error. The result is the errors of the ticks.
\<close>

fun agent_loop :: "'w http_post \<Rightarrow> AgentConfig \<Rightarrow> nat \<Rightarrow> int \<Rightarrow> 'w \<Rightarrow> go_error option list \<times> 'w" where
  "agent_loop post c 0 n w = ([], w)"
| "agent_loop post c (Suc k) n w =
     (case sendLog post (agent_url c) (agent_payload c (n + 1)) w of
        (e, w1) \<Rightarrow> (case agent_loop post c k (n + 1) w1 of (es, w2) \<Rightarrow> (e # es, w2)))"

text \<open>
  \<open>main\<close>, for a run of \<open>k + 1\<close> ticks: the message it exits with, or the interval of its ticker
  and the errors of the ticks. \<open>args\<close> is what follows the program's name.
\<close>

definition agent_main ::
  "'w http_post \<Rightarrow> (string \<Rightarrow> go_error + string) \<Rightarrow> (string \<Rightarrow> go_error + AgentConfig)
    \<Rightarrow> string \<Rightarrow> string list \<Rightarrow> nat \<Rightarrow> 'w \<Rightarrow> (go_error + 64 word \<times> go_error option list) \<times> 'w"
where
  "agent_main post readFile unmarshal prog args k w =
     (case args of
        [path] \<Rightarrow>
          (case agent_loadConfig readFile unmarshal path of
             Inl err \<Rightarrow> (Inl (Errorf ''config: %v'' [] [err]), w)
           | Inr c \<Rightarrow>
               (case agent_loop post c (k + 1) 0 w of (es, w') \<Rightarrow> (Inr (agent_interval c, es), w')))
      | _ \<Rightarrow> (Inl (Errorf ''usage: %s <config.json>'' [prog] []), w))"

subsection \<open>Listing a database\<close>

definition entry_line :: "envelope \<Rightarrow> string" where
  "entry_line e = ''id='' @ EnvId e @ '' kind='' @ Kind e @ '' payload='' @ Payload e"

text \<open>The lines printed, or the error of the panic.\<close>

definition checkdb :: "('d, 't) bolt \<Rightarrow> codec \<Rightarrow> string \<Rightarrow> go_error + string list" where
  "checkdb L C path =
     (case NewBoltStorage L path of
        Inl err \<Rightarrow> Inl err
      | Inr db \<Rightarrow>
          (case Query L C \<lparr>fKind = '''', Since = 0\<rparr> db of
             (entries, Some err) \<Rightarrow> Inl err
           | (entries, None) \<Rightarrow>
               Inr (map entry_line entries @ [''total='' @ fmt_d (int (length entries))])))"

subsection \<open>Facts\<close>

lemma agent_interval_pos: "0 < sint (agent_interval c)"
proof -
  have "sint (5 * Second) = 5000000000" by (simp add: Second_def)
  then show ?thesis by (simp add: agent_interval_def Let_def)
qed

lemma agent_interval_wraps:
  "sint (agent_interval c) =
     (let ns = (sint (IntervalSeconds c) * 1000000000 + 2 ^ 63) mod 2 ^ 64 - 2 ^ 63
      in if ns \<le> 0 then 5000000000 else ns)"
proof -
  have "sint Second = 1000000000" by (simp add: Second_def)
  then have "sint (IntervalSeconds c * Second) =
      (sint (IntervalSeconds c) * 1000000000 + 2 ^ 63) mod 2 ^ 64 - 2 ^ 63"
    by (simp add: sint_word_ariths signed_take_bit_eq_take_bit_shift take_bit_eq_mod)
  moreover have "sint (5 * Second) = 5000000000" by (simp add: Second_def)
  ultimately show ?thesis by (simp add: agent_interval_def Let_def)
qed

lemma agent_interval_exact:
  assumes "0 < sint (IntervalSeconds c)" and "sint (IntervalSeconds c) \<le> 9223372036"
  shows "sint (agent_interval c) = sint (IntervalSeconds c) * 1000000000"
proof -
  have "sint Second = 1000000000" by (simp add: Second_def)
  then have "sint (IntervalSeconds c * Second) = sint (IntervalSeconds c) * 1000000000"
    using assms by (simp add: sint_word_ariths signed_take_bit_int_eq_self)
  with assms(1) show ?thesis by (simp add: agent_interval_def Let_def)
qed

text \<open>An agent that runs ticks at once, whatever the errors, and its ticker is never refused.\<close>

lemma agent_loop_length: "agent_loop post c k n w = (es, w') \<Longrightarrow> length es = k"
  by (induction k arbitrary: n w es w') (auto split: prod.splits)

lemma agent_main_runs:
  assumes "agent_main post rd um prog args k w = (Inr (d, es), w')"
  shows "length es = k + 1" "0 < sint d" "\<exists>path c. args = [path] \<and> agent_loadConfig rd um path = Inr c"
proof -
  from assms obtain path c where a: "args = [path]" "agent_loadConfig rd um path = Inr c"
    by (auto simp: agent_main_def split: list.splits sum.splits)
  obtain es1 w1 where l: "agent_loop post c (k + 1) 0 w = (es1, w1)" by (rule prod.exhaust)
  with assms a have "es = es1" "d = agent_interval c" by (simp_all add: agent_main_def del: agent_loop.simps)
  with agent_loop_length [OF l] agent_interval_pos a
  show "length es = k + 1" "0 < sint d" "\<exists>path c. args = [path] \<and> agent_loadConfig rd um path = Inr c"
    by auto
qed

lemma agent_payload_distinct:
  assumes "agPayload c = ''''" and "0 \<le> n" and "0 \<le> m"
  shows "agent_payload c n = agent_payload c m \<longleftrightarrow> n = m"
  using assms by (auto simp: agent_payload_def fmt_d_def eq_nat_nat_iff)

text \<open>Decoding the JSON object a client sent into a struct with one string field.\<close>

fun decode_field :: "json \<Rightarrow> string \<Rightarrow> go_error + string" where
  "decode_field (JObj kvs) k =
     (case map_of kvs k of
        None \<Rightarrow> Inr ''''
      | Some JNull \<Rightarrow> Inr ''''
      | Some (JStr s) \<Rightarrow> Inr s
      | Some _ \<Rightarrow> Inl (Errorf ''json: cannot unmarshal into Go struct field of type string'' [] []))"
| "decode_field JNull k = Inr ''''"
| "decode_field _ k = Inl (Errorf ''json: cannot unmarshal into Go value'' [] [])"

text \<open>Posting to a service: the request reaches the handler of the route, nothing else runs.\<close>

definition post_to_service ::
  "('d \<times> 'n) grpc \<Rightarrow> (nat \<Rightarrow> request) \<Rightarrow> (nat \<times> ('d, 'n) service) http_post"
where
  "post_to_service N rqs url ct v iy =
     (case iy of
        (i, y) \<Rightarrow>
          (case handleAgentLog N ((rqs i)\<lparr>rq_decode := decode_field v\<rparr>) y new_response of
             (Panicked, y') \<Rightarrow> (Inl (Errorf ''EOF'' [] []), (i + 1, y'))
           | (Returned w, y') \<Rightarrow> (Inr (sent_status w), (i + 1, y'))))"

subsection \<open>An agent and a service\<close>

text \<open>The envelopes that \<open>k\<close> ticks after tick \<open>n\<close> make, the requests numbered from \<open>i\<close>.\<close>

fun agent_envelopes :: "AgentConfig \<Rightarrow> string \<Rightarrow> (nat \<Rightarrow> request) \<Rightarrow> nat \<Rightarrow> nat \<Rightarrow> int \<Rightarrow> envelope list" where
  "agent_envelopes c nid rqs 0 i n = []"
| "agent_envelopes c nid rqs (Suc k) i n =
     newEnvelope nid kindLog (agent_payload c (n + 1)) (now1 (rqs i)) (now2 (rqs i))
       # agent_envelopes c nid rqs k (i + 1) (n + 1)"

text \<open>Saving one after the other, whatever the errors.\<close>

definition save_each :: "('d, 't) bolt \<Rightarrow> codec \<Rightarrow> envelope list \<Rightarrow> 'd \<Rightarrow> 'd" where
  "save_each L C envs d = foldl (\<lambda>d env. snd (Save L C env d)) d envs"

lemma agent_tick_service:
  assumes inv: "svc_inv L C store y" and net: "net_frame fst N" and keep: "saves_keep L C store"
    and run: "sendLog (post_to_service N rqs) url p (i, y) = (e, i', y')"
  shows "e = None" "i' = i + 1" "svc_inv L C store y'" "ID (svc_node y') = ID (svc_node y)"
    "fst (svc_world y') =
      snd (Save L C (newEnvelope (ID (svc_node y)) kindLog p (now1 (rqs i)) (now2 (rqs i))) (fst (svc_world y)))"
proof -
  let ?rq = "(rqs i)\<lparr>rq_decode := decode_field (JObj [(''payload'', JStr p)])\<rparr>"
  obtain r y1 where h: "handleAgentLog N ?rq y new_response = (r, y1)"
    by (cases "handleAgentLog N ?rq y new_response")
  have "rq_decode ?rq ''payload'' = Inr p" by simp
  note eff = handleAgentLog_eq [OF inv net this h]
  have all: "e = None \<and> i' = i + 1 \<and> y' = y1"
    using run h eff(1) by (simp add: sendLog_def post_to_service_def status_code_defs)
  then show "e = None" "i' = i + 1" by simp_all
  show "svc_inv L C store y'" using handleAgentLog_inv [OF inv net keep h] all by simp
  show "ID (svc_node y') = ID (svc_node y)" using eff(3) all by (simp add: ID_def)
  show "fst (svc_world y') =
      snd (Save L C (newEnvelope (ID (svc_node y)) kindLog p (now1 (rqs i)) (now2 (rqs i))) (fst (svc_world y)))"
    using eff(2) all by simp
qed

lemma agent_loop_service:
  assumes "svc_inv L C store y" and net: "net_frame fst N" and keep: "saves_keep L C store"
    and "agent_loop (post_to_service N rqs) c k n (i, y) = (es, i', y')"
  shows "es = replicate k None \<and> svc_inv L C store y' \<and>
    fst (svc_world y') =
      save_each L C (agent_envelopes c (ID (svc_node y)) rqs k i n) (fst (svc_world y))"
  using assms(1,4)
proof (induction k arbitrary: n i y es)
  case 0
  then show ?case by (simp add: save_each_def)
next
  case (Suc k)
  obtain e i1 y1 where t:
    "sendLog (post_to_service N rqs) (agent_url c) (agent_payload c (n + 1)) (i, y) = (e, i1, y1)"
    by (rule prod_cases3)
  note eff = agent_tick_service [OF Suc.prems(1) net keep t]
  obtain es1 i2 y2 where r: "agent_loop (post_to_service N rqs) c k (n + 1) (i1, y1) = (es1, i2, y2)"
    by (rule prod_cases3)
  have "es = e # es1" "y' = y2" "i' = i2"
    using Suc.prems(2) t r by simp_all
  with Suc.IH [OF eff(3), of "n + 1" i1 es1] r eff show ?case
    by (simp add: save_each_def)
qed

text \<open>Distinct clock readings keep every entry.\<close>

lemma save_each_bolt:
  assumes "bolt_ok L C dv tv d" and "\<And>env d. env \<in> set envs \<Longrightarrow> bolt_ok L C dv tv d \<Longrightarrow> fst (Save L C env d) = None"
  shows "bolt_ok L C dv tv (save_each L C envs d) \<and>
    store_of C (dv (save_each L C envs d)) =
      foldl (\<lambda>m env. fmupd (EnvId env) env m) (store_of C (dv d)) envs"
  using assms
proof (induction envs arbitrary: d)
  case (Cons env envs)
  have "fst (Save L C env d) = None" using Cons.prems by simp
  then obtain d1 where s: "Save L C env d = (None, d1)" by (metis prod.collapse)
  note one = bolt.save_ok [OF Cons.prems(1) s]
  have "save_each L C (env # envs) d = save_each L C envs d1" by (simp add: save_each_def s)
  with Cons.IH [of d1] one Cons.prems(2) show ?case by simp
qed (simp add: save_each_def)

lemma foldl_fmupd_distinct:
  assumes "distinct (map EnvId envs)" and "env \<in> set envs"
  shows "fmlookup (foldl (\<lambda>m env. fmupd (EnvId env) env m) m envs) (EnvId env) = Some env"
  using assms
proof (induction envs rule: rev_induct)
  case (snoc e envs)
  then show ?case by (cases "env = e") auto
qed simp

end
