(* ===== verification/Service_Properties.thy ===== *)
theory Service_Properties
  imports Agent Node_Properties
begin

text \<open>
  The properties of the example service, with witnesses on a store that keeps its pairs in a
  finite map, an escaping codec, and a network whose state is the list of open connections.
\<close>

subsection \<open>A store and a codec that satisfy the laws\<close>

type_synonym demo_db = "(string, string) fmap"

definition demo_bolt :: "(demo_db, demo_db) bolt" where
  "demo_bolt =
     \<lparr>bolt_Open = (\<lambda>p. Inr fmempty),
      bolt_Update = (\<lambda>f d. case f d of (None, t) \<Rightarrow> (None, t) | (Some e, t) \<Rightarrow> (Some e, d)),
      bolt_View = (\<lambda>f d. f d),
      CreateBucketIfNotExists = (\<lambda>b t. (None, t)),
      bucket_Put = (\<lambda>b k v t. (None, fmupd k v t)),
      bucket_Delete = (\<lambda>b k t. (None, fmdrop k t)),
      bucket_ForEach = (\<lambda>b t. sorted_list_of_fmap t)\<rparr>"

lemma keys_sorted:
  "sorted (map fst (sorted_list_of_fmap (m :: demo_db))) \<and> distinct (map fst (sorted_list_of_fmap m))"
proof -
  have "sorted (sorted_list_of_fset S) \<and> distinct (sorted_list_of_fset S)" for S :: "string fset"
    by (simp add: sorted_list_of_fset.rep_eq)
  then show ?thesis by (simp add: sorted_list_of_fmap_def comp_def)
qed

lemma demo_bolt_laws: "bolt_laws demo_bolt id id"
proof -
  have "update_law demo_bolt id id"
    by (auto simp: update_law_def demo_bolt_def split: prod.split option.split)
  moreover have "bucket_law demo_bolt id" by (simp add: bucket_law_def demo_bolt_def)
  moreover have "view_law demo_bolt id id"
    using keys_sorted by (simp add: view_law_def demo_bolt_def)
  ultimately show ?thesis by (simp add: bolt_laws_def)
qed

fun esc :: "string \<Rightarrow> string" where
  "esc [] = ''.''"
| "esc (c # s) = CHR ''x'' # c # esc s"

fun unesc :: "string \<Rightarrow> (string \<times> string) option" where
  "unesc [] = None"
| "unesc [a] = (if a = CHR ''.'' then Some ([], []) else None)"
| "unesc (a # c # r) =
     (if a = CHR ''.'' then Some ([], c # r)
      else map_option (\<lambda>(s, r'). (c # s, r')) (unesc r))"

lemma unesc_esc [simp]: "unesc (esc s @ r) = Some (s, r)"
proof (induction s)
  case Nil
  show ?case by (cases r) simp_all
qed simp

definition demo_codec :: codec where
  "demo_codec =
     \<lparr>Marshal = (\<lambda>e. Inr (esc (EnvId e) @ esc (Kind e) @ esc (Payload e) @ fmt_d (Timestamp e))),
      Unmarshal = (\<lambda>b. case unesc b of
          None \<Rightarrow> Inl (Errorf ''proto'' [] [])
        | Some (i, r1) \<Rightarrow> (case unesc r1 of
            None \<Rightarrow> Inl (Errorf ''proto'' [] [])
          | Some (k, r2) \<Rightarrow> (case unesc r2 of
              None \<Rightarrow> Inl (Errorf ''proto'' [] [])
            | Some (p, r3) \<Rightarrow> (case parse_signed r3 of
                None \<Rightarrow> Inl (Errorf ''proto'' [] [])
              | Some t \<Rightarrow> Inr \<lparr>EnvId = i, Kind = k, Payload = p, Timestamp = t\<rparr>))))\<rparr>"

lemma demo_codec_law: "codec_law demo_codec"
  by (auto simp: codec_law_def demo_codec_def parse_signed_fmt_d)

lemma demo_bolt_ok: "bolt_ok demo_bolt demo_codec id id fmempty"
  by (simp add: bolt_ok_def demo_bolt_laws demo_codec_law store_ok_def)

lemma demo_Save: "Save demo_bolt demo_codec env d =
    (None, fmupd (EnvId env) (esc (EnvId env) @ esc (Kind env) @ esc (Payload env) @ fmt_d (Timestamp env)) d)"
  by (simp add: Save_def demo_codec_def demo_bolt_def)

lemma demo_Query_nil:
  assumes "bolt_ok demo_bolt demo_codec id id d"
  shows "\<exists>rs. Query demo_bolt demo_codec q d = (rs, None)"
proof -
  let ?kvs = "bucket_ForEach demo_bolt bucketName d"
  have "\<forall>(k, v) \<in> set ?kvs. \<exists>env. Unmarshal demo_codec v = Inr env"
  proof (clarify)
    fix k v assume "(k, v) \<in> set ?kvs"
    moreover have "distinct (map fst ?kvs)" "map_of ?kvs = fmlookup d"
      using demo_bolt_laws by (simp_all add: bolt_laws_def view_law_def)
    ultimately have "fmlookup d k = Some v" by (metis map_of_is_SomeI)
    with assms show "\<exists>env. Unmarshal demo_codec v = Inr env" by (auto simp: bolt_ok_def store_ok_def)
  qed
  from query_loop_all [OF this, of q "[]"] show ?thesis
    by (simp add: Query_def demo_bolt_def)
qed

subsection \<open>A service\<close>

definition second_net :: "'n grpc \<Rightarrow> ('d \<times> 'n) grpc" where
  "second_net N =
     \<lparr>g_parentAddr = (\<lambda>(d, w). case g_parentAddr N w of (r, w') \<Rightarrow> (r, d, w')),
      g_newClient = (\<lambda>a cr (d, w). case g_newClient N a cr w of (r, w') \<Rightarrow> (r, d, w')),
      g_withCancel = (\<lambda>(d, w). case g_withCancel N w of (r, w') \<Rightarrow> (r, d, w')),
      g_upstream = (\<lambda>k i (d, w). case g_upstream N k i w of (r, w') \<Rightarrow> (r, d, w')),
      g_downstream = (\<lambda>k i cn (d, w). case g_downstream N k i cn w of (r, w') \<Rightarrow> (r, d, w')),
      g_send = (\<lambda>st env (d, w). case g_send N st env w of (r, w') \<Rightarrow> (r, d, w')),
      g_cancel = (\<lambda>cn (d, w). (d, g_cancel N cn w)),
      g_close = (\<lambda>k (d, w). case g_close N k w of (r, w') \<Rightarrow> (r, d, w'))\<rparr>"

lemma second_net_frame: "net_frame fst (second_net N)"
  by (auto simp: net_frame_def second_net_def split: prod.split)

definition demo_file :: FileConfig where
  "demo_file =
     \<lparr>cfID = ''branch'', cfListenAddr = '':7001'', cfParentAddr = ''parent:1'', StoragePath = ''b.db'',
      HTTPAddr = '':8080'',
      cfTLS = Some \<lparr>CACertPath = ''ca'', CertPath = ''cert'', KeyPath = ''key''\<rparr>,
      AllowedChildIDs = []\<rparr>"

lemma demo_load: "loadConfig Inr (\<lambda>_. Inr demo_file) ''branch.json'' = Inr demo_file"
  by (simp add: loadConfig_def demo_file_def)

definition demo_service :: "(demo_db, conn list) service" where
  "demo_service =
     projr (start_service demo_bolt demo_codec demo_tls (second_net demo_net) demo_file fmempty [])"

lemma demo_service_started:
  "start_service demo_bolt demo_codec demo_tls (second_net demo_net) demo_file fmempty [] = Inr demo_service"
  using start_service_succeeds [OF demo_load, of demo_bolt demo_codec demo_tls "second_net demo_net" fmempty "[]"]
  by (auto simp: demo_service_def)

abbreviation demo_store_ok :: "demo_db \<Rightarrow> bool" where
  "demo_store_ok \<equiv> bolt_ok demo_bolt demo_codec id id"

lemma demo_service_inv:
  "svc_inv demo_bolt demo_codec demo_store_ok demo_service"
  "restricts_children (svc_node demo_service)" "n_server (svc_node demo_service) \<noteq> None"
  "ID (svc_node demo_service) = ''branch''"
  using start_service_inv [OF demo_load second_net_frame, of demo_store_ok fmempty demo_bolt demo_codec
      demo_tls demo_net "[]" demo_service, OF demo_bolt_ok demo_service_started]
  by (simp_all add: demo_file_def)

subsection \<open>Starting and serving\<close>

text \<open>
  A configuration file that loads always starts: creating and starting the node cannot fail
  any more, and the running service satisfies its invariant, restricts its children exactly when
  TLS is configured and has a server exactly when it listens.
\<close>

theorem loaded_config_starts:
  assumes "loadConfig rd um path = Inr c" and "net_frame fst N" and "store db"
  shows "\<exists>y. start_service L C lib N c db g = Inr y \<and> svc_inv L C store y \<and>
    ID (svc_node y) = cfID c \<and> (restricts_children (svc_node y) \<longleftrightarrow> cfTLS c \<noteq> None) \<and>
    (n_server (svc_node y) \<noteq> None \<longleftrightarrow> cfListenAddr c \<noteq> '''')"
proof -
  obtain y where y: "start_service L C lib N c db g = Inr y"
    using start_service_succeeds [OF assms(1), of L C lib N db g] by blast
  from start_service_inv [where store = store, OF assms(1,2,3) y] y show ?thesis by blast
qed

theorem loaded_config_starts_witness:
  "\<exists>y. start_service demo_bolt demo_codec demo_tls (second_net demo_net) demo_file fmempty [] = Inr y \<and>
     ID (svc_node y) = ''branch''"
  using loaded_config_starts [OF demo_load second_net_frame, of demo_store_ok fmempty, OF demo_bolt_ok]
  by (fastforce simp: demo_file_def)

text \<open>
  Every request of the API leaves the service in a state that satisfies the invariant (the
  server answers with the current allow list, its entries and buffers are well-formed, the
  handlers are the registered ones, the store is intact), and no handler panics.
\<close>

theorem requests_preserve_invariant:
  assumes "svc_inv L C store y" and "net_frame fst N" and "saves_keep L C store" and "orders_ok rq y"
    and "serve_request L C N html mh e rq y = (r, y')"
  shows "svc_inv L C store y' \<and> r \<noteq> Panicked"
  by (rule serve_request_inv [OF assms])

definition demo_request :: "string \<Rightarrow> request" where
  "demo_request p =
     \<lparr>rq_decode = (\<lambda>f. Inr p), rq_pathValue = ''leaf'', rq_since = '''', rq_ctx = claiming '''',
      now1 = 5, now2 = 5000000000, map_order = []\<rparr>"

lemma demo_service_server:
  obtains s where "n_server (svc_node demo_service) = Some s" "children s = fmempty"
    "authorizeChild s = Authorize (svc_allow demo_service)" "server_ok s"
proof -
  obtain s where s: "n_server (svc_node demo_service) = Some s"
    using demo_service_inv(3) by blast
  obtain n n' w' where n: "service_node demo_tls demo_file = Inr n"
    and st: "Start (second_net demo_net) (register_handlers demo_bolt demo_codec n) (fmempty, []) = (None, n', w')"
    and y: "svc_node demo_service = n'"
    by (rule start_service_cases [OF demo_service_started]) (metis service.select_convs(1))
  from service_node_cfg [OF demo_load n]
  have n0: "n_server (register_handlers demo_bolt demo_codec n) = None"
    by (auto simp: register_handlers_def OnUpstream_def OnDownstream_def)
  have "children s = fmempty"
    using s start_server_server [OF n0] Start_shape(5) [OF st] by (auto simp: y split: if_splits)
  moreover have "authorizeChild s = Authorize (svc_allow demo_service)"
    by (rule hook_current [OF svc_invD(1) [OF demo_service_inv(1)] demo_service_inv(2) s])
  moreover have "server_ok s" using svc_invD(3) [OF demo_service_inv(1)] s by (simp add: node_ok_def)
  ultimately show thesis using s that by blast
qed

lemma demo_orders_ok: "orders_ok (demo_request p) demo_service"
  by (rule demo_service_server) (simp add: orders_ok_def demo_request_def range_order_def)

theorem requests_preserve_invariant_witness:
  "svc_inv demo_bolt demo_codec demo_store_ok
     (snd (serve_request demo_bolt demo_codec (second_net demo_net) [] (\<lambda>_ w. w) AgentLog
       (demo_request ''hello'') demo_service))"
proof -
  obtain r y' where s: "serve_request demo_bolt demo_codec (second_net demo_net) [] (\<lambda>_ w. w) AgentLog
       (demo_request ''hello'') demo_service = (r, y')" by fastforce
  from requests_preserve_invariant [OF demo_service_inv(1) second_net_frame bolt_saves_keep demo_orders_ok s]
  show ?thesis by (simp add: s)
qed

subsection \<open>Who may connect\<close>

text \<open>
  The allow list admits a child exactly when it claims a non-empty id, presents a certificate
  whose common name is that id, and the last edit that names the id approved it (or, if none did,
  the configuration lists it); so no child is admitted under the id of another.
\<close>

theorem allow_list_last_edit_decides:
  "Authorize (foldl al.edit (newChildAllowList ids) as) c i = None \<longleftrightarrow>
     i \<noteq> '''' \<and> peer_cn c = Some i \<and>
     (case filter (\<lambda>a. op_id a = i) (rev as) of [] \<Rightarrow> i \<in> set ids | a # _ \<Rightarrow> is_approve a)"
  unfolding al.hook_admits al.member_edits contains_new by blast

text \<open>
  Approving an id through the API answers 202 and from then on the server admits a child that
  claims it with the matching certificate; revoking answers 204 and from then on the server
  rejects every child that claims it, but the children already connected stay connected.
\<close>

theorem approve_and_revoke:
  assumes "svc_inv L C store y" and "restricts_children (svc_node y)"
    and "n_server (svc_node y) = Some s"
    and "rq_decode rq ''node_id'' = Inr i" and "i \<noteq> ''''" and "rq_pathValue rq = i"
    and "handleApproveChild rq y new_response = (w1, y1)"
    and "handleRevokeChild rq y new_response = (w2, y2)"
  shows "sent_status w1 = 202 \<and>
    (\<exists>s1. n_server (svc_node y1) = Some s1 \<and> children s1 = children s \<and>
       (\<forall>c. authorizeChild s1 c i = None \<longleftrightarrow> peer_cn c = Some i)) \<and>
    sent_status w2 = 204 \<and>
    (\<exists>s2. n_server (svc_node y2) = Some s2 \<and> children s2 = children s \<and>
       (\<forall>c. authorizeChild s2 c i \<noteq> None))"
proof -
  let ?l1 = "allow_Add i (svc_allow y)" and ?l2 = "allow_Remove i (svc_allow y)"
  have y1: "y1 = edit_policy ?l1 y" and w1: "sent_status w1 = 202"
    and y2: "y2 = edit_policy ?l2 y" and w2: "sent_status w2 = 204"
    using assms(4-8) by (auto simp: handleApproveChild_def handleRevokeChild_def Let_def status_code_defs)
  have s1: "n_server (svc_node y1) = Some (s\<lparr>authorizeChild := Authorize ?l1\<rparr>)"
    and s2: "n_server (svc_node y2) = Some (s\<lparr>authorizeChild := Authorize ?l2\<rparr>)"
    unfolding y1 y2 edit_policy_sel by (rule sync_policy_server [OF assms(2,3)])+
  show ?thesis
    using w1 w2 s1 s2 assms(5) al.revoked_rejected [of i "svc_allow y"]
    by (simp add: al.hook_admits al.member_approve al.member_revoke del: not_None_eq)
qed

theorem approve_and_revoke_witness:
  "\<exists>s1. n_server (svc_node (snd (handleApproveChild (demo_request ''leaf'') demo_service new_response))) = Some s1 \<and>
     authorizeChild s1 \<lparr>incoming_md = None, peer_auth = Some (TLSInfo [''leaf''])\<rparr> ''leaf'' = None"
proof -
  obtain s where s: "n_server (svc_node demo_service) = Some s" using demo_service_inv(3) by blast
  obtain w1 y1 where a: "handleApproveChild (demo_request ''leaf'') demo_service new_response = (w1, y1)"
    by fastforce
  obtain w2 y2 where r: "handleRevokeChild (demo_request ''leaf'') demo_service new_response = (w2, y2)"
    by fastforce
  have rq: "rq_decode (demo_request ''leaf'') ''node_id'' = Inr ''leaf''"
    "rq_pathValue (demo_request ''leaf'') = ''leaf''" by (simp_all add: demo_request_def)
  from approve_and_revoke [OF demo_service_inv(1,2) s rq(1) _ rq(2) a r]
  show ?thesis unfolding a by (auto simp: peer_cn_def)
qed

text \<open>
  C38. With TLS configured and no allowed ids in the file, the service admits no child at all, whatever
  certificate it presents, until an administrator approves one.
\<close>

theorem empty_allow_list_admits_nobody:
  assumes "loadConfig rd um path = Inr c" and "net_frame fst N"
    and "cfTLS c \<noteq> None" and "AllowedChildIDs c = []"
    and "start_service L C lib N c db g = Inr y" and "n_server (svc_node y) = Some s"
  shows "\<exists>e. fst (Downstream_open now ctx s m) = Inl e"
proof -
  have inv: "svc_inv L C (\<lambda>_. True) y" and res: "restricts_children (svc_node y)"
    using start_service_inv [where store = "\<lambda>_. True", OF assms(1,2) _ assms(5)] assms(3) by simp_all
  have l: "svc_allow y = newChildAllowList []"
    by (rule start_service_cases [OF assms(5)]) (simp add: assms(4))
  have "authorizeChild s = Authorize (newChildAllowList [])"
    using hook_current [OF svc_invD(1) [OF inv] res assms(6)] l by simp
  then have "authorizeChild s ctx (childNodeID ctx) \<noteq> None"
    by (simp add: al.hook_admits contains_new)
  then show ?thesis by (auto simp: Downstream_open_def authorize_def Let_def)
qed

theorem empty_allow_list_admits_nobody_witness:
  "\<exists>s e. n_server (svc_node demo_service) = Some s \<and>
     fst (Downstream_open 0 \<lparr>incoming_md = None, peer_auth = Some (TLSInfo [''leaf''])\<rparr> s initial_metrics) = Inl e"
proof -
  obtain s where s: "n_server (svc_node demo_service) = Some s" using demo_service_inv(3) by blast
  have "cfTLS demo_file \<noteq> None" "AllowedChildIDs demo_file = []" by (simp_all add: demo_file_def)
  from empty_allow_list_admits_nobody [OF demo_load second_net_frame this demo_service_started s] s
  show ?thesis by blast
qed

subsection \<open>The store\<close>

text \<open>
  C24. The Bolt store refines a map from ids to envelopes, for any database and codec that keep
  their laws: a save that succeeds sets the entry of the envelope's id and a deletion removes the
  entries of its ids, one that fails changes nothing, and a query that succeeds returns the
  matching envelopes of the map, each once, in the order of their ids.
\<close>

theorem bolt_refines_map:
  assumes "bolt_ok L C dv tv d"
  shows "(case Save L C env d of (e, d') \<Rightarrow> bolt_ok L C dv tv d' \<and>
      store_of C (dv d') = (if e = None then fmupd (EnvId env) env (store_of C (dv d)) else store_of C (dv d))) \<and>
    (case Delete L ids d of (e, d') \<Rightarrow> bolt_ok L C dv tv d' \<and>
      store_of C (dv d') = (if e = None then fmdrop_set (set ids) (store_of C (dv d)) else store_of C (dv d))) \<and>
    (case Query L C q d of
       (rs, None) \<Rightarrow> set rs = {env. fmlookup (store_of C (dv d)) (EnvId env) = Some env \<and> matches q env} \<and>
         sorted (map EnvId rs) \<and> distinct (map EnvId rs)
     | (rs, Some e) \<Rightarrow> True)"
proof (intro conjI)
  show "case Save L C env d of (e, d') \<Rightarrow> bolt_ok L C dv tv d' \<and>
      store_of C (dv d') = (if e = None then fmupd (EnvId env) env (store_of C (dv d)) else store_of C (dv d))"
    using bolt.save_ok [OF assms] bolt.save_failed [OF assms]
    by (cases "Save L C env d"; cases "fst (Save L C env d)") auto
  show "case Delete L ids d of (e, d') \<Rightarrow> bolt_ok L C dv tv d' \<and>
      store_of C (dv d') = (if e = None then fmdrop_set (set ids) (store_of C (dv d)) else store_of C (dv d))"
    using bolt.delete_ok [OF assms] bolt.delete_failed [OF assms]
    by (cases "Delete L ids d"; cases "fst (Delete L ids d)") auto
  show "case Query L C q d of
       (rs, None) \<Rightarrow> set rs = {env. fmlookup (store_of C (dv d)) (EnvId env) = Some env \<and> matches q env} \<and>
         sorted (map EnvId rs) \<and> distinct (map EnvId rs)
     | (rs, Some e) \<Rightarrow> True"
  proof (cases "Query L C q d")
    case (Pair rs e)
    then show ?thesis
      by (cases e) (use bolt.query_ok [OF assms] in simp_all)
  qed
qed

theorem bolt_refines_map_witness:
  "fmlookup (store_of demo_codec (snd (Save demo_bolt demo_codec demo_env fmempty))) ''leaf-5'' = Some demo_env"
  using bolt_refines_map [OF demo_bolt_ok, of demo_env]
  by (simp add: demo_Save demo_env_def)

subsection \<open>Logs\<close>

text \<open>
  A log entry that an agent posts can be read back: the post is answered with 202 and the JSON
  that says accepted, and if the store could save the entry, a query of the logs since any time
  not later than the entry's answers 200 with the JSON list of exactly the stored log entries from
  that time on, in the order of their ids, the new entry among them.
\<close>

theorem posted_log_is_listed:
  assumes "svc_inv L C (bolt_ok L C dv tv) y" and "net_frame fst N"
    and "rq_decode rq ''payload'' = Inr p"
    and "env = newEnvelope (ID (svc_node y)) kindLog p (now1 rq) (now2 rq)"
    and "fst (Save L C env (fst (svc_world y))) = None"
    and "handleAgentLog N rq y new_response = (r, y')"
    and "rq_since rq' = fmt_d t" and "in_int64 t" and "t \<le> Timestamp env"
    and "Query L C \<lparr>fKind = kindLog, Since = t\<rparr> (fst (svc_world y')) = (rs, None)"
    and "handleAdminLogs L C rq' y' new_response = w"
  shows "(\<exists>w0. r = Returned w0 \<and> sent_status w0 = 202 \<and>
      body w0 = [Json (JObj [(''status'', JStr ''accepted'')])]) \<and>
    sent_status w = 200 \<and> body w = [Json (JArr (map env_json rs))] \<and> env \<in> set rs \<and>
    set rs = {e. fmlookup (store_of C (dv (fst (svc_world y')))) (EnvId e) = Some e \<and>
      Kind e = kindLog \<and> (t = 0 \<or> t \<le> Timestamp e)} \<and>
    sorted (map EnvId rs)"
proof -
  let ?q = "\<lparr>fKind = kindLog, Since = t\<rparr>"
  note post = handleAgentLog_eq [OF assms(1,2,3,6)]
  obtain d' where s: "Save L C env (fst (svc_world y)) = (None, d')"
    using assms(5) by (metis prod.collapse)
  have d': "fst (svc_world y') = d'" using post(2) s by (simp add: assms(4))
  note ok = svc_invD(6) [OF assms(1)]
  have ok': "bolt_ok L C dv tv d'" using bolt.save_ok [OF ok s] by blast
  have "matches ?q env" using assms(9) by (simp add: matches_def assms(4))
  then have "env \<in> set rs" using bolt.saved_found [OF ok s] assms(10) d' by simp
  moreover have "set rs = {e. fmlookup (store_of C (dv d')) (EnvId e) = Some e \<and> matches ?q e}"
    "sorted (map EnvId rs)"
    using bolt.query_ok [OF ok'] assms(10) d' by simp_all
  moreover have "w = writeJSON (JArr (map env_json rs)) new_response"
  proof -
    have "rq_since rq' \<noteq> ''''" using assms(7) by (simp add: fmt_d_def)
    moreover have "rs \<noteq> []" using \<open>env \<in> set rs\<close> by auto
    ultimately show ?thesis
      using assms(11) assms(10) by (simp add: handleAdminLogs_def assms(7) ParseInt_fmt_d [OF assms(8)]
          Let_def entries_json_def)
  qed
  ultimately show ?thesis
    using post(1) d' by (auto simp: status_code_defs matches_def)
qed

theorem posted_log_is_listed_witness:
  "\<exists>w rs. handleAdminLogs demo_bolt demo_codec (demo_request ''''\<lparr>rq_since := ''3''\<rparr>)
       (snd (handleAgentLog (second_net demo_net) (demo_request ''hello'') demo_service new_response))
       new_response = w \<and> body w = [Json (JArr (map env_json rs))] \<and>
     newEnvelope ''branch'' kindLog ''hello'' 5 5000000000 \<in> set rs"
proof -
  obtain r y' where post: "handleAgentLog (second_net demo_net) (demo_request ''hello'') demo_service new_response = (r, y')"
    by fastforce
  have p: "rq_decode (demo_request ''hello'') ''payload'' = Inr ''hello''" by (simp add: demo_request_def)
  let ?env = "newEnvelope (ID (svc_node demo_service)) kindLog ''hello''
      (now1 (demo_request ''hello'')) (now2 (demo_request ''hello''))"
  have "demo_store_ok (fst (svc_world y'))"
    using handleAgentLog_inv [OF demo_service_inv(1) second_net_frame bolt_saves_keep post] svc_invD(6) by blast
  then obtain rs where q: "Query demo_bolt demo_codec \<lparr>fKind = kindLog, Since = 3\<rparr> (fst (svc_world y')) = (rs, None)"
    using demo_Query_nil by blast
  have since: "rq_since (demo_request ''''\<lparr>rq_since := ''3''\<rparr>) = fmt_d 3"
    by (simp add: fmt_d_def nat_digits.simps digit_char_def char_of_def bit_0)
  have saved: "fst (Save demo_bolt demo_codec ?env (fst (svc_world demo_service))) = None"
    by (simp add: demo_Save)
  have "in_int64 3" "3 \<le> Timestamp ?env" by (simp_all add: in_int64_def demo_request_def Unix_def)
  from posted_log_is_listed [OF demo_service_inv(1) second_net_frame p refl saved post since this q refl]
  show ?thesis unfolding post by (auto simp: demo_service_inv(4) demo_request_def)
qed

lemma agent_ids:
  "map EnvId (agent_envelopes c nid rqs k i n) =
     map (\<lambda>j. EnvId (newEnvelope nid kindLog '''' (now1 (rqs j)) 0)) [i..<i + k]"
  by (induction k arbitrary: i n) (simp_all add: newEnvelope_def upt_conv_Cons del: upt_Suc)

text \<open>
  An agent that runs for \<open>k\<close> ticks against a service whose store works loses nothing: every
  tick is accepted, and if no two requests read the clock in the same nanosecond, each of the
  \<open>k\<close> entries is in the store afterwards, under its own id.
\<close>

theorem agent_ticks_all_stored:
  assumes "svc_inv L C (bolt_ok L C dv tv) y" and "net_frame fst N"
    and "\<And>env d. bolt_ok L C dv tv d \<Longrightarrow> fst (Save L C env d) = None"
    and "inj_on (\<lambda>j. now1 (rqs j)) {i..<i + k}" and "\<And>j. 0 \<le> now1 (rqs j)"
    and "agent_loop (post_to_service N rqs) c k n (i, y) = (es, i', y')"
  shows "es = replicate k None \<and>
    (\<forall>env \<in> set (agent_envelopes c (ID (svc_node y)) rqs k i n).
       fmlookup (store_of C (dv (fst (svc_world y')))) (EnvId env) = Some env)"
proof -
  let ?envs = "agent_envelopes c (ID (svc_node y)) rqs k i n"
  note run = agent_loop_service [OF assms(1,2) bolt_saves_keep assms(6)]
  note saved = save_each_bolt [OF svc_invD(6) [OF assms(1)] assms(3), of ?envs]
  have "distinct (map EnvId ?envs)"
    unfolding agent_ids distinct_map
    using assms(4,5) by (auto simp: inj_on_def newEnvelope_id_eq)
  then have "fmlookup (foldl (\<lambda>m env. fmupd (EnvId env) env m) (store_of C (dv (fst (svc_world y)))) ?envs)
      (EnvId env) = Some env" if "env \<in> set ?envs" for env
    by (rule foldl_fmupd_distinct) (rule that)
  with run saved show ?thesis by simp
qed

definition demo_agent :: AgentConfig where
  "demo_agent = \<lparr>ServiceAddr = ''http://branch'', IntervalSeconds = 0, agPayload = ''''\<rparr>"

theorem agent_ticks_all_stored_witness:
  "fst (agent_loop (post_to_service (second_net demo_net) (\<lambda>j. (demo_request '''')\<lparr>now1 := int j\<rparr>))
      demo_agent 2 0 (0, demo_service)) = [None, None]"
proof -
  let ?rqs = "\<lambda>j. (demo_request '''')\<lparr>now1 := int j\<rparr>"
  obtain es i' y' where a:
    "agent_loop (post_to_service (second_net demo_net) ?rqs) demo_agent 2 0 (0, demo_service) = (es, i', y')"
    by (rule prod_cases3)
  have "inj_on (\<lambda>j. now1 (?rqs j)) {0..<0 + 2}" "0 \<le> now1 (?rqs j)" for j
    by (simp_all add: inj_on_def)
  from agent_ticks_all_stored [OF demo_service_inv(1) second_net_frame _ this a]
  show ?thesis unfolding a by (simp add: demo_Save numeral_2_eq_2)
qed

text \<open>
  C40. The agent's ticker interval is always positive, so \<open>NewTicker\<close> does not panic, and for
  every 64-bit configuration value it is this: the number of nanoseconds, wrapped into 64 bits with a
  sign, when that is positive, and 5 seconds otherwise. So it is the configured number of seconds as
  long as that many nanoseconds fit, and 5 seconds for zero and for the negative numbers whose
  nanoseconds fit. Beyond, the test for a positive interval comes too late: from -9223372037
  seconds the code makes an interval of about 292 years, and from 18446744074 seconds one
  of less than a third of a second.
\<close>

theorem agent_interval_sound:
  "0 < sint (agent_interval c) \<and>
   sint (agent_interval c) =
     (let ns = (sint (IntervalSeconds c) * 1000000000 + 2 ^ 63) mod 2 ^ 64 - 2 ^ 63
      in if ns \<le> 0 then 5000000000 else ns) \<and>
   (0 < sint (IntervalSeconds c) \<and> sint (IntervalSeconds c) \<le> 9223372036 \<longrightarrow>
      sint (agent_interval c) = sint (IntervalSeconds c) * 1000000000) \<and>
   (- 9223372036 \<le> sint (IntervalSeconds c) \<and> sint (IntervalSeconds c) \<le> 0 \<longrightarrow>
      sint (agent_interval c) = 5000000000) \<and>
   (sint (IntervalSeconds c) = - 9223372037 \<longrightarrow> sint (agent_interval c) = 9223372036709551616) \<and>
   (sint (IntervalSeconds c) = 18446744074 \<longrightarrow> sint (agent_interval c) = 290448384)"
proof -
  have "sint (agent_interval c) =
      (let ns = (sint (IntervalSeconds c) * 1000000000 + 2 ^ 63) mod 2 ^ 64 - 2 ^ 63
       in if ns \<le> 0 then 5000000000 else ns)"
    by (rule agent_interval_wraps)
  then show ?thesis
    using agent_interval_pos [of c] by (auto simp: Let_def)
qed

theorem agent_interval_sound_witness:
  "sint (agent_interval (demo_agent\<lparr>IntervalSeconds := 3\<rparr>)) = 3000000000 \<and>
   sint (agent_interval (demo_agent\<lparr>IntervalSeconds := - 9223372037\<rparr>)) = 9223372036709551616"
  using agent_interval_sound [of "demo_agent\<lparr>IntervalSeconds := 3\<rparr>"]
    agent_interval_sound [of "demo_agent\<lparr>IntervalSeconds := - 9223372037\<rparr>"] by simp

subsection \<open>Pushing configuration\<close>

text \<open>
  Pushing configuration answers 202 with an empty body when every child, be there any or none,
  took the envelope, and otherwise 206 with the number of children that did and the ids of those
  whose buffer was full; exactly the former have the new envelope at the end of their channel.
\<close>

theorem config_push_answer:
  assumes "n_server (svc_node y) = Some s" and "server_ok s" and "range_order (map_order rq) (children s)"
    and "rq_decode rq ''data'' = Inr p" and "handleAdminConfig rq y new_response = (w, y')"
  shows "(let dropped = filter (\<lambda>k. \<not> can_accept s k) (map_order rq) in
      if dropped = [] then sent_status w = 202 \<and> body w = []
      else sent_status w = 206 \<and>
        body w = [Json (JObj [(''delivered'', JInt (int (ChildrenCount s - length dropped))),
                              (''dropped'', JArr (map JStr dropped))])]) \<and>
    (\<exists>s'. n_server (svc_node y') = Some s' \<and>
      (\<forall>k c. fmlookup (children s) k = Some c \<longrightarrow>
         chan_buf c s' = (if can_accept s k
           then chan_buf c s @ [newEnvelope (ID (svc_node y)) kindConfig p (now1 rq) (now2 rq)]
           else chan_buf c s)))"
proof -
  let ?env = "newEnvelope (ID (svc_node y)) kindConfig p (now1 rq) (now2 rq)"
  obtain r e s' m' where b: "BroadcastDownstream (map_order rq) ?env s (svc_metrics y) = ((r, e), s', m')"
    by (metis prod.collapse)
  note eff = BroadcastDownstream_effect [OF assms(2,3) b]
  have tot: "Delivered r = ChildrenCount s - length (Dropped r)"
    using BroadcastDownstream_total [OF assms(2,3) b] by simp
  have buf: "chan_buf c s' = (if can_accept s k then chan_buf c s @ [?env] else chan_buf c s)"
    if "fmlookup (children s) k = Some c" for k c
  proof -
    have "(\<exists>k'. can_accept s k' \<and> fmlookup (children s) k' = Some c) \<longleftrightarrow> can_accept s k"
      using server_okD(3) [OF assms(2) that] that by blast
    then show ?thesis unfolding chan_buf_def [of c s'] eff(5) [of c] by (simp add: chan_buf_def)
  qed
  have w: "w = (if e \<noteq> None then
        writeJSON (JObj [(''delivered'', JInt (int (Delivered r))), (''dropped'', JArr (map JStr (Dropped r)))])
          (WriteHeader 206 new_response)
      else WriteHeader 202 new_response)"
    and y': "n_server (svc_node y') = Some s'"
    using assms(1,4,5) b by (auto simp: handleAdminConfig_def SendDown_def ID_def status_code_defs)
  have "if Dropped r = [] then sent_status w = 202 \<and> body w = []
      else sent_status w = 206 \<and>
        body w = [Json (JObj [(''delivered'', JInt (int (ChildrenCount s - length (Dropped r)))),
                              (''dropped'', JArr (map JStr (Dropped r)))])]"
    using eff(3) by (simp add: w tot)
  with buf y' show ?thesis unfolding Let_def eff(2) by blast
qed

theorem config_push_answer_witness:
  "\<exists>w y'. handleAdminConfig (demo_request ''cfg'') demo_service new_response = (w, y') \<and>
     sent_status w = 202 \<and> body w = []"
proof -
  obtain s where s: "n_server (svc_node demo_service) = Some s" "children s = fmempty" "server_ok s"
    by (rule demo_service_server)
  obtain w y' where h: "handleAdminConfig (demo_request ''cfg'') demo_service new_response = (w, y')"
    by fastforce
  have "range_order (map_order (demo_request ''cfg'')) (children s)"
    "rq_decode (demo_request ''cfg'') ''data'' = Inr ''cfg''"
    by (simp_all add: demo_request_def range_order_def s(2))
  from config_push_answer [OF s(1,3) this h] h show ?thesis by (simp add: demo_request_def)
qed

text \<open>
  A JSON answer that is written after its status line goes out without a content type: the
  answer to an approval carries the JSON list but no \<open>Content-Type\<close>, while the listing of the
  same allow list, which sets no status, is marked as \<open>application/json\<close>.
\<close>

theorem json_after_status_unmarked:
  assumes "rq_decode rq ''node_id'' = Inr i" and "i \<noteq> ''''"
  shows "sent_header ''Content-Type'' (fst (handleApproveChild rq y new_response)) = None \<and>
    body (fst (handleApproveChild rq y new_response)) =
      body (handleGetAllowedChildren rq (snd (handleApproveChild rq y new_response)) new_response) \<and>
    sent_header ''Content-Type'' (handleGetAllowedChildren rq y new_response) = Some ''application/json''"
  using assms
  by (simp add: handleApproveChild_def handleGetAllowedChildren_def Let_def writeJSON_content_type)

theorem json_after_status_unmarked_witness:
  "sent_header ''Content-Type'' (fst (handleApproveChild (demo_request ''leaf'') demo_service new_response)) = None"
proof -
  have "rq_decode (demo_request ''leaf'') ''node_id'' = Inr ''leaf''" by (simp add: demo_request_def)
  from json_after_status_unmarked [OF this, of demo_service] show ?thesis by simp
qed

text \<open>
  The routes are the table of the API: each documented path and method reaches its handler,
  every other GET or HEAD request gets the dashboard, and every other request is answered 405;
  nothing is ever answered 404.
\<close>

theorem routes_are_the_table:
  "route m path = api_table m path \<and> route m path \<noteq> Inl 404"
  by (auto simp: route_eq api_table_def api_post_def api_delete_def)

end
