(* ===== verification/Service_System.thy ===== *)
theory Service_System
  imports Service_Facts Node_Tree Node_Path
begin

text \<open>
  The running service: requests of its API, the handlers of the calls of its children, what its
  parent sends, the reconnect loop and the retry loop, interleaved. It is the system around one
  process; the steps are the operations of the other theories, each with the locks it takes. What
  \<open>Start\<close> launches may go on after the node was stopped, and calls may still come in: the relation
  allows more than the code does, so what it keeps, the code keeps.

  \<open>entering\<close> are the Downstream calls that are authorized but not registered yet, \<open>handlers\<close> the
  registered ones by channel (the key, the context of the call and whether the loop still runs),
  \<open>upcalls\<close> the Upstream calls, \<open>hand\<close> what the running retry pass has not tried yet. \<open>heard\<close> and
  \<open>ever\<close> are history: the envelopes that a storing handler was run on, with those that were
  stored at the start, and the ids that were ever on the allow list.
\<close>

record ('d, 'n) svc_sys =
  sv :: "('d, 'n) service"
  entering :: "ctx multiset"
  handlers :: "(chan, string \<times> ctx \<times> bool) fmap"
  upcalls :: "ctx multiset"
  hand :: "envelope list"
  heard :: "envelope set"
  ever :: "string set"

definition with_server :: "server \<Rightarrow> metrics \<Rightarrow> ('d, 'n) svc_sys \<Rightarrow> ('d, 'n) svc_sys" where
  "with_server s m y =
     y\<lparr>sv := (sv y)\<lparr>svc_node := (svc_node (sv y))\<lparr>n_server := Some s\<rparr>, svc_metrics := m\<rparr>\<rparr>"

definition with_node ::
  "metrics \<times> ('d \<times> 'n) node \<times> 'd \<times> 'n \<Rightarrow> ('d, 'n) svc_sys \<Rightarrow> ('d, 'n) svc_sys"
where
  "with_node mnw y =
     (case mnw of (m, n, w) \<Rightarrow> y\<lparr>sv := (sv y)\<lparr>svc_node := n, svc_metrics := m, svc_world := w\<rparr>\<rparr>)"

abbreviation sys_server :: "('d, 'n) svc_sys \<Rightarrow> server option" where
  "sys_server y \<equiv> n_server (svc_node (sv y))"

abbreviation sys_mnw :: "('d, 'n) svc_sys \<Rightarrow> metrics \<times> ('d \<times> 'n) node \<times> 'd \<times> 'n" where
  "sys_mnw y \<equiv> (svc_metrics (sv y), svc_node (sv y), svc_world (sv y))"

subsection \<open>From the command line\<close>

text \<open>
  \<open>main\<close> up to the running service; an \<open>Inl\<close> is the message it exits with. \<open>args\<close> is what
  follows the program's name. The result is the configuration, the service and the address on
  which the API is served, if it is.
\<close>

definition service_boot ::
  "('d, 't) bolt \<Rightarrow> codec \<Rightarrow> tls_lib \<Rightarrow> ('d \<times> 'n) grpc \<Rightarrow> (string \<Rightarrow> go_error + string)
    \<Rightarrow> (string \<Rightarrow> go_error + FileConfig) \<Rightarrow> string \<Rightarrow> string list \<Rightarrow> 'n
    \<Rightarrow> go_error + FileConfig \<times> ('d, 'n) service \<times> string option"
where
  "service_boot L C lib N readFile unmarshal prog args g =
     (case args of
        [path] \<Rightarrow>
          (case loadConfig readFile unmarshal path of
             Inl err \<Rightarrow> Inl (Errorf ''config: %v'' [] [err])
           | Inr c \<Rightarrow>
               (case NewBoltStorage L (StoragePath c) of
                  Inl err \<Rightarrow> Inl (Errorf ''open storage: %v'' [] [err])
                | Inr db \<Rightarrow> map_sum id (\<lambda>v. (c, v, if HTTPAddr c \<noteq> '''' then Some (HTTPAddr c) else None))
                     (start_service L C lib N c db g)))
      | _ \<Rightarrow> Inl (Errorf ''usage: %s <config.json>'' [prog] []))"

text \<open>\<open>main\<close> after the signal: the node is stopped; its result is dropped.\<close>

definition service_shutdown :: "('d \<times> 'n) grpc \<Rightarrow> ('d, 'n) service \<Rightarrow> ('d, 'n) service" where
  "service_shutdown N y =
     (case nodeStop N (svc_node y) (svc_world y) of (_, n', w') \<Rightarrow> y\<lparr>svc_node := n', svc_world := w'\<rparr>)"

subsection \<open>The steps of the running service\<close>

text \<open>What a request adds to the history.\<close>

definition api_heard :: "string \<Rightarrow> endpoint \<Rightarrow> request \<Rightarrow> envelope set" where
  "api_heard nid e rq =
     (case (e, rq_decode rq ''payload'') of
        (AgentLog, Inr p) \<Rightarrow> {newEnvelope nid kindLog p (now1 rq) (now2 rq)}
      | _ \<Rightarrow> {})"

definition api_approved :: "endpoint \<Rightarrow> request \<Rightarrow> string set" where
  "api_approved e rq =
     (case (e, rq_decode rq ''node_id'') of (ApproveChild, Inr i) \<Rightarrow> {i} | _ \<Rightarrow> {})"

inductive service_step ::
  "('d, 't) bolt \<Rightarrow> codec \<Rightarrow> ('d \<times> 'n) grpc \<Rightarrow> string \<Rightarrow> (metrics \<Rightarrow> response \<Rightarrow> response)
    \<Rightarrow> ('d, 'n) svc_sys \<Rightarrow> ('d, 'n) svc_sys \<Rightarrow> bool"
  for L C N html mh
where
  api:
    "orders_ok rq (sv y) \<Longrightarrow> serve_request L C N html mh e rq (sv y) = (r, v) \<Longrightarrow>
     service_step L C N html mh y
       (y\<lparr>sv := v, heard := heard y \<union> api_heard (ID (svc_node (sv y))) e rq,
          ever := ever y \<union> api_approved e rq\<rparr>)"
| down_authorized:
    "sys_server y = Some s \<Longrightarrow>
     authorize now c (childNodeID c) s (svc_metrics (sv y)) = (None, s', m') \<Longrightarrow>
     service_step L C N html mh y ((with_server s' m' y)\<lparr>entering := add_mset c (entering y)\<rparr>)"
| down_rejected:
    "sys_server y = Some s \<Longrightarrow>
     authorize now c (childNodeID c) s (svc_metrics (sv y)) = (Some err, s', m') \<Longrightarrow>
     service_step L C N html mh y (with_server s' m' y)"
| down_registered:
    "c \<in># entering y \<Longrightarrow> sys_server y = Some s \<Longrightarrow>
     registerChild (childNodeID c) s = ((key, ch), s') \<Longrightarrow>
     service_step L C N html mh y
       ((with_server s' (inc_conn ''downstream'' (svc_metrics (sv y))) y)
         \<lparr>entering := entering y - {#c#}, handlers := fmupd ch (key, c, True) (handlers y)\<rparr>)"
| down_turn:
    "fmlookup (handlers y) ch = Some (key, c, True) \<Longrightarrow> sys_server y = Some s \<Longrightarrow>
     Downstream_turn ch choice s = Some (res, out, s') \<Longrightarrow>
     service_step L C N html mh y
       ((with_server s' (svc_metrics (sv y)) y)
         \<lparr>handlers := fmupd ch (key, c, res = Continue) (handlers y)\<rparr>)"
| down_cleanup:
    "fmlookup (handlers y) ch = Some (key, c, False) \<Longrightarrow> sys_server y = Some s \<Longrightarrow>
     Downstream_cleanup key s (svc_metrics (sv y)) = (s', m') \<Longrightarrow>
     service_step L C N html mh y ((with_server s' m' y)\<lparr>handlers := fmdrop ch (handlers y)\<rparr>)"
| up_opened:
    "sys_server y = Some s \<Longrightarrow> Upstream_open now c s (svc_metrics (sv y)) = (None, s', m') \<Longrightarrow>
     service_step L C N html mh y ((with_server s' m' y)\<lparr>upcalls := add_mset c (upcalls y)\<rparr>)"
| up_rejected:
    "sys_server y = Some s \<Longrightarrow> Upstream_open now c s (svc_metrics (sv y)) = (Some err, s', m') \<Longrightarrow>
     service_step L C N html mh y (with_server s' m' y)"
| up_received:
    "c \<in># upcalls y \<Longrightarrow>
     Upstream_turn (Some (node_up_hook N)) ack c (RecvEnv env) (sys_mnw y) = (Continue, mnw) \<Longrightarrow>
     service_step L C N html mh y
       ((with_node mnw y)\<lparr>heard := heard y \<union> (if Kind env = kindLog then {env} else {})\<rparr>)"
| up_ended:
    "c \<in># upcalls y \<Longrightarrow>
     Upstream_turn (Some (node_up_hook N)) ack c (RecvErr err) (sys_mnw y) = (Return res, m, n, w) \<Longrightarrow>
     service_step L C N html mh y
       ((with_node (dec_conn ''upstream'' m, n, w) y)\<lparr>upcalls := upcalls y - {#c#}\<rparr>)"
| parent_sent:
    "n_client (svc_node (sv y)) \<noteq> None \<Longrightarrow>
     (\<And>s. sys_server y = Some s \<Longrightarrow> range_order (v env) (children s)) \<Longrightarrow>
     recvLoop_received (Some (site_hook v)) env (sys_mnw y) = mnw \<Longrightarrow>
     service_step L C N html mh y
       ((with_node mnw y)\<lparr>heard := heard y \<union> (if Kind env = kindConfig then {env} else {})\<rparr>)"
| parent_lost:
    "n_client (svc_node (sv y)) = Some c \<Longrightarrow>
     service_step L C N html mh y
       (with_node (svc_metrics (sv y), (svc_node (sv y))\<lparr>n_client := Some (recvLoop_failed st c)\<rparr>, svc_world (sv y)) y)"
| reconnect:
    "n_client (svc_node (sv y)) = Some c \<Longrightarrow>
     reconnect_tick (node_net N (svc_node (sv y))) c (svc_world (sv y)) = (go, c', w') \<Longrightarrow>
     service_step L C N html mh y
       (with_node (svc_metrics (sv y), (svc_node (sv y))\<lparr>n_client := Some c'\<rparr>, w') y)"
| retry_started:
    "retryStarted (svc_node (sv y)) \<Longrightarrow> hand y = [] \<Longrightarrow>
     drain (pendingq (svc_node (sv y))) = (envs, q) \<Longrightarrow>
     service_step L C N html mh y
       ((with_node (svc_metrics (sv y), (svc_node (sv y))\<lparr>pendingq := q\<rparr>, svc_world (sv y)) y)\<lparr>hand := envs\<rparr>)"
| retry_one:
    "hand y = env # envs \<Longrightarrow>
     retry_pass N (\<lambda>_. Paced) 0 [env] (svc_node (sv y)) (svc_metrics (sv y)) (svc_world (sv y)) =
       (Returned True, n', m', w') \<Longrightarrow>
     service_step L C N html mh y ((with_node (m', n', w') y)\<lparr>hand := envs\<rparr>)"
| shutdown:
    "service_step L C N html mh y (y\<lparr>sv := service_shutdown N (sv y)\<rparr>)"

text \<open>
  A run starts with a configuration that loads and a database; what is in the database then
  counts as heard.
\<close>

inductive service_reach ::
  "('d, 't) bolt \<Rightarrow> codec \<Rightarrow> ('d \<Rightarrow> (string, string) fmap) \<Rightarrow> ('t \<Rightarrow> (string, string) fmap)
    \<Rightarrow> ('d \<times> 'n) grpc \<Rightarrow> string \<Rightarrow> (metrics \<Rightarrow> response \<Rightarrow> response) \<Rightarrow> ('d, 'n) svc_sys \<Rightarrow> bool"
  for L C dv tv N html mh
where
  started:
    "loadConfig rd um path = Inr c \<Longrightarrow> bolt_ok L C dv tv db \<Longrightarrow>
     start_service L C lib N c db g = Inr v \<Longrightarrow>
     service_reach L C dv tv N html mh
       \<lparr>sv = v, entering = {#}, handlers = fmempty, upcalls = {#}, hand = [],
        heard = {env. \<exists>k. fmlookup (store_of C (dv db)) k = Some env}, ever = set (AllowedChildIDs c)\<rparr>"
| stepped:
    "service_reach L C dv tv N html mh y \<Longrightarrow> service_step L C N html mh y y' \<Longrightarrow>
     service_reach L C dv tv N html mh y'"


subsection \<open>What the steps of the node leave alone\<close>

definition node_frame :: "'w node \<Rightarrow> 'w node \<Rightarrow> bool" where
  "node_frame n n' \<longleftrightarrow>
     cfg n' = cfg n \<and> n_server n' = n_server n \<and> upstreamHandlers n' = upstreamHandlers n \<and>
     downstreamHandlers n' = downstreamHandlers n \<and> retryStarted n' = retryStarted n \<and>
     (n_client n \<noteq> None \<longrightarrow> n_client n' \<noteq> None)"

lemma node_frame_refl [simp]: "node_frame n n" "node_frame n (n\<lparr>pendingq := q\<rparr>)"
  "node_frame n (n\<lparr>n_client := Some c\<rparr>)"
  by (simp_all add: node_frame_def)

lemma forwardUp_node_frame: "forwardUp N env n m w = (r, n', m', w') \<Longrightarrow> node_frame n n'"
  by (erule forwardUp_cases) (simp_all add: node_frame_def)

lemma forwardUp_world:
  assumes "forwardUp N env n m w = (r, n', m', w')" and "static_parent n" and "net_frame I N"
  shows "I w' = I w"
  using assms(1) net_frame_SendUpstream [OF static_parent_net [OF assms(2,3)]]
  by (cases rule: forwardUp_cases) auto

lemma retry_one_frame:
  assumes "retry_pass N (\<lambda>_. Paced) 0 [env] n m w = (Returned b, n', m', w')"
  shows "node_frame n n'" and "static_parent n \<Longrightarrow> net_frame I N \<Longrightarrow> I w' = I w"
proof -
  from assms obtain c err c' m1 w1 where c: "n_client n = Some c"
    and s: "SendUpstream (node_net N n) env c m w = (Returned err, c', m1, w1)"
    and n': "n' = (if err = None then n\<lparr>n_client := Some c'\<rparr>
      else n\<lparr>n_client := Some c', pendingq := push (pendingq n) env\<rparr>)" "w' = w1"
    by (auto simp: Let_def split: option.splits prod.splits outcome.splits)
  show "node_frame n n'" by (simp add: n' node_frame_def)
  show "I w' = I w" if "static_parent n" "net_frame I N"
    using net_frame_SendUpstream [OF static_parent_net [OF that] s] by (simp add: n')
qed

lemma svc_inv_with_node:
  assumes "svc_inv L C store (sv y)" and "node_frame (svc_node (sv y)) n" and "store (fst w)"
  shows "svc_inv L C store (sv (with_node (m, n, w) y))"
  using assms by (simp add: with_node_def svc_inv_def node_frame_def policy_current_def node_ok_def static_parent_def)

lemma svc_inv_with_server:
  assumes "svc_inv L C store (sv y)" and "sys_server y = Some s"
    and "authorizeChild s' = authorizeChild s" and "server_ok s'"
  shows "svc_inv L C store (sv (with_server s' m y))"
  using assms
  by (simp add: with_server_def svc_inv_def policy_current_def node_ok_def static_parent_def)

text \<open>What an envelope does that comes from a child, or from the parent.\<close>

lemma up_hook_effect:
  assumes inv: "svc_inv L C store y" and net: "net_frame fst N"
    and run: "node_up_hook N c env (m, svc_node y, svc_world y) = (e, m', n', w')"
  shows "e = None" and "node_frame (svc_node y) n'"
    and "fst w' = (if Kind env = kindLog then snd (Save L C env (fst (svc_world y))) else fst (svc_world y))"
proof -
  let ?w = "runUpstreamHandlers c env (svc_node y) (svc_world y)"
  obtain r n1 m1 w1 where f: "forwardUp N env (svc_node y) m ?w = (r, n1, m1, w1)" by (rule prod_cases4)
  have r: "r = Returned None" using f by (auto elim: forwardUp_cases)
  with run f have e: "e = None" "n' = n1" "w' = w1"
    by (simp_all add: node_up_hook_def handleUpstreamFromChild_def)
  show "e = None" by (rule e)
  show "node_frame (svc_node y) n'" using forwardUp_node_frame [OF f] by (simp add: e)
  have "fst w' = fst ?w" using forwardUp_world [OF f svc_invD(7) [OF inv] net] by (simp add: e)
  also have "\<dots> = (if Kind env = kindLog then snd (Save L C env (fst (svc_world y))) else fst (svc_world y))"
    by (simp add: slice_at_handlers [OF svc_invD(4) [OF inv]] save_log_def split: prod.split)
  finally show "fst w' = (if Kind env = kindLog then snd (Save L C env (fst (svc_world y))) else fst (svc_world y))" .
qed

text \<open>A broadcast to the children changes their channels only.\<close>

definition chans_only :: "'w node \<Rightarrow> 'w node \<Rightarrow> bool" where
  "chans_only n n' \<longleftrightarrow>
     n' = n\<lparr>n_server := n_server n'\<rparr> \<and>
     (case (n_server n, n_server n') of
        (None, None) \<Rightarrow> True
      | (Some s, Some s') \<Rightarrow> children s' = children s \<and> next_chan s' = next_chan s \<and>
          authorizeChild s' = authorizeChild s \<and> (server_ok s \<longrightarrow> server_ok s')
      | _ \<Rightarrow> False)"

lemma site_hook_effect:
  assumes inv: "svc_inv L C store y"
    and ord: "\<And>s. n_server (svc_node y) = Some s \<Longrightarrow> range_order (v env) (children s)"
    and run: "recvLoop_received (Some (site_hook v)) env (m, svc_node y, svc_world y) = (m', n', w')"
  shows "chans_only (svc_node y) n'"
    and "fst w' = (if Kind env = kindConfig then snd (Save L C env (fst (svc_world y))) else fst (svc_world y))"
proof -
  have h: "handleDownstreamFromParent (v env) env (svc_node y) (inc_received ''downstream'' m) (svc_world y) = (n', m', w')"
    using run by (simp add: recvLoop_received_def site_hook_def split: prod.splits)
  then show "chans_only (svc_node y) n'"
  proof (cases rule: handleDown_cases)
    case leaf
    then show ?thesis by (simp add: chans_only_def)
  next
    case (broadcast s re s')
    have ok: "server_ok s" using svc_invD(3) [OF inv] broadcast(1) by (simp add: node_ok_def)
    note b = Broadcast_buffers(1) [OF ok ord [OF broadcast(1)] broadcast(2)]
    have "children s' = children s" "next_chan s' = next_chan s" "authorizeChild s' = authorizeChild s"
      by (subst b, simp)+
    with server_ok_Broadcast [OF ok ord [OF broadcast(1)] broadcast(2)] broadcast(1,3) show ?thesis
      by (simp add: chans_only_def)
  qed
  have h2: "w' = runDownstreamHandlers env (svc_node y) (svc_world y)"
    using h by (cases rule: handleDown_cases) simp_all
  have "runDownstreamHandlers env (svc_node y) (svc_world y) =
      (if Kind env = kindConfig then save_config L C env (svc_world y) else svc_world y)"
    using svc_invD(5) [OF inv] by (simp add: runDownstreamHandlers_def)
  then show "fst w' = (if Kind env = kindConfig then snd (Save L C env (fst (svc_world y))) else fst (svc_world y))"
    using h2 by (auto simp: save_config_def split: prod.split)
qed


subsection \<open>What a step may change\<close>

text \<open>
  \<open>svc_frame E A\<close>: no child is registered or removed, whether children are restricted and whether
  there is a retry loop stays as it is, a client is kept, the allow list gains at most ids of \<open>A\<close> and the store is as before or saved one envelope
  of \<open>E\<close>.
\<close>

definition same_children :: "server option \<Rightarrow> server option \<Rightarrow> bool" where
  "same_children so so' \<longleftrightarrow>
     (case (so, so') of
        (None, None) \<Rightarrow> True
      | (Some s, Some s') \<Rightarrow> children s' = children s \<and> next_chan s' = next_chan s
      | _ \<Rightarrow> False)"

lemma same_children_refl [simp]: "same_children so so"
  by (simp add: same_children_def split: option.split)

definition svc_frame ::
  "('d, 't) bolt \<Rightarrow> codec \<Rightarrow> envelope set \<Rightarrow> string set \<Rightarrow> ('d, 'n) service \<Rightarrow> ('d, 'n) service \<Rightarrow> bool"
where
  "svc_frame L C E A y v \<longleftrightarrow>
     same_children (n_server (svc_node y)) (n_server (svc_node v)) \<and>
     restricts_children (svc_node v) = restricts_children (svc_node y) \<and>
     retryStarted (svc_node v) = retryStarted (svc_node y) \<and>
     (n_client (svc_node y) \<noteq> None \<longrightarrow> n_client (svc_node v) \<noteq> None) \<and>
     (\<forall>i. contains (svc_allow v) i \<longrightarrow> contains (svc_allow y) i \<or> i \<in> A) \<and>
     (fst (svc_world v) = fst (svc_world y) \<or>
      (\<exists>env\<in>E. fst (svc_world v) = snd (Save L C env (fst (svc_world y)))))"

lemma svc_frame_refl [simp]: "svc_frame L C E A y y"
  by (simp add: svc_frame_def)

lemma same_children_sync [simp]: "same_children (n_server n) (n_server (sync_policy l n))"
  by (auto simp: sync_policy_def SetAuthorizeChild_def same_children_def split: option.splits)

lemma retryStarted_sync [simp]: "retryStarted (sync_policy l n) = retryStarted n"
  by (simp add: sync_policy_def split: option.split)

lemma SendDown_children:
  "SendDown ks kind p t1 t2 n m = (re, n', m') \<Longrightarrow>
   same_children (n_server n) (n_server n') \<and> cfg n' = cfg n \<and>
   retryStarted n' = retryStarted n \<and> n_client n' = n_client n"
  by (auto simp: SendDown_def same_children_def split: option.splits prod.splits
      dest: Broadcast_frame(2,4))

lemma nodeSendToChild_children:
  "nodeSendToChild k kind p t1 t2 n m = (e, n', m') \<Longrightarrow>
   same_children (n_server n) (n_server n') \<and> cfg n' = cfg n \<and>
   retryStarted n' = retryStarted n \<and> n_client n' = n_client n"
  by (auto simp: nodeSendToChild_def same_children_def split: option.splits prod.splits
      dest: SendToChild_frame(2,4))

lemma handleAgentLog_node_frame:
  assumes "handleAgentLog N rq y w = (r, v)"
  shows "node_frame (svc_node y) (svc_node v)"
proof (cases "rq_decode rq ''payload''")
  case (Inl err)
  with assms have "v = y" by (simp add: handleAgentLog_def)
  then show ?thesis by simp
next
  case (Inr p)
  obtain r0 n' m' w' where s: "SendUp N (rq_ctx rq) kindLog p (now1 rq) (now2 rq) (svc_node y)
      (svc_metrics y) (svc_world y) = (r0, n', m', w')"
    by (rule prod_cases4)
  then have "node_frame (svc_node y) n'" by (auto simp: SendUp_def Let_def dest: forwardUp_node_frame)
  moreover have "svc_node v = n'" using assms by (auto simp: handleAgentLog_def Inr s)
  ultimately show ?thesis by simp
qed

lemma handleAdminConfig_frame:
  assumes "handleAdminConfig rq y w = (r, v)"
  shows "svc_frame L C E A y v"
proof (cases "rq_decode rq ''data''")
  case (Inl err)
  with assms have "v = y" by (simp add: handleAdminConfig_def)
  then show ?thesis by simp
next
  case (Inr p)
  obtain res err n' m' where s: "SendDown (map_order rq) kindConfig p (now1 rq) (now2 rq) (svc_node y)
      (svc_metrics y) = ((res, err), n', m')"
    by (metis surj_pair)
  have "v = y\<lparr>svc_node := n', svc_metrics := m'\<rparr>"
    using assms by (simp add: handleAdminConfig_def Inr s)
  with SendDown_children [OF s] show ?thesis by (simp add: svc_frame_def restricts_children_def)
qed

lemma handleAdminConfigForChild_frame:
  assumes "handleAdminConfigForChild rq y w = (r, v)"
  shows "svc_frame L C E A y v"
proof (cases "rq_decode rq ''data''")
  case (Inl err)
  with assms have "v = y" by (simp add: handleAdminConfigForChild_def)
  then show ?thesis by simp
next
  case (Inr p)
  obtain e n' m' where s: "nodeSendToChild (rq_pathValue rq) kindConfig p (now1 rq) (now2 rq)
      (svc_node y) (svc_metrics y) = (e, n', m')"
    by (rule prod_cases3)
  have "v = y\<lparr>svc_node := n', svc_metrics := m'\<rparr>"
    using assms by (simp add: handleAdminConfigForChild_def Inr s)
  with nodeSendToChild_children [OF s] show ?thesis by (simp add: svc_frame_def restricts_children_def)
qed

lemma edit_policy_frame:
  "(\<And>i. contains l i \<Longrightarrow> contains (svc_allow y) i \<or> i \<in> A) \<Longrightarrow> svc_frame L C E A y (edit_policy l y)"
  by (simp add: svc_frame_def)

lemma request_frame:
  assumes inv: "svc_inv L C store y" and net: "net_frame fst N"
    and run: "serve_request L C N html mh e rq y = (r, v)"
  shows "svc_frame L C (api_heard (ID (svc_node y)) e rq) (api_approved e rq) y v"
proof (cases e)
  case AgentLog
  with run have h: "handleAgentLog N rq y new_response = (r, v)" by (simp add: serve_request_def)
  show ?thesis
  proof (cases "rq_decode rq ''payload''")
    case (Inl err)
    with h have "v = y" by (simp add: handleAgentLog_def)
    then show ?thesis by simp
  next
    case (Inr p)
    from handleAgentLog_eq [OF inv net Inr h] handleAgentLog_node_frame [OF h] show ?thesis
      by (simp add: node_frame_def svc_frame_def api_heard_def AgentLog Inr restricts_children_def)
  qed
next
  case AdminConfig
  with run obtain r0 where "handleAdminConfig rq y new_response = (r0, v)"
    by (cases "handleAdminConfig rq y new_response") (simp add: serve_request_def)
  then show ?thesis by (rule handleAdminConfig_frame)
next
  case AdminConfigForChild
  with run obtain r0 where "handleAdminConfigForChild rq y new_response = (r0, v)"
    by (cases "handleAdminConfigForChild rq y new_response") (simp add: serve_request_def)
  then show ?thesis by (rule handleAdminConfigForChild_frame)
next
  case ApproveChild
  show ?thesis
  proof (cases "\<exists>i. rq_decode rq ''node_id'' = Inr i \<and> i \<noteq> []")
    case True
    then obtain i where i: "rq_decode rq ''node_id'' = Inr i" "i \<noteq> []" by blast
    with run ApproveChild have "v = edit_policy (allow_Add i (svc_allow y)) y"
      by (simp add: serve_request_def handleApproveChild_def Let_def)
    then show ?thesis
      by (auto intro!: edit_policy_frame simp: contains_Add api_approved_def ApproveChild i)
  next
    case False
    with run ApproveChild have "v = y"
      by (cases "rq_decode rq ''node_id''") (simp_all add: serve_request_def handleApproveChild_def)
    then show ?thesis by simp
  qed
next
  case RevokeChild
  with run have "v = edit_policy (allow_Remove (rq_pathValue rq) (svc_allow y)) y"
    by (simp add: serve_request_def handleRevokeChild_def)
  then show ?thesis by (auto intro!: edit_policy_frame simp: contains_Remove)
qed (use run in \<open>simp_all add: serve_request_def\<close>)

subsection \<open>The invariant of the running service\<close>

text \<open>
  \<open>claim_ok\<close>: the claimed id is not empty, is the common name of the peer's certificate, and was on
  the allow list at some time. \<open>key_for\<close>: the id, or the id with a number for a duplicate.
\<close>

definition claim_ok :: "string set \<Rightarrow> ctx \<Rightarrow> bool" where
  "claim_ok ids c \<longleftrightarrow> childNodeID c \<noteq> '''' \<and> peer_cn c = Some (childNodeID c) \<and> childNodeID c \<in> ids"

definition key_for :: "string \<Rightarrow> string \<Rightarrow> bool" where
  "key_for k i \<longleftrightarrow> k = i \<or> (\<exists>j. k = dup_key i j)"

text \<open>
  Every entry of the children map belongs to a handler with that key and channel; behind a policy
  every call has a good claim; what is stored was heard; a retry loop has a client to retry on.
\<close>

definition entries_ok :: "('d, 'n) svc_sys \<Rightarrow> bool" where
  "entries_ok y \<longleftrightarrow>
     (\<forall>s. sys_server y = Some s \<longrightarrow>
        (\<forall>k ch. fmlookup (children s) k = Some ch \<longrightarrow>
           (\<exists>c b. fmlookup (handlers y) ch = Some (k, c, b))) \<and>
        (\<forall>ch h. fmlookup (handlers y) ch = Some h \<longrightarrow> ch < next_chan s))"

definition claims_ok :: "('d, 'n) svc_sys \<Rightarrow> bool" where
  "claims_ok y \<longleftrightarrow>
     (restricts_children (svc_node (sv y)) \<longrightarrow>
        (\<forall>i. contains (svc_allow (sv y)) i \<longrightarrow> i \<in> ever y) \<and>
        (\<forall>c. c \<in># entering y \<longrightarrow> claim_ok (ever y) c) \<and>
        (\<forall>ch k c b. fmlookup (handlers y) ch = Some (k, c, b) \<longrightarrow>
           claim_ok (ever y) c \<and> key_for k (childNodeID c)))"

definition audit_ok :: "codec \<Rightarrow> ('d \<Rightarrow> (string, string) fmap) \<Rightarrow> ('d, 'n) svc_sys \<Rightarrow> bool" where
  "audit_ok C dv y \<longleftrightarrow>
     (\<forall>k env. fmlookup (store_of C (dv (fst (svc_world (sv y))))) k = Some env \<longrightarrow> env \<in> heard y)"

definition retry_ok :: "('d, 'n) svc_sys \<Rightarrow> bool" where
  "retry_ok y \<longleftrightarrow>
     (retryStarted (svc_node (sv y)) \<or> hand y \<noteq> [] \<longrightarrow> n_client (svc_node (sv y)) \<noteq> None)"

definition running_inv ::
  "('d, 't) bolt \<Rightarrow> codec \<Rightarrow> ('d \<Rightarrow> (string, string) fmap) \<Rightarrow> ('t \<Rightarrow> (string, string) fmap)
    \<Rightarrow> ('d, 'n) svc_sys \<Rightarrow> bool"
where
  "running_inv L C dv tv y \<longleftrightarrow>
     svc_inv L C (bolt_ok L C dv tv) (sv y) \<and> entries_ok y \<and> claims_ok y \<and> audit_ok C dv y \<and> retry_ok y"

lemma claim_ok_mono: "claim_ok A c \<Longrightarrow> A \<subseteq> B \<Longrightarrow> claim_ok B c"
  by (auto simp: claim_ok_def)

text \<open>The steps within the frame: all but a registration and a removal.\<close>

definition same_keys :: "(chan, string \<times> ctx \<times> bool) fmap \<Rightarrow> (chan, string \<times> ctx \<times> bool) fmap \<Rightarrow> bool" where
  "same_keys h h' \<longleftrightarrow>
     (\<forall>ch k c. (\<exists>b. fmlookup h' ch = Some (k, c, b)) \<longleftrightarrow> (\<exists>b. fmlookup h ch = Some (k, c, b)))"

lemma same_keys_refl [simp]: "same_keys h h"
  by (simp add: same_keys_def)

lemma same_keys_upd [simp]: "fmlookup h ch = Some (k, c, b) \<Longrightarrow> same_keys h (fmupd ch (k, c, b') h)"
  by (auto simp: same_keys_def)

lemma same_keysD:
  "same_keys h h' \<Longrightarrow> fmlookup h' ch = Some (k, c, b) \<Longrightarrow> \<exists>b. fmlookup h ch = Some (k, c, b)"
  unfolding same_keys_def by blast

lemma entries_frame:
  assumes "entries_ok y" and "same_children (sys_server y) (sys_server y')"
    and "same_keys (handlers y) (handlers y')"
  shows "entries_ok y'"
  unfolding entries_ok_def
proof (intro allI impI conjI)
  fix s' assume s': "sys_server y' = Some s'"
  with assms(2) obtain s where s: "sys_server y = Some s" "children s' = children s" "next_chan s' = next_chan s"
    by (auto simp: same_children_def split: option.splits)
  note ok = assms(1) [unfolded entries_ok_def, rule_format, OF s(1)]
  show "\<exists>c b. fmlookup (handlers y') ch = Some (k, c, b)" if "fmlookup (children s') k = Some ch" for k ch
    using ok that assms(3) by (fastforce simp: s same_keys_def)
  show "ch < next_chan s'" if "fmlookup (handlers y') ch = Some h" for ch h
    using ok that same_keysD [OF assms(3)] by (cases h) (fastforce simp: s)
qed

lemma claims_frame:
  assumes ok: "claims_ok y" and fr: "svc_frame L C E A (sv y) (sv y')"
    and ever: "ever y \<union> A \<subseteq> ever y'" and h: "same_keys (handlers y) (handlers y')"
    and new: "\<And>c. restricts_children (svc_node (sv y)) \<Longrightarrow> c \<in># entering y' \<Longrightarrow>
      c \<in># entering y \<or> claim_ok (ever y') c"
  shows "claims_ok y'"
  unfolding claims_ok_def
proof (intro allI impI conjI)
  assume "restricts_children (svc_node (sv y'))"
  with fr have r: "restricts_children (svc_node (sv y))" by (simp add: svc_frame_def)
  note ok' = mp [OF ok [unfolded claims_ok_def] r]
  have mono: "claim_ok (ever y') c" if "claim_ok (ever y) c" for c
    using claim_ok_mono [OF that] ever by simp
  from fr have al: "contains (svc_allow (sv y')) i \<Longrightarrow> contains (svc_allow (sv y)) i \<or> i \<in> A" for i
    by (simp add: svc_frame_def)
  show "i \<in> ever y'" if "contains (svc_allow (sv y')) i" for i
    using al [OF that] ever conjunct1 [OF ok'] by blast
  show "claim_ok (ever y') c" if "c \<in># entering y'" for c
    using new [OF r that] conjunct1 [OF conjunct2 [OF ok']] mono by blast
  fix ch k c b assume "fmlookup (handlers y') ch = Some (k, c, b)"
  from same_keysD [OF h this] conjunct2 [OF conjunct2 [OF ok']]
  have "claim_ok (ever y) c \<and> key_for k (childNodeID c)" by blast
  with mono show "claim_ok (ever y') c" and "key_for k (childNodeID c)" by simp_all
qed

lemma audit_frame:
  assumes "svc_inv L C (bolt_ok L C dv tv) (sv y)" and "audit_ok C dv y"
    and "svc_frame L C E A (sv y) (sv y')" and "heard y \<union> E \<subseteq> heard y'"
  shows "audit_ok C dv y'"
proof -
  let ?d = "fst (svc_world (sv y))" and ?d' = "fst (svc_world (sv y'))"
  have "?d' = ?d \<or> (\<exists>env\<in>E. ?d' = snd (Save L C env ?d))" using assms(3) by (simp add: svc_frame_def)
  then have "store_of C (dv ?d') = store_of C (dv ?d) \<or>
      (\<exists>env\<in>E. store_of C (dv ?d') = fmupd (EnvId env) env (store_of C (dv ?d)))"
  proof
    assume "\<exists>env\<in>E. ?d' = snd (Save L C env ?d)"
    then obtain env e where env: "env \<in> E" "Save L C env ?d = (e, ?d')" by (metis prod.collapse)
    with bolt.save_ok [OF svc_invD(6) [OF assms(1)]] bolt.save_failed [OF svc_invD(6) [OF assms(1)]]
    show ?thesis by (cases e) blast+
  qed simp
  with assms(2) have "env \<in> heard y \<union> E" if "fmlookup (store_of C (dv ?d')) k = Some env" for k env
    using that by (fastforce simp: audit_ok_def split: if_splits)
  with assms(4) show ?thesis unfolding audit_ok_def by blast
qed

lemma running_inv_frame:
  assumes inv: "running_inv L C dv tv y" and fr: "svc_frame L C E A (sv y) (sv y')"
    and keep: "svc_inv L C (bolt_ok L C dv tv) (sv y')"
    and hist: "heard y \<union> E \<subseteq> heard y'" "ever y \<union> A \<subseteq> ever y'"
    and h: "same_keys (handlers y) (handlers y')"
    and new: "\<And>c. restricts_children (svc_node (sv y)) \<Longrightarrow> c \<in># entering y' \<Longrightarrow>
      c \<in># entering y \<or> claim_ok (ever y') c"
    and hand: "hand y' \<noteq> [] \<Longrightarrow> hand y \<noteq> [] \<or> retryStarted (svc_node (sv y))"
  shows "running_inv L C dv tv y'"
proof -
  from inv have ok: "svc_inv L C (bolt_ok L C dv tv) (sv y)" "entries_ok y" "claims_ok y" "audit_ok C dv y"
    "retry_ok y"
    by (simp_all add: running_inv_def)
  have "entries_ok y'" using entries_frame [OF ok(2) _ h] fr by (simp add: svc_frame_def)
  moreover note claims_frame [OF ok(3) fr hist(2) h new] audit_frame [OF ok(1,4) fr hist(1)]
  moreover have "retry_ok y'" using ok(5) fr hand by (auto simp: retry_ok_def svc_frame_def)
  ultimately show ?thesis using keep by (simp add: running_inv_def)
qed


subsection \<open>The steps\<close>

lemma with_node_inv:
  assumes inv: "running_inv L C dv tv y" and fr: "node_frame (svc_node (sv y)) n"
    and w: "fst w = fst (svc_world (sv y)) \<or> (\<exists>env\<in>E. fst w = snd (Save L C env (fst (svc_world (sv y)))))"
    and eqs: "sv y' = sv (with_node (m, n, w) y)" "entering y' = entering y" "handlers y' = handlers y"
      "ever y' = ever y" "heard y \<union> E \<subseteq> heard y'"
    and hand: "hand y' \<noteq> [] \<Longrightarrow> hand y \<noteq> [] \<or> retryStarted (svc_node (sv y))"
  shows "running_inv L C dv tv y'"
proof (rule running_inv_frame [OF inv])
  have svc: "svc_inv L C (bolt_ok L C dv tv) (sv y)" using inv by (simp add: running_inv_def)
  have "bolt_ok L C dv tv (fst w)"
    using w svc_invD(6) [OF svc] bolt_saves_keep [of L C dv tv] by (auto simp: saves_keep_def)
  from svc_inv_with_node [OF svc fr this] show "svc_inv L C (bolt_ok L C dv tv) (sv y')"
    by (simp add: eqs)
  show "svc_frame L C E {} (sv y) (sv y')"
    using fr w by (simp add: eqs svc_frame_def with_node_def node_frame_def restricts_children_def)
qed (use eqs hand in simp_all)

lemma with_server_inv:
  assumes inv: "running_inv L C dv tv y" and s: "sys_server y = Some s"
    and s': "children s' = children s" "next_chan s' = next_chan s" "authorizeChild s' = authorizeChild s"
      "server_ok s'"
    and eqs: "sv y' = sv (with_server s' m y)" "ever y' = ever y" "heard y' = heard y" "hand y' = hand y"
    and h: "same_keys (handlers y) (handlers y')"
    and new: "\<And>c. restricts_children (svc_node (sv y)) \<Longrightarrow> c \<in># entering y' \<Longrightarrow>
      c \<in># entering y \<or> claim_ok (ever y) c"
  shows "running_inv L C dv tv y'"
proof (rule running_inv_frame [OF inv])
  have svc: "svc_inv L C (bolt_ok L C dv tv) (sv y)" using inv by (simp add: running_inv_def)
  from svc_inv_with_server [OF svc s s'(3,4)] show "svc_inv L C (bolt_ok L C dv tv) (sv y')"
    by (simp add: eqs)
  show "svc_frame L C {} {} (sv y) (sv y')"
    using s s' by (simp add: eqs svc_frame_def with_server_def same_children_def restricts_children_def)
qed (use eqs h new in simp_all)

lemma authorize_children:
  assumes "authorize now c i s m = (r, s', m')"
  shows "children s' = children s" "next_chan s' = next_chan s" "authorizeChild s' = authorizeChild s"
  using assms
  by (auto simp: authorize_def recordRejection_def clearRejection_def split: option.splits if_splits)

lemma sys_server_ok:
  assumes "running_inv L C dv tv y" and "sys_server y = Some s"
  shows "server_ok s"
  using assms by (simp add: running_inv_def svc_inv_def node_ok_def)

lemma authorized_claim:
  assumes inv: "running_inv L C dv tv y" and s: "sys_server y = Some s"
    and r: "restricts_children (svc_node (sv y))"
    and ok: "authorize now c (childNodeID c) s m = (None, s', m')"
  shows "claim_ok (ever y) c"
proof -
  have "authorizeChild s = Authorize (svc_allow (sv y))"
    using hook_current [OF _ r s] svc_invD(1) inv by (simp add: running_inv_def svc_inv_def)
  note auth = authorize_with_policy [OF this ok]
  have "childNodeID c \<in> ever y" using inv r auth(2) by (simp add: running_inv_def claims_ok_def)
  with auth show ?thesis by (simp add: claim_ok_def)
qed

lemma Downstream_turn_children:
  assumes "Downstream_turn ch choice s = Some (res, out, s')"
  shows "children s' = children s" "next_chan s' = next_chan s" "authorizeChild s' = authorizeChild s"
  using assms
  by (auto simp: Downstream_turn_def chan_recv_def split: downstream_choice.splits option.splits)

lemma Upstream_open_authorize:
  "Upstream_open now c s m = (r, s', m') \<Longrightarrow> \<exists>m1. authorize now c (childNodeID c) s m = (r, s', m1)"
  by (auto simp: Upstream_open_def split: prod.splits option.splits)

lemma registerChild_key:
  "registerChild i s = ((key, ch), s') \<Longrightarrow> i \<noteq> '''' \<Longrightarrow> key_for key i"
  by (auto simp: registerChild_def Let_def key_for_def split: if_splits)

lemma registered_inv:
  assumes inv: "running_inv L C dv tv y" and c: "c \<in># entering y" and s: "sys_server y = Some s"
    and reg: "registerChild (childNodeID c) s = ((key, ch), s')"
  shows "running_inv L C dv tv ((with_server s' m y)
    \<lparr>entering := entering y - {#c#}, handlers := fmupd ch (key, c, True) (handlers y)\<rparr>)"
    (is "running_inv L C dv tv ?y")
proof -
  note fr = registerChild_frame [OF reg]
  from inv have ok: "svc_inv L C (bolt_ok L C dv tv) (sv y)" "entries_ok y" "claims_ok y" "audit_ok C dv y"
    "retry_ok y"
    by (simp_all add: running_inv_def)
  have "svc_inv L C (bolt_ok L C dv tv) (sv ?y)"
    using svc_inv_with_server [OF ok(1) s fr(5) server_ok_registerChild [OF sys_server_ok [OF inv s] reg]] by simp
  moreover have "entries_ok ?y"
    unfolding entries_ok_def
  proof (intro allI impI conjI)
    fix t assume "sys_server ?y = Some t"
    then have t: "t = s'" by (simp add: with_server_def)
    note e = ok(2) [unfolded entries_ok_def, rule_format, OF s]
    show "\<exists>c b. fmlookup (handlers ?y) d = Some (k, c, b)" if k: "fmlookup (children t) k = Some d" for k d
    proof (cases "k = key")
      case True
      with k have "d = ch" by (simp add: t fr(3))
      with True show ?thesis by auto
    next
      case False
      with k have "fmlookup (children s) k = Some d" by (simp add: t fr(3))
      with e obtain c' b where h: "fmlookup (handlers y) d = Some (k, c', b)" by blast
      then have "d \<noteq> ch" using e by (metis fr(1) less_irrefl)
      with h show ?thesis by simp
    qed
    show "d < next_chan t" if "fmlookup (handlers ?y) d = Some h" for d h
    proof (cases "d = ch")
      case False
      with that have "fmlookup (handlers y) d = Some h" by simp
      with e have "d < next_chan s" by blast
      then show ?thesis by (simp add: t fr(2))
    qed (simp add: t fr(1,2))
  qed
  moreover have "claims_ok ?y"
  proof -
    have "claim_ok (ever y) c \<and> key_for key (childNodeID c)" if "restricts_children (svc_node (sv y))"
      using ok(3) c that registerChild_key [OF reg] by (simp add: claims_ok_def claim_ok_def)
    then show ?thesis
      using ok(3) by (auto simp: claims_ok_def with_server_def restricts_children_def dest: in_diffD)
  qed
  moreover have "audit_ok C dv ?y" "retry_ok ?y"
    using ok(4,5) by (simp_all add: audit_ok_def retry_ok_def with_server_def)
  ultimately show ?thesis by (simp add: running_inv_def)
qed

lemma cleanup_inv:
  assumes inv: "running_inv L C dv tv y" and h: "fmlookup (handlers y) ch = Some (key, c, b)"
    and s: "sys_server y = Some s" and run: "Downstream_cleanup key s m = (s', m')"
  shows "running_inv L C dv tv ((with_server s' m' y)\<lparr>handlers := fmdrop ch (handlers y)\<rparr>)"
    (is "running_inv L C dv tv ?y")
proof -
  from run have s': "s' = unregisterChild key s" by (simp add: Downstream_cleanup_def)
  then have fr: "children s' = fmdrop key (children s)" "next_chan s' = next_chan s"
    "authorizeChild s' = authorizeChild s"
    by (simp_all add: unregisterChild_def)
  from inv have ok: "svc_inv L C (bolt_ok L C dv tv) (sv y)" "entries_ok y" "claims_ok y" "audit_ok C dv y"
    "retry_ok y"
    by (simp_all add: running_inv_def)
  have "server_ok s'" using server_ok_unregisterChild [OF sys_server_ok [OF inv s]] by (simp add: s')
  then have "svc_inv L C (bolt_ok L C dv tv) (sv ?y)"
    using svc_inv_with_server [OF ok(1) s fr(3)] by simp
  moreover have "entries_ok ?y"
    unfolding entries_ok_def
  proof (intro allI impI conjI)
    fix t assume "sys_server ?y = Some t"
    then have t: "t = s'" by (simp add: with_server_def)
    note e = ok(2) [unfolded entries_ok_def, rule_format, OF s]
    show "\<exists>c b. fmlookup (handlers ?y) d = Some (k, c, b)" if k: "fmlookup (children t) k = Some d" for k d
    proof -
      from k have "k \<noteq> key" "fmlookup (children s) k = Some d" by (simp_all add: t fr split: if_splits)
      with e obtain c' b' where "fmlookup (handlers y) d = Some (k, c', b')" by blast
      with h \<open>k \<noteq> key\<close> show ?thesis by auto
    qed
    show "d < next_chan t" if "fmlookup (handlers ?y) d = Some h'" for d h'
    proof -
      from that have "fmlookup (handlers y) d = Some h'" by (simp split: if_splits)
      with e have "d < next_chan s" by blast
      then show ?thesis by (simp add: t fr)
    qed
  qed
  moreover have "claims_ok ?y"
    using ok(3) by (auto simp: claims_ok_def with_server_def restricts_children_def)
  moreover have "audit_ok C dv ?y" "retry_ok ?y"
    using ok(4,5) by (simp_all add: audit_ok_def retry_ok_def with_server_def)
  ultimately show ?thesis by (simp add: running_inv_def)
qed


lemma net_frame_reconnect_tick:
  assumes "net_frame I N" and "reconnect_tick N c w = (b, c', w')"
  shows "I w' = I w"
proof -
  have up: "I w2 = I w1" if "snd (reopenUpstream N c1 w1) = (c2, w2)" for c1 w1 c2 w2
    using net_frame_reopenUpstream [OF assms(1), of c1 w1] that by (metis prod.collapse)
  have down: "I w2 = I w1" if "snd (reopenDownstream N c1 w1) = (c2, w2)" for c1 w1 c2 w2
    using net_frame_reopenDownstream [OF assms(1), of c1 w1] that by (metis prod.collapse)
  show ?thesis
    using assms(2)
    by (auto simp: reconnect_tick_def Let_def split: if_splits prod.splits dest!: up down)
qed

lemma chans_only_frame:
  assumes inv: "svc_inv L C store y" and ch: "chans_only (svc_node y) n'" and d: "store (fst w)"
  shows "svc_inv L C store (y\<lparr>svc_node := n', svc_metrics := m, svc_world := w\<rparr>)"
    and "same_children (n_server (svc_node y)) (n_server n')"
    and "cfg n' = cfg (svc_node y)" "retryStarted n' = retryStarted (svc_node y)"
      "n_client n' = n_client (svc_node y)"
proof -
  obtain so where n': "n' = (svc_node y)\<lparr>n_server := so\<rparr>" using ch by (auto simp: chans_only_def)
  show "cfg n' = cfg (svc_node y)" "retryStarted n' = retryStarted (svc_node y)"
    "n_client n' = n_client (svc_node y)"
    by (simp_all add: n')
  show "same_children (n_server (svc_node y)) (n_server n')"
    using ch by (auto simp: n' chans_only_def same_children_def split: option.splits)
  have "so = None \<and> n_server (svc_node y) = None \<or>
      (\<exists>s s'. so = Some s' \<and> n_server (svc_node y) = Some s \<and> authorizeChild s' = authorizeChild s \<and>
         (server_ok s \<longrightarrow> server_ok s'))"
    using ch by (auto simp: n' chans_only_def split: option.splits)
  then show "svc_inv L C store (y\<lparr>svc_node := n', svc_metrics := m, svc_world := w\<rparr>)"
    using inv d by (auto simp: n' svc_inv_def policy_current_def node_ok_def static_parent_def)
qed

lemma parent_sent_inv:
  assumes inv: "running_inv L C dv tv y"
    and ord: "\<And>s. sys_server y = Some s \<Longrightarrow> range_order (v env) (children s)"
    and run: "recvLoop_received (Some (site_hook v)) env (sys_mnw y) = mnw"
  shows "running_inv L C dv tv
    ((with_node mnw y)\<lparr>heard := heard y \<union> (if Kind env = kindConfig then {env} else {})\<rparr>)"
    (is "running_inv L C dv tv ?y")
proof -
  obtain m n w where mnw: "mnw = (m, n, w)" by (rule prod_cases3)
  have svc: "svc_inv L C (bolt_ok L C dv tv) (sv y)" using inv by (simp add: running_inv_def)
  note eff = site_hook_effect [OF svc ord run [unfolded mnw]]
  have w: "bolt_ok L C dv tv (fst w)"
    using eff(2) svc_invD(6) [OF svc] bolt_saves_keep [of L C dv tv] by (auto simp: saves_keep_def)
  note fr = chans_only_frame [OF svc eff(1) w]
  show ?thesis
  proof (rule running_inv_frame [OF inv])
    show "svc_inv L C (bolt_ok L C dv tv) (sv ?y)" using fr(1) [of m] by (simp add: with_node_def mnw)
    show "svc_frame L C (if Kind env = kindConfig then {env} else {}) {} (sv y) (sv ?y)"
      using fr(2-5) eff(2) by (simp add: svc_frame_def with_node_def mnw restricts_children_def)
  qed (simp_all add: with_node_def mnw)
qed

lemma with_node_sel [simp]:
  "entering (with_node mnw y) = entering y" "handlers (with_node mnw y) = handlers y"
  "ever (with_node mnw y) = ever y" "heard (with_node mnw y) = heard y" "hand (with_node mnw y) = hand y"
  by (simp_all add: with_node_def split: prod.split)

lemma with_server_sel [simp]:
  "entering (with_server s m y) = entering y" "handlers (with_server s m y) = handlers y"
  "ever (with_server s m y) = ever y" "heard (with_server s m y) = heard y" "hand (with_server s m y) = hand y"
  by (simp_all add: with_server_def)

lemma net_frame_Close:
  assumes "net_frame I N" and "Close N c w = (e, c', w')"
  shows "I w' = I w"
proof -
  have "I w2 = I w1" if "close_conn N k e1 w1 = (e2, w2)" for k e1 w1 e2 w2
    using that net_frameD(5) [OF assms(1)] by (auto simp: close_conn_def split: option.splits prod.splits)
      (metis snd_conv)+
  then show ?thesis
    using assms(2) net_frameD(6) [OF assms(1)]
    by (auto simp: Close_def Let_def split: option.splits prod.splits)
qed

lemma shutdown_inv:
  assumes inv: "svc_inv L C store y" and net: "net_frame fst N"
  shows "svc_inv L C store (service_shutdown N y)" "svc_frame L C {} {} y (service_shutdown N y)"
proof -
  obtain e n' w' where st: "nodeStop N (svc_node y) (svc_world y) = (e, n', w')" by (rule prod_cases3)
  have v: "service_shutdown N y = y\<lparr>svc_node := n', svc_world := w'\<rparr>" by (simp add: service_shutdown_def st)
  have n': "cfg n' = cfg (svc_node y)" "upstreamHandlers n' = upstreamHandlers (svc_node y)"
    "downstreamHandlers n' = downstreamHandlers (svc_node y)" "retryStarted n' = retryStarted (svc_node y)"
    "n_server n' = map_option Stop (n_server (svc_node y))" "n_client (svc_node y) \<noteq> None \<Longrightarrow> n_client n' \<noteq> None"
    using st by (auto simp: nodeStop_def Let_def split: option.splits prod.splits)
  have w': "fst w' = fst (svc_world y)"
    using st net_frame_Close [OF net] by (auto simp: nodeStop_def Let_def split: option.splits prod.splits)
  have stop: "children (Stop s) = children s" "next_chan (Stop s) = next_chan s" "authorizeChild (Stop s) = authorizeChild s"
    "server_ok (Stop s) = server_ok s" for s
    by (simp_all add: Stop_def split: option.split)
  show "svc_inv L C store (service_shutdown N y)"
    using inv by (auto simp: v n' w' stop svc_inv_def policy_current_def node_ok_def static_parent_def)
  show "svc_frame L C {} {} y (service_shutdown N y)"
    using n'(6) by (simp add: v n'(1-5) w' stop svc_frame_def same_children_def restricts_children_def split: option.split)
qed

lemma service_step_inv:
  assumes inv: "running_inv L C dv tv y" and net: "net_frame fst N"
    and step: "service_step L C N html mh y y'"
  shows "running_inv L C dv tv y'"
  using step
proof (cases rule: service_step.cases)
  case (api rq e r v)
  have svc: "svc_inv L C (bolt_ok L C dv tv) (sv y)" using inv by (simp add: running_inv_def)
  from serve_request_inv [OF svc net bolt_saves_keep api(2,3)] request_frame [OF svc net api(3)]
  show ?thesis unfolding api(1) by (intro running_inv_frame [OF inv]) auto
next
  case (down_authorized s now c s' m')
  note fr = authorize_children [OF down_authorized(3)]
  note ok = server_ok_authorize [OF sys_server_ok [OF inv down_authorized(2)] down_authorized(3)]
  show ?thesis
    using authorized_claim [OF inv down_authorized(2) _ down_authorized(3)]
    by (intro with_server_inv [OF inv down_authorized(2) fr ok, where m = m']) (auto simp: down_authorized(1))
next
  case (down_rejected s now c err s' m')
  note fr = authorize_children [OF down_rejected(3)]
  note ok = server_ok_authorize [OF sys_server_ok [OF inv down_rejected(2)] down_rejected(3)]
  show ?thesis
    by (intro with_server_inv [OF inv down_rejected(2) fr ok, where m = m']) (simp_all add: down_rejected(1))
next
  case (down_registered c s key ch s')
  from registered_inv [OF inv down_registered(2-4)] show ?thesis by (simp add: down_registered(1))
next
  case (down_turn ch key c s choice res out s')
  note fr = Downstream_turn_children [OF down_turn(4)]
  note ok = server_ok_Downstream_turn [OF sys_server_ok [OF inv down_turn(3)] down_turn(4)]
  show ?thesis
    using down_turn(2)
    by (intro with_server_inv [OF inv down_turn(3) fr ok, where m = "svc_metrics (sv y)"])
      (simp_all add: down_turn(1))
next
  case (down_cleanup ch key c s s' m')
  from cleanup_inv [OF inv down_cleanup(2-4)] show ?thesis by (simp add: down_cleanup(1))
next
  case (up_opened s now c s' m')
  from Upstream_open_authorize [OF up_opened(3)]
  obtain m1 where a: "authorize now c (childNodeID c) s (svc_metrics (sv y)) = (None, s', m1)" by blast
  show ?thesis
    by (intro with_server_inv [OF inv up_opened(2) authorize_children [OF a], where m = m']
        server_ok_authorize [OF sys_server_ok [OF inv up_opened(2)] a]) (simp_all add: up_opened(1))
next
  case (up_rejected s now c err s' m')
  from Upstream_open_authorize [OF up_rejected(3)]
  obtain m1 where a: "authorize now c (childNodeID c) s (svc_metrics (sv y)) = (Some err, s', m1)" by blast
  show ?thesis
    by (intro with_server_inv [OF inv up_rejected(2) authorize_children [OF a], where m = m']
        server_ok_authorize [OF sys_server_ok [OF inv up_rejected(2)] a]) (simp_all add: up_rejected(1))
next
  case (up_received c ack env mnw)
  have svc: "svc_inv L C (bolt_ok L C dv tv) (sv y)" using inv by (simp add: running_inv_def)
  obtain m n w where mnw: "mnw = (m, n, w)" by (rule prod_cases3)
  have "node_up_hook N c env (inc_received ''upstream'' (svc_metrics (sv y)), svc_node (sv y), svc_world (sv y)) =
      (None, m, n, w)"
    using up_received(3) by (simp add: mnw Let_def split: prod.splits option.splits)
  note eff = up_hook_effect [OF svc net this]
  show ?thesis
    by (rule with_node_inv [OF inv eff(2), where w = w and m = m
          and E = "if Kind env = kindLog then {env} else {}"])
      (simp_all add: up_received(1) mnw eff(3))
next
  case (up_ended c ack err res m n w)
  have "node_frame (svc_node (sv y)) n \<and> w = svc_world (sv y)"
    using up_ended(3) by (auto split: if_splits)
  then show ?thesis
    by (intro with_node_inv [OF inv, where n = n and w = w and E = "{}" and m = "dec_conn ''upstream'' m"])
      (simp_all add: up_ended(1))
next
  case (parent_sent env v mnw)
  from parent_sent_inv [OF inv, OF parent_sent(3,4)] show ?thesis by (simp add: parent_sent(1))
next
  case (parent_lost c st)
  show ?thesis
    by (intro with_node_inv [OF inv node_frame_refl(3) [where c = "recvLoop_failed st c"],
          where E = "{}" and w = "svc_world (sv y)" and m = "svc_metrics (sv y)"])
      (simp_all add: parent_lost(1))
next
  case (reconnect c go c' w')
  have "static_parent (svc_node (sv y))" using inv by (simp add: running_inv_def svc_inv_def)
  from net_frame_reconnect_tick [OF static_parent_net [OF this net] reconnect(3)]
  show ?thesis
    by (intro with_node_inv [OF inv node_frame_refl(3) [where c = c'], where E = "{}" and w = w' and
          m = "svc_metrics (sv y)"])
      (simp_all add: reconnect(1))
next
  case (retry_started envs q)
  then show ?thesis
    by (intro with_node_inv [OF inv node_frame_refl(2) [where q = q], where E = "{}" and
          w = "svc_world (sv y)" and m = "svc_metrics (sv y)"]) simp_all
next
  case (retry_one env envs n' m' w')
  have st: "static_parent (svc_node (sv y))" using inv by (simp add: running_inv_def svc_inv_def)
  note fr = retry_one_frame [OF retry_one(3)]
  show ?thesis
    using fr(2) [OF st net]
    by (intro with_node_inv [OF inv fr(1), where E = "{}" and w = w' and m = m'])
      (simp_all add: retry_one(1,2))
next
  case shutdown
  have svc: "svc_inv L C (bolt_ok L C dv tv) (sv y)" using inv by (simp add: running_inv_def)
  from shutdown_inv [OF svc net] show ?thesis
    by (intro running_inv_frame [OF inv]) (auto simp: shutdown)
qed


lemma Start_retry:
  assumes "Start N n w = (e, n', w')" and "\<not> retryStarted n"
  shows "retryStarted n' \<Longrightarrow> n_client n' \<noteq> None"
proof -
  have r: "retryStarted (start_server n) = retryStarted n" by (simp add: start_server_def Let_def)
  obtain e1 c1 w1 where con: "Connect (node_net N (start_server n))
      (NewClient (cfg_id (cfg (start_server n))) (cfg_authn (cfg (start_server n)))) w = (e1, c1, w1)"
    by (rule prod_cases3)
  show "retryStarted n' \<Longrightarrow> n_client n' \<noteq> None"
    using assms r by (auto simp: Start_def Let_def con split: if_splits option.splits)
qed

lemma started_inv:
  assumes load: "loadConfig rd um path = Inr c" and net: "net_frame fst N"
    and db: "bolt_ok L C dv tv db" and start: "start_service L C lib N c db g = Inr v"
  shows "running_inv L C dv tv
    \<lparr>sv = v, entering = {#}, handlers = fmempty, upcalls = {#}, hand = [],
     heard = {env. \<exists>k. fmlookup (store_of C (dv db)) k = Some env}, ever = set (AllowedChildIDs c)\<rparr>"
    (is "running_inv L C dv tv ?y")
proof -
  note inv = start_service_inv(1) [where store = "bolt_ok L C dv tv", OF load net db start]
  obtain n n' w' where n: "service_node lib c = Inr n"
    and st: "Start N (register_handlers L C n) (db, g) = (None, n', w')"
    and v: "v = \<lparr>svc_node = n', svc_metrics = initial_metrics, svc_world = w',
      svc_allow = newChildAllowList (AllowedChildIDs c)\<rparr>"
    by (rule start_service_cases [OF start])
  from service_node_cfg [OF load n] obtain a where nd:
    "n = \<lparr>cfg = service_config c a (newChildAllowList (AllowedChildIDs c)), n_server = None,
      n_client = None, upstreamHandlers = fmempty, downstreamHandlers = fmempty,
      pendingq = empty_queue, retryStarted = False\<rparr>" by blast
  have r: "n_server (register_handlers L C n) = None" "\<not> retryStarted (register_handlers L C n)"
    "static_parent (register_handlers L C n)"
    by (auto simp: nd register_handlers_def OnUpstream_def OnDownstream_def static_parent_def service_config_def)
  note sh = Start_shape(5,6) [OF st]
  have "entries_ok ?y"
    unfolding entries_ok_def
  proof (intro allI impI conjI)
    fix s assume "sys_server ?y = Some s"
    then have "children s = fmempty" using start_server_server [OF r(1)] sh(1)
      by (auto simp: v NewServer_def split: if_splits)
    then show "\<exists>c b. fmlookup (handlers ?y) ch = Some (k, c, b)" if "fmlookup (children s) k = Some ch" for k ch
      using that by simp
  qed simp
  moreover have "claims_ok ?y" by (simp add: claims_ok_def v contains_new)
  moreover have "audit_ok C dv ?y"
    using sh(2) [of fst, OF static_parent_net [OF r(3) net]] by (auto simp: audit_ok_def v)
  moreover have "retry_ok ?y" using Start_retry [OF st r(2)] by (simp add: retry_ok_def v)
  ultimately show ?thesis using inv by (simp add: running_inv_def)
qed

theorem service_reach_inv:
  assumes "net_frame fst N" and "service_reach L C dv tv N html mh y"
  shows "running_inv L C dv tv y"
  using assms(2)
proof (induction rule: service_reach.induct)
  case (started rd um path c db lib g v)
  then show ?case using started_inv [OF started(1) assms(1)] by blast
next
  case (stepped y y')
  then show ?case using service_step_inv [OF _ assms(1)] by blast
qed

lemma retry_pass_returns:
  assumes "n_client n = Some c"
  shows "fst (retry_pass N (\<lambda>_. Paced) 0 [env] n m w) = Returned True"
proof -
  obtain r c' m' w' where s: "SendUpstream (node_net N n) env c m w = (r, c', m', w')" by (rule prod_cases4)
  then show ?thesis by (cases rule: SendUpstream_cases) (simp_all add: assms s Let_def)
qed

lemma NewBoltStorage_ok:
  assumes "bolt_laws L dv tv" and "codec_law C" and "\<And>db. bolt_Open L path = Inr db \<Longrightarrow> store_ok C (dv db)"
    and "NewBoltStorage L path = Inr d"
  shows "bolt_ok L C dv tv d"
proof -
  from assms(4) obtain db where db: "bolt_Open L path = Inr db"
    "bolt_Update L (CreateBucketIfNotExists L bucketName) db = (None, d)"
    by (auto simp: NewBoltStorage_def split: sum.splits prod.splits option.splits)
  from assms(1) have laws: "update_law L dv tv" "bucket_law L tv" by (simp_all add: bolt_laws_def)
  from updateD(2) [OF laws(1) db(2)] laws(2) have "dv d = dv db" by (auto simp: bucket_law_def)
  with assms(1,2) assms(3) [OF db(1)] show ?thesis by (simp add: bolt_ok_def)
qed

subsection \<open>The gauges\<close>

text \<open>
  The two gauges of child connections count the registered Downstream calls and the Upstream calls
  that have not ended; nothing else the service does touches them.
\<close>

definition gauges_ok :: "('d, 'n) svc_sys \<Rightarrow> bool" where
  "gauges_ok y \<longleftrightarrow>
     ChildConnections (svc_metrics (sv y)) ''downstream'' = int (fcard (fmdom (handlers y))) \<and>
     ChildConnections (svc_metrics (sv y)) ''upstream'' = int (size (upcalls y))"

lemma broadcast_loop_gauges:
  "broadcast_loop env ks r s m = (r', s', m') \<Longrightarrow> ChildConnections m' = ChildConnections m"
  by (induction env ks r s m rule: broadcast_loop.induct) (simp_all split: option.splits)

lemma Broadcast_gauges:
  "BroadcastDownstream ks env s m = (re, s', m') \<Longrightarrow> ChildConnections m' = ChildConnections m"
  by (auto simp: BroadcastDownstream_def split: prod.splits dest: broadcast_loop_gauges)

lemma SendDown_gauges:
  "SendDown ks kind p t1 t2 n m = (re, n', m') \<Longrightarrow> ChildConnections m' = ChildConnections m"
  by (auto simp: SendDown_def split: option.splits prod.splits dest: Broadcast_gauges)

lemma nodeSendToChild_gauges:
  "nodeSendToChild k kind p t1 t2 n m = (e, n', m') \<Longrightarrow> ChildConnections m' = ChildConnections m"
  by (auto simp: nodeSendToChild_def SendToChild_def split: option.splits prod.splits)

lemma handleAgentLog_gauges:
  assumes "handleAgentLog N rq y w = (r, v)"
  shows "ChildConnections (svc_metrics v) = ChildConnections (svc_metrics y)"
proof (cases "rq_decode rq ''payload''")
  case (Inl err)
  with assms have "v = y" by (simp add: handleAgentLog_def)
  then show ?thesis by simp
next
  case (Inr p)
  obtain r0 n' m' w' where s: "SendUp N (rq_ctx rq) kindLog p (now1 rq) (now2 rq) (svc_node y)
      (svc_metrics y) (svc_world y) = (r0, n', m', w')"
    by (rule prod_cases4)
  then have "ChildConnections m' = ChildConnections (svc_metrics y)"
    by (auto simp: SendUp_def Let_def dest: forwardUp_gauges)
  moreover have "svc_metrics v = m'" using assms by (auto simp: handleAgentLog_def Inr s)
  ultimately show ?thesis by simp
qed

lemma handleAdminConfig_gauges:
  assumes "handleAdminConfig rq y w = (r, v)"
  shows "ChildConnections (svc_metrics v) = ChildConnections (svc_metrics y)"
proof (cases "rq_decode rq ''data''")
  case (Inl err)
  with assms have "v = y" by (simp add: handleAdminConfig_def)
  then show ?thesis by simp
next
  case (Inr p)
  obtain res err n' m' where s: "SendDown (map_order rq) kindConfig p (now1 rq) (now2 rq) (svc_node y)
      (svc_metrics y) = ((res, err), n', m')"
    by (metis surj_pair)
  have "svc_metrics v = m'" using assms by (auto simp: handleAdminConfig_def Inr s)
  with SendDown_gauges [OF s] show ?thesis by simp
qed

lemma handleAdminConfigForChild_gauges:
  assumes "handleAdminConfigForChild rq y w = (r, v)"
  shows "ChildConnections (svc_metrics v) = ChildConnections (svc_metrics y)"
proof (cases "rq_decode rq ''data''")
  case (Inl err)
  with assms have "v = y" by (simp add: handleAdminConfigForChild_def)
  then show ?thesis by simp
next
  case (Inr p)
  obtain e n' m' where s: "nodeSendToChild (rq_pathValue rq) kindConfig p (now1 rq) (now2 rq)
      (svc_node y) (svc_metrics y) = (e, n', m')"
    by (rule prod_cases3)
  have "svc_metrics v = m'" using assms by (auto simp: handleAdminConfigForChild_def Inr s)
  with nodeSendToChild_gauges [OF s] show ?thesis by simp
qed

lemma request_gauges:
  assumes run: "serve_request L C N html mh e rq y = (r, v)"
  shows "ChildConnections (svc_metrics v) = ChildConnections (svc_metrics y)"
proof (cases e)
  case AgentLog
  with run show ?thesis by (simp add: serve_request_def handleAgentLog_gauges)
next
  case AdminConfig
  with run show ?thesis
    by (cases "handleAdminConfig rq y new_response") (simp add: serve_request_def handleAdminConfig_gauges)
next
  case AdminConfigForChild
  with run show ?thesis
    by (cases "handleAdminConfigForChild rq y new_response")
      (simp add: serve_request_def handleAdminConfigForChild_gauges)
next
  case ApproveChild
  with run show ?thesis
    by (auto simp: serve_request_def handleApproveChild_def Let_def split: sum.splits if_splits)
next
  case RevokeChild
  with run show ?thesis by (auto simp: serve_request_def handleRevokeChild_def)
qed (use run in \<open>simp_all add: serve_request_def\<close>)

lemma authorize_gauges:
  "authorize now c i s m = (r, s', m') \<Longrightarrow> ChildConnections m' = ChildConnections m"
  by (auto simp: authorize_def split: option.splits)

lemma Upstream_turn_gauges:
  assumes "Upstream_turn (Some (node_up_hook N)) ack c rr (m, n, w) = (o1, m', n', w')"
  shows "ChildConnections m' = ChildConnections m"
proof (cases rr)
  case (RecvErr err)
  with assms show ?thesis by (simp split: if_splits)
next
  case (RecvEnv env)
  obtain r n1 m1 w1 where f: "forwardUp N env n (inc_received ''upstream'' m) (runUpstreamHandlers c env n w) =
      (r, n1, m1, w1)" by (rule prod_cases4)
  have "m' = m1"
    using assms by (auto simp: RecvEnv Let_def node_up_hook_def handleUpstreamFromChild_def f
        split: outcome.splits option.splits)
  with forwardUp_gauges [OF f] show ?thesis by simp
qed

lemma recvLoop_gauges:
  assumes "recvLoop_received (Some (site_hook v)) env (m, n, w) = (m', n', w')"
  shows "ChildConnections m' = ChildConnections m"
  using assms
  by (auto simp: recvLoop_received_def site_hook_def handleDownstreamFromParent_def Let_def
      split: prod.splits option.splits dest: Broadcast_gauges)

lemma retry_one_gauges:
  assumes "retry_pass N (\<lambda>_. Paced) 0 [env] n m w = (Returned b, n', m', w')"
  shows "ChildConnections m' = ChildConnections m"
proof -
  from assms obtain c err c' where "SendUpstream (node_net N n) env c m w = (Returned err, c', m', w')"
    by (auto simp: Let_def split: option.splits prod.splits outcome.splits)
  then show ?thesis by (rule SendUpstream_gauges)
qed

lemma with_metrics [simp]:
  "svc_metrics (sv (with_node mnw y)) = fst mnw" "svc_metrics (sv (with_server s m y)) = m"
  "upcalls (with_node mnw y) = upcalls y" "upcalls (with_server s m y) = upcalls y"
  by (simp_all add: with_node_def with_server_def split: prod.split)

lemma gauges_same:
  assumes "gauges_ok y" and "ChildConnections (svc_metrics (sv y')) = ChildConnections (svc_metrics (sv y))"
    and "fmdom (handlers y') = fmdom (handlers y)" and "size (upcalls y') = size (upcalls y)"
  shows "gauges_ok y'"
  using assms by (simp add: gauges_ok_def)

lemma service_step_gauges:
  assumes ok: "gauges_ok y" and en: "entries_ok y" and step: "service_step L C N html mh y y'"
  shows "gauges_ok y'"
  using step
proof (cases rule: service_step.cases)
  case (api rq e r v)
  from request_gauges [OF api(3)] show ?thesis by (intro gauges_same [OF ok]) (simp_all add: api(1))
next
  case (down_authorized s now c s' m')
  from authorize_gauges [OF down_authorized(3)] show ?thesis
    by (intro gauges_same [OF ok]) (simp_all add: down_authorized(1))
next
  case (down_rejected s now c err s' m')
  from authorize_gauges [OF down_rejected(3)] show ?thesis
    by (intro gauges_same [OF ok]) (simp_all add: down_rejected(1))
next
  case (down_registered c s key ch s')
  have "fmlookup (handlers y) ch = None"
  proof (cases "fmlookup (handlers y) ch")
    case (Some h)
    with en down_registered(3) have "ch < next_chan s" unfolding entries_ok_def by blast
    with registerChild_frame(1) [OF down_registered(4)] show ?thesis by simp
  qed
  with ok show ?thesis by (simp add: gauges_ok_def down_registered(1) fcard_fmdom_upd del: fmdom_fmupd)
next
  case (down_turn ch key c s choice res out s')
  then have "fmdom (handlers y') = fmdom (handlers y)" by (auto intro: fmdomI)
  then show ?thesis by (intro gauges_same [OF ok]) (simp_all add: down_turn(1))
next
  case (down_cleanup ch key c s s' m')
  then have "0 < fcard (fmdom (handlers y))"
    by (metis fcard_fempty fmdomI fmlookup_dom_iff fcard_0_eq gr0I fempty_iff)
  with ok down_cleanup show ?thesis
    by (auto simp: gauges_ok_def fcard_fmdom_drop Downstream_cleanup_def of_nat_diff simp del: fmdom_drop)
next
  case (up_opened s now c s' m')
  then obtain m1 where "authorize now c (childNodeID c) s (svc_metrics (sv y)) = (None, s', m1)"
    and "m' = inc_conn ''upstream'' m1"
    by (auto simp: Upstream_open_def split: prod.splits option.splits)
  with ok authorize_gauges show ?thesis by (fastforce simp: gauges_ok_def up_opened(1))
next
  case (up_rejected s now c err s' m')
  then have "authorize now c (childNodeID c) s (svc_metrics (sv y)) = (Some err, s', m')"
    by (auto simp: Upstream_open_def split: prod.splits option.splits)
  from authorize_gauges [OF this] show ?thesis by (intro gauges_same [OF ok]) (simp_all add: up_rejected(1))
next
  case (up_received c ack env mnw)
  obtain m n w where mnw: "mnw = (m, n, w)" by (rule prod_cases3)
  from Upstream_turn_gauges [OF up_received(3) [unfolded mnw]] show ?thesis
    by (intro gauges_same [OF ok]) (simp_all add: up_received(1) mnw)
next
  case (up_ended c ack err res m n w)
  have "size (upcalls y) = Suc (size (upcalls y - {#c#}))"
    using up_ended(2) by (simp add: size_Suc_Diff1)
  with ok Upstream_turn_gauges [OF up_ended(3)] show ?thesis
    by (simp add: gauges_ok_def up_ended(1) size_Diff_singleton_if)
next
  case (parent_sent env v mnw)
  obtain m n w where mnw: "mnw = (m, n, w)" by (rule prod_cases3)
  from recvLoop_gauges [OF parent_sent(4) [unfolded mnw]] show ?thesis
    by (intro gauges_same [OF ok]) (simp_all add: parent_sent(1) mnw)
next
  case (retry_one env envs n' m' w')
  from retry_one_gauges [OF retry_one(3)] show ?thesis by (intro gauges_same [OF ok]) (simp_all add: retry_one(1))
next
  case shutdown
  then show ?thesis
    by (intro gauges_same [OF ok]) (simp_all add: service_shutdown_def split: prod.split)
qed (use ok in \<open>simp_all add: gauges_ok_def\<close>)

theorem service_reach_gauges:
  assumes "net_frame fst N" and "service_reach L C dv tv N html mh y"
  shows "gauges_ok y"
  using assms(2)
proof (induction rule: service_reach.induct)
  case (started rd um path c db lib g v)
  then have "svc_metrics v = initial_metrics" by (elim start_service_cases) simp
  then show ?case by (simp add: gauges_ok_def initial_metrics_def)
next
  case (stepped y y')
  have "entries_ok y" using service_reach_inv [OF assms(1) stepped(1)] by (simp add: running_inv_def)
  from service_step_gauges [OF stepped(3) this stepped(2)] show ?case .
qed

end
