(* ===== verification/Service_System_Properties.thy ===== *)
theory Service_System_Properties
  imports Service_System Service_Properties
begin

text \<open>
  The properties of the running service, over every interleaving of its requests, its children's
  calls, its parent's messages and its loops. The witnesses run a child into a started service.
\<close>

subsection \<open>From the command line to a running service\<close>

text \<open>
  C26. Started with one argument, the service fails exactly when its configuration does not load or
  its storage does not open, with that error; otherwise it runs, under the id of the file,
  and serves its API exactly when the file has an address for it. With
  any other number of arguments it prints its usage. Creating and starting the node cannot fail.
\<close>

theorem boot_outcomes:
  assumes "bolt_laws L dv tv" and "codec_law C"
    and "\<forall>p db. bolt_Open L p = Inr db \<longrightarrow> store_ok C (dv db)"
  shows "case service_boot L C lib N rd um prog args g of
      Inl e \<Rightarrow>
        length args \<noteq> 1 \<and> e = Errorf ''usage: %s <config.json>'' [prog] [] \<or>
        (\<exists>path err. args = [path] \<and> loadConfig rd um path = Inl err \<and> e = Errorf ''config: %v'' [] [err]) \<or>
        (\<exists>path c err. args = [path] \<and> loadConfig rd um path = Inr c \<and>
           NewBoltStorage L (StoragePath c) = Inl err \<and> e = Errorf ''open storage: %v'' [] [err])
    | Inr (c, v, api) \<Rightarrow>
        (\<exists>path. args = [path] \<and> loadConfig rd um path = Inr c) \<and> ID (svc_node v) = cfID c \<and>
        (api = None \<longleftrightarrow> HTTPAddr c = '''') \<and> (\<forall>a. api = Some a \<longrightarrow> a = HTTPAddr c) \<and>
        (\<exists>y. service_reach L C dv tv N html mh y \<and> sv y = v)"
proof (cases "\<exists>path. args = [path]")
  case True
  then obtain path where path: "args = [path]" by blast
  show ?thesis
  proof (cases "loadConfig rd um path")
    case (Inl err)
    then show ?thesis by (simp add: service_boot_def path)
  next
    case (Inr c)
    note load = Inr
    show ?thesis
    proof (cases "NewBoltStorage L (StoragePath c)")
      case (Inl err)
      then show ?thesis by (simp add: service_boot_def path load)
    next
      case (Inr db)
      obtain v where v: "start_service L C lib N c db g = Inr v"
        using start_service_succeeds [OF load, of L C lib N db g] by blast
      have "bolt_ok L C dv tv db" using NewBoltStorage_ok [OF assms(1,2) _ Inr] assms(3) by blast
      from service_reach.started [OF load this v] start_service_ID [OF load v] Inr v load
      show ?thesis by (fastforce simp: service_boot_def path)
    qed
  qed
next
  case False
  then have "service_boot L C lib N rd um prog args g = Inl (Errorf ''usage: %s <config.json>'' [prog] [])"
    by (auto simp: service_boot_def split: list.split)
  with False show ?thesis by (cases args) auto
qed

theorem boot_outcomes_witness:
  "case service_boot demo_bolt demo_codec demo_tls (second_net demo_net) Inr (\<lambda>_. Inr demo_file) ''node''
      [''branch.json''] [] of
     Inl e \<Rightarrow> False
   | Inr (c, v, api) \<Rightarrow> c = demo_file \<and> ID (svc_node v) = ''branch'' \<and> api = Some '':8080''"
proof -
  have "\<forall>p db. bolt_Open demo_bolt p = Inr db \<longrightarrow> store_ok demo_codec (id db)"
    by (simp add: demo_bolt_def store_ok_def)
  note b = boot_outcomes [where lib = demo_tls and N = "second_net demo_net" and rd = Inr
      and um = "\<lambda>_. Inr demo_file" and prog = "''node''" and args = "[''branch.json'']" and g = "[]",
      OF demo_bolt_laws demo_codec_law this]
  have "NewBoltStorage demo_bolt (StoragePath demo_file) = Inr fmempty"
    by (simp add: NewBoltStorage_def demo_bolt_def)
  with demo_service_started demo_load
  have "service_boot demo_bolt demo_codec demo_tls (second_net demo_net) Inr (\<lambda>_. Inr demo_file) ''node''
      [''branch.json''] [] = Inr (demo_file, demo_service, Some '':8080'')"
    by (simp add: service_boot_def) (simp add: demo_file_def)
  with b demo_load show ?thesis by (simp add: demo_file_def)
qed

subsection \<open>The invariant\<close>

text \<open>
  C9. In every reachable state, whatever the interleaving, the server answers with the current allow
  list (when children are restricted), its entries and buffers are well-formed, every entry
  belongs to a call that has not ended, the two gauges count the calls that have not ended, and
  the store is intact; and nothing that can run next
  panics or fails where the code cannot: no request, no envelope of a child, no retry.
\<close>

theorem service_invariant:
  assumes "service_reach L C dv tv N html mh y" and "net_frame fst N"
  shows "svc_inv L C (bolt_ok L C dv tv) (sv y) \<and>
    (\<forall>s k ch. sys_server y = Some s \<and> fmlookup (children s) k = Some ch \<longrightarrow>
       (\<exists>c b. fmlookup (handlers y) ch = Some (k, c, b))) \<and>
    ChildConnections (svc_metrics (sv y)) ''downstream'' = int (fcard (fmdom (handlers y))) \<and>
    ChildConnections (svc_metrics (sv y)) ''upstream'' = int (size (upcalls y)) \<and>
    (\<forall>e rq r v. orders_ok rq (sv y) \<and> serve_request L C N html mh e rq (sv y) = (r, v) \<longrightarrow> r \<noteq> Panicked) \<and>
    (\<forall>c env e mnw. node_up_hook N c env (sys_mnw y) = (e, mnw) \<longrightarrow> e = None) \<and>
    (\<forall>env envs. hand y = env # envs \<longrightarrow>
       fst (retry_pass N (\<lambda>_. Paced) 0 [env] (svc_node (sv y)) (svc_metrics (sv y)) (svc_world (sv y))) =
         Returned True)"
proof -
  from service_reach_inv [OF assms(2,1)] have inv: "svc_inv L C (bolt_ok L C dv tv) (sv y)"
    and en: "entries_ok y" and rt: "retry_ok y" by (simp_all add: running_inv_def)
  show ?thesis
  proof (intro conjI allI impI)
    show "svc_inv L C (bolt_ok L C dv tv) (sv y)" by (rule inv)
    show "\<exists>c b. fmlookup (handlers y) ch = Some (k, c, b)"
      if "sys_server y = Some s \<and> fmlookup (children s) k = Some ch" for s k ch
      using en that unfolding entries_ok_def by blast
    show "r \<noteq> Panicked"
      if "orders_ok rq (sv y) \<and> serve_request L C N html mh e rq (sv y) = (r, v)" for e rq r v
      using serve_request_inv [OF inv assms(2) bolt_saves_keep] that by blast
    show "e = None" if "node_up_hook N c env (sys_mnw y) = (e, mnw)" for c env e mnw
      using up_hook_effect(1) [OF inv assms(2)] that by (cases mnw) blast
    from service_reach_gauges [OF assms(2,1)]
    show "ChildConnections (svc_metrics (sv y)) ''downstream'' = int (fcard (fmdom (handlers y)))"
      "ChildConnections (svc_metrics (sv y)) ''upstream'' = int (size (upcalls y))"
      by (simp_all add: gauges_ok_def)
    fix env envs assume "hand y = env # envs"
    then obtain c where "n_client (svc_node (sv y)) = Some c" using rt by (auto simp: retry_ok_def)
    then show "fst (retry_pass N (\<lambda>_. Paced) 0 [env] (svc_node (sv y)) (svc_metrics (sv y))
        (svc_world (sv y))) = Returned True"
      by (rule retry_pass_returns)
  qed
qed

text \<open>
  A run used by the witnesses: the administrator approves a leaf, which then connects with its
  certificate.
\<close>

definition leaf_ctx :: ctx where
  "leaf_ctx = (claiming ''leaf'')\<lparr>peer_auth := Some (TLSInfo [''leaf''])\<rparr>"

lemma leaf_ctx_sel [simp]: "childNodeID leaf_ctx = ''leaf''" "peer_cn leaf_ctx = Some ''leaf''"
  by (simp_all add: leaf_ctx_def childNodeID_def claiming_def peer_cn_def)

abbreviation demo_reach :: "(demo_db, conn list) svc_sys \<Rightarrow> bool" where
  "demo_reach \<equiv> service_reach demo_bolt demo_codec id id (second_net demo_net) [] (\<lambda>_ w. w)"

lemma demo_started: "\<exists>y. demo_reach y \<and> sv y = demo_service \<and> handlers y = fmempty"
  using service_reach.started [OF demo_load demo_bolt_ok demo_service_started] by fastforce

lemma demo_leaf_connected:
  "\<exists>y s. demo_reach y \<and> sys_server y = Some s \<and> restricts_children (svc_node (sv y)) \<and>
     fmlookup (children s) ''leaf'' = Some (next_chan s - 1)"
proof -
  obtain y0 where y0: "demo_reach y0" "sv y0 = demo_service" using demo_started by blast
  obtain s where s: "n_server (svc_node demo_service) = Some s" "children s = fmempty"
    by (rule demo_service_server)
  let ?l = "allow_Add ''leaf'' (svc_allow demo_service)"
  let ?v = "edit_policy ?l demo_service"
  let ?s1 = "s\<lparr>authorizeChild := Authorize ?l\<rparr>"
  let ?y1 = "y0\<lparr>sv := ?v, heard := heard y0 \<union> {}, ever := ever y0 \<union> {''leaf''}\<rparr>"
  obtain w where req: "serve_request demo_bolt demo_codec (second_net demo_net) [] (\<lambda>_ w. w) ApproveChild
      (demo_request ''leaf'') demo_service = (w, ?v)"
    by (simp add: serve_request_def handleApproveChild_def demo_request_def Let_def)
  have "service_step demo_bolt demo_codec (second_net demo_net) [] (\<lambda>_ w. w) y0 ?y1"
    using service_step.api [where y = y0 and e = ApproveChild and rq = "demo_request ''leaf''",
        OF _ req [folded y0(2)]] demo_orders_ok
    by (simp add: y0(2) api_heard_def api_approved_def demo_request_def)
  then have y1: "demo_reach ?y1" by (rule service_reach.stepped [OF y0(1)])
  have s1: "sys_server ?y1 = Some ?s1"
    using sync_policy_server [OF demo_service_inv(2) s(1), of ?l] by simp
  have "Authorize ?l leaf_ctx ''leaf'' = None" by (simp add: al.approved_admitted)
  then have auth: "authorize 0 leaf_ctx (childNodeID leaf_ctx) ?s1 (svc_metrics (sv ?y1)) =
      (None, clearRejection ''leaf'' ?s1, svc_metrics (sv ?y1))"
    by (simp add: authorize_def)
  note y2 = service_reach.stepped [OF y1 service_step.down_authorized [OF s1 auth]]
  let ?s2 = "clearRejection ''leaf'' ?s1"
  let ?y2 = "(with_server ?s2 (svc_metrics (sv ?y1)) ?y1)\<lparr>entering := add_mset leaf_ctx (entering ?y1)\<rparr>"
  have s2: "sys_server ?y2 = Some ?s2" by (simp add: with_server_def)
  obtain key ch s3 where reg: "registerChild (childNodeID leaf_ctx) ?s2 = ((key, ch), s3)" by (metis surj_pair)
  then have "key = ''leaf''" using s(2) by (simp add: registerChild_def clearRejection_def Let_def)
  with registerChild_frame(1-3) [OF reg] have k: "fmlookup (children s3) ''leaf'' = Some (next_chan s3 - 1)" by simp
  have c: "leaf_ctx \<in># entering ?y2" by simp
  let ?y3 = "(with_server s3 (inc_conn ''downstream'' (svc_metrics (sv ?y2))) ?y2)
      \<lparr>entering := entering ?y2 - {#leaf_ctx#}, handlers := fmupd ch (key, leaf_ctx, True) (handlers ?y2)\<rparr>"
  have y3: "demo_reach ?y3"
    by (rule service_reach.stepped [OF y2 service_step.down_registered [OF c s2 reg]])
  have s3: "sys_server ?y3 = Some s3" by (simp add: with_server_def)
  have "restricts_children (sync_policy ?l (svc_node demo_service))" using demo_service_inv(2) by simp
  then have r: "restricts_children (svc_node (sv ?y3))" by (simp add: with_server_def restricts_children_def)
  from y3 s3 r k show ?thesis by (intro exI conjI)
qed

theorem service_invariant_witness:
  "\<exists>y. demo_reach y \<and> svc_inv demo_bolt demo_codec demo_store_ok (sv y) \<and>
     (\<exists>s k ch c b. sys_server y = Some s \<and> fmlookup (children s) k = Some ch \<and>
        fmlookup (handlers y) ch = Some (k, c, b))"
proof -
  from demo_leaf_connected obtain y s where y: "demo_reach y" "sys_server y = Some s"
    "fmlookup (children s) ''leaf'' = Some (next_chan s - 1)" by blast
  from service_invariant [OF y(1) second_net_frame] y show ?thesis by blast
qed

subsection \<open>Who is connected, and what is stored\<close>

text \<open>
  C12. Where children are restricted, a child in the children map of any reachable state presented a
  certificate whose common name is the non-empty id it claims, and that id was on the allow list
  at some time since the start; its key is the id, or the id with a number for a duplicate.
\<close>

theorem only_certified_children:
  assumes "service_reach L C dv tv N html mh y" and "net_frame fst N"
    and "restricts_children (svc_node (sv y))" and "sys_server y = Some s"
    and "fmlookup (children s) k = Some ch"
  shows "\<exists>c b. fmlookup (handlers y) ch = Some (k, c, b) \<and> childNodeID c \<noteq> '''' \<and>
    peer_cn c = Some (childNodeID c) \<and> childNodeID c \<in> ever y \<and>
    (k = childNodeID c \<or> (\<exists>j. k = dup_key (childNodeID c) j))"
proof -
  from service_reach_inv [OF assms(2,1)] have inv: "entries_ok y" "claims_ok y"
    by (simp_all add: running_inv_def)
  from inv(1) assms(4,5) obtain c b where h: "fmlookup (handlers y) ch = Some (k, c, b)"
    unfolding entries_ok_def by blast
  with inv(2) assms(3) have "claim_ok (ever y) c" "key_for k (childNodeID c)"
    unfolding claims_ok_def by blast+
  with h show ?thesis by (auto simp: claim_ok_def key_for_def)
qed

theorem only_certified_children_witness:
  "\<exists>y s ch c b. demo_reach y \<and> sys_server y = Some s \<and> fmlookup (children s) ''leaf'' = Some ch \<and>
     fmlookup (handlers y) ch = Some (''leaf'', c, b) \<and> peer_cn c = Some (childNodeID c)"
proof -
  from demo_leaf_connected obtain y s where y: "demo_reach y" "sys_server y = Some s"
    "restricts_children (svc_node (sv y))" "fmlookup (children s) ''leaf'' = Some (next_chan s - 1)" by blast
  from only_certified_children [OF y(1) second_net_frame y(3,2,4)] y show ?thesis by blast
qed

text \<open>
  C22. The store never invents or alters an entry: what a query of any reachable state returns was in
  the database at the start or is, unchanged, an envelope of the kind \<open>log\<close> that a child or an
  agent sent, or one of the kind \<open>config\<close> that the parent sent.
\<close>

theorem store_audit:
  assumes "service_reach L C dv tv N html mh y" and "net_frame fst N"
    and "Query L C q (fst (svc_world (sv y))) = (rs, None)"
  shows "set rs \<subseteq> heard y"
proof -
  from service_reach_inv [OF assms(2,1)] have inv: "svc_inv L C (bolt_ok L C dv tv) (sv y)" "audit_ok C dv y"
    by (simp_all add: running_inv_def)
  from bolt.query_ok [OF svc_invD(6) [OF inv(1)] assms(3)] inv(2) show ?thesis
    by (auto simp: audit_ok_def)
qed

theorem store_audit_witness:
  "\<exists>y rs. demo_reach y \<and> Query demo_bolt demo_codec \<lparr>fKind = kindLog, Since = 0\<rparr> (fst (svc_world (sv y))) = (rs, None) \<and>
     set rs \<subseteq> heard y \<and> heard y \<noteq> {}"
proof -
  obtain y0 where y0: "demo_reach y0" "sv y0 = demo_service" using demo_started by blast
  obtain r v where req: "serve_request demo_bolt demo_codec (second_net demo_net) [] (\<lambda>_ w. w) AgentLog
      (demo_request ''hello'') (sv y0) = (r, v)" by fastforce
  let ?y1 = "y0\<lparr>sv := v, heard := heard y0 \<union> api_heard (ID (svc_node (sv y0))) AgentLog (demo_request ''hello''),
      ever := ever y0 \<union> api_approved AgentLog (demo_request ''hello'')\<rparr>"
  have y1: "demo_reach ?y1"
    using service_reach.stepped [OF y0(1) service_step.api [OF _ req]] by (simp add: y0(2) demo_orders_ok)
  have "demo_store_ok (fst (svc_world v))"
    using service_reach_inv [OF second_net_frame y1] by (simp add: running_inv_def svc_inv_def)
  from demo_Query_nil [OF this] obtain rs
    where q: "Query demo_bolt demo_codec \<lparr>fKind = kindLog, Since = 0\<rparr> (fst (svc_world (sv ?y1))) = (rs, None)"
    by auto
  have "heard ?y1 \<noteq> {}" by (simp add: api_heard_def demo_request_def)
  with y1 q store_audit [OF y1 second_net_frame q] show ?thesis by blast
qed

end
