(* ===== verification/Gencert.thy ===== *)
theory Gencert
  imports Resolver_Auth
begin

text \<open>
  \<open>examples/gencert/main.go\<close>, which writes a CA and one certificate per node name, and
  \<open>GenerateTestCA\<close> of \<open>auth/testutil.go\<close>, which does the same for tests.

  \<open>cert_lib\<close> holds what the two call: the clock, key generation, signing, and the file system;
  \<open>'w\<close> is the state of the world they act on, \<open>'k\<close> the type of keys. \<open>log.Fatalf\<close>,
  \<open>t.Fatalf\<close> and \<open>os.Exit(1)\<close> end the run: an \<open>Inl\<close>.
\<close>

subsection \<open>Certificates\<close>

datatype key_usage = KeyUsageCertSign | KeyUsageDigitalSignature | KeyUsageKeyEncipherment
datatype ext_key_usage = ExtKeyUsageServerAuth | ExtKeyUsageClientAuth

record template =
  SerialNumber :: int
  CommonName :: string
  DNSNames :: "string list"
  IPAddresses :: "string list"
  NotBefore :: int
  NotAfter :: int
  IsCA :: bool
  KeyUsage :: "key_usage list"
  ExtKeyUsage :: "ext_key_usage list"
  BasicConstraintsValid :: bool

record ('w, 'k) cert_lib =
  time_Now :: "'w \<Rightarrow> int \<times> 'w"
  rsa_GenerateKey :: "nat \<Rightarrow> 'w \<Rightarrow> (go_error + 'k) \<times> 'w"
  x509_CreateCertificate :: "template \<Rightarrow> template \<Rightarrow> 'k \<Rightarrow> 'k \<Rightarrow> 'w \<Rightarrow> (go_error + string) \<times> 'w"
  MarshalPKCS1PrivateKey :: "'k \<Rightarrow> string"
  os_MkdirAll :: "string \<Rightarrow> 'w \<Rightarrow> go_error option \<times> 'w"
  os_Create :: "string \<Rightarrow> 'w \<Rightarrow> (go_error + nat) \<times> 'w"
  pem_Encode :: "nat \<Rightarrow> string \<Rightarrow> string \<Rightarrow> 'w \<Rightarrow> go_error option \<times> 'w"
  file_Close :: "nat \<Rightarrow> 'w \<Rightarrow> 'w"
  path_Join :: "string \<Rightarrow> string \<Rightarrow> string"

text \<open>Durations are in nanoseconds.\<close>

definition Hour :: int where
  "Hour = 3600 * 1000000000"

text \<open>
  A program that may exit: each step transforms the world, and the first \<open>Inl\<close> is the last.
  \<open>or_fatal\<close> is the \<open>if err != nil\<close> block with its message.
\<close>

type_synonym ('w, 'a) io = "'w \<Rightarrow> (go_error + 'a) \<times> 'w"

definition and_then :: "('w, 'a) io \<Rightarrow> ('a \<Rightarrow> ('w, 'b) io) \<Rightarrow> ('w, 'b) io" where
  "and_then f g w = (case f w of (Inl err, w1) \<Rightarrow> (Inl err, w1) | (Inr x, w1) \<Rightarrow> g x w1)"

definition finish :: "'a \<Rightarrow> ('w, 'a) io" where
  "finish x w = (Inr x, w)"

definition fatal :: "go_error \<Rightarrow> ('w, 'a) io" where
  "fatal err w = (Inl err, w)"

definition or_fatal :: "string \<Rightarrow> string list \<Rightarrow> ('w, 'a) io \<Rightarrow> ('w, 'a) io" where
  "or_fatal fmt args f w = (case f w of (Inl err, w1) \<Rightarrow> (Inl (Errorf fmt args [err]), w1) | (Inr x, w1) \<Rightarrow> (Inr x, w1))"

definition err_only :: "('w \<Rightarrow> go_error option \<times> 'w) \<Rightarrow> ('w, unit) io" where
  "err_only f w = (case f w of (Some err, w1) \<Rightarrow> (Inl err, w1) | (None, w1) \<Rightarrow> (Inr (), w1))"

definition no_err :: "('w \<Rightarrow> 'a \<times> 'w) \<Rightarrow> ('w, 'a) io" where
  "no_err f w = (case f w of (x, w1) \<Rightarrow> (Inr x, w1))"

text \<open>A failing \<open>Encode\<close> exits before the deferred \<open>Close\<close> can run.\<close>

definition writePEM :: "('w, 'k) cert_lib \<Rightarrow> string \<Rightarrow> string \<Rightarrow> string \<Rightarrow> ('w, unit) io" where
  "writePEM L path blockType der =
     and_then (or_fatal ''create %s: %v'' [path] (os_Create L path)) (\<lambda>f.
     and_then (or_fatal ''encode %s: %v'' [path] (err_only (pem_Encode L f blockType der))) (\<lambda>_.
     no_err (\<lambda>w. ((), file_Close L f w))))"

subsection \<open>The command\<close>

definition ca_template :: "string \<Rightarrow> int \<Rightarrow> int \<Rightarrow> template" where
  "ca_template cn t0 t1 =
     \<lparr>SerialNumber = 1, CommonName = cn, DNSNames = [], IPAddresses = [], NotBefore = t0,
      NotAfter = t1, IsCA = True, KeyUsage = [KeyUsageCertSign, KeyUsageDigitalSignature],
      ExtKeyUsage = [], BasicConstraintsValid = True\<rparr>"

definition leaf_template :: "int \<Rightarrow> string \<Rightarrow> string list \<Rightarrow> string list \<Rightarrow> int \<Rightarrow> int \<Rightarrow> template" where
  "leaf_template serial cn dns ips t0 t1 =
     \<lparr>SerialNumber = serial, CommonName = cn, DNSNames = dns, IPAddresses = ips, NotBefore = t0,
      NotAfter = t1, IsCA = False, KeyUsage = [KeyUsageDigitalSignature, KeyUsageKeyEncipherment],
      ExtKeyUsage = [ExtKeyUsageServerAuth, ExtKeyUsageClientAuth], BasicConstraintsValid = False\<rparr>"

text \<open>The body of the loop over the names, \<open>i\<close> being the index of the name, and the loop.\<close>

definition gencert_leaf ::
  "('w, 'k) cert_lib \<Rightarrow> string \<Rightarrow> template \<Rightarrow> 'k \<Rightarrow> nat \<Rightarrow> string \<Rightarrow> ('w, unit) io"
where
  "gencert_leaf L outDir caTemplate caKey i name =
     and_then (or_fatal ''generate leaf key for %q: %v'' [name] (rsa_GenerateKey L 2048)) (\<lambda>leafKey.
     and_then (no_err (time_Now L)) (\<lambda>t0.
     and_then (no_err (time_Now L)) (\<lambda>t1.
     and_then (or_fatal ''create leaf cert for %q: %v'' [name]
       (x509_CreateCertificate L
         (leaf_template (int i + 2) name [''localhost'', name] [''127.0.0.1'', ''::1'']
           t0 (t1 + 365 * 24 * Hour))
         caTemplate leafKey caKey)) (\<lambda>leafDER.
     and_then (writePEM L (path_Join L outDir (name @ ''.pem'')) ''CERTIFICATE'' leafDER) (\<lambda>_.
     writePEM L (path_Join L outDir (name @ ''.key'')) ''RSA PRIVATE KEY''
       (MarshalPKCS1PrivateKey L leafKey))))))"

fun gencert_leaves ::
  "('w, 'k) cert_lib \<Rightarrow> string \<Rightarrow> template \<Rightarrow> 'k \<Rightarrow> nat \<Rightarrow> string list \<Rightarrow> ('w, unit) io"
where
  "gencert_leaves L outDir caTemplate caKey i [] = finish ()"
| "gencert_leaves L outDir caTemplate caKey i (name # names) =
     and_then (gencert_leaf L outDir caTemplate caKey i name) (\<lambda>_.
     gencert_leaves L outDir caTemplate caKey (i + 1) names)"

text \<open>\<open>main\<close> after the flags have been parsed: the output directory and the names.\<close>

definition gencert :: "('w, 'k) cert_lib \<Rightarrow> string \<Rightarrow> string list \<Rightarrow> ('w, unit) io" where
  "gencert L outDir names =
     (if length names = 0 then fatal (Errorf ''usage: gencert -out <dir> <node-name> [<node-name>...]'' [] [])
      else
     and_then (or_fatal ''create output dir: %v'' [] (err_only (os_MkdirAll L outDir))) (\<lambda>_.
     and_then (or_fatal ''generate CA key: %v'' [] (rsa_GenerateKey L 2048)) (\<lambda>caKey.
     and_then (no_err (time_Now L)) (\<lambda>t0.
     and_then (no_err (time_Now L)) (\<lambda>t1.
     let caTemplate = ca_template ''multi-region-example-ca'' t0 (t1 + 365 * 24 * Hour) in
     and_then (or_fatal ''create CA cert: %v'' []
       (x509_CreateCertificate L caTemplate caTemplate caKey caKey)) (\<lambda>caDER.
     and_then (writePEM L (path_Join L outDir ''ca.pem'') ''CERTIFICATE'' caDER) (\<lambda>_.
     gencert_leaves L outDir caTemplate caKey 0 names)))))))"

subsection \<open>The test helper\<close>

definition with_deferred :: "('w \<Rightarrow> 'w) \<Rightarrow> ('w, 'a) io \<Rightarrow> ('w, 'a) io" where
  "with_deferred g f w = (case f w of (r, w1) \<Rightarrow> (r, g w1))"

text \<open>\<open>t.Fatalf\<close> runs deferred calls, so here the file is closed on both ways out.\<close>

definition test_writePEM :: "('w, 'k) cert_lib \<Rightarrow> string \<Rightarrow> string \<Rightarrow> string \<Rightarrow> ('w, unit) io" where
  "test_writePEM L path blockType der =
     and_then (or_fatal ''create %s: %v'' [path] (os_Create L path)) (\<lambda>f.
     with_deferred (file_Close L f)
       (or_fatal ''encode %s: %v'' [path] (err_only (pem_Encode L f blockType der))))"

text \<open>\<open>dir\<close> is the temporary directory of the test. The second half makes the leaf.\<close>

definition test_leaf ::
  "('w, 'k) cert_lib \<Rightarrow> string \<Rightarrow> template \<Rightarrow> 'k \<Rightarrow> string \<Rightarrow> ('w, string \<times> string \<times> string) io"
where
  "test_leaf L dir caTemplate caKey caPath =
     and_then (or_fatal ''generate leaf key: %v'' [] (rsa_GenerateKey L 2048)) (\<lambda>leafKey.
     and_then (no_err (time_Now L)) (\<lambda>t2.
     and_then (no_err (time_Now L)) (\<lambda>t3.
     and_then (or_fatal ''create leaf cert: %v'' []
       (x509_CreateCertificate L (leaf_template 2 ''localhost'' [''localhost''] [] t2 (t3 + Hour))
         caTemplate leafKey caKey)) (\<lambda>leafDER.
     let certPath = path_Join L dir ''leaf.pem''; keyPath = path_Join L dir ''leaf.key'' in
     and_then (test_writePEM L certPath ''CERTIFICATE'' leafDER) (\<lambda>_.
     and_then (test_writePEM L keyPath ''RSA PRIVATE KEY'' (MarshalPKCS1PrivateKey L leafKey)) (\<lambda>_.
     finish (caPath, certPath, keyPath)))))))"

definition GenerateTestCA ::
  "('w, 'k) cert_lib \<Rightarrow> string \<Rightarrow> ('w, string \<times> string \<times> string) io"
where
  "GenerateTestCA L dir =
     and_then (or_fatal ''generate CA key: %v'' [] (rsa_GenerateKey L 2048)) (\<lambda>caKey.
     and_then (no_err (time_Now L)) (\<lambda>t0.
     and_then (no_err (time_Now L)) (\<lambda>t1.
     let caTemplate = ca_template ''test-ca'' t0 (t1 + Hour); caCertPath = path_Join L dir ''ca.pem'' in
     and_then (or_fatal ''create CA cert: %v'' []
       (x509_CreateCertificate L caTemplate caTemplate caKey caKey)) (\<lambda>caDER.
     and_then (test_writePEM L caCertPath ''CERTIFICATE'' caDER) (\<lambda>_.
     test_leaf L dir caTemplate caKey caCertPath)))))"

subsection \<open>What the commands rely on\<close>

text \<open>
  \<open>fs\<close> reads the PEM files of a world: for a path, the type and the bytes of its block. A file
  that was created, encoded to and closed holds that block; nothing else that is called touches
  the files. \<open>issued\<close> reads a certificate: the template, whose key it certifies, and the
  template of the issuer and the key that signed it.
\<close>

definition fs_law :: "('w, 'k) cert_lib \<Rightarrow> ('w \<Rightarrow> (string, string \<times> string) fmap) \<Rightarrow> bool" where
  "fs_law L fs \<longleftrightarrow>
     (\<forall>path w f w1 ty der w2. os_Create L path w = (Inr f, w1) \<longrightarrow> pem_Encode L f ty der w1 = (None, w2) \<longrightarrow>
        fs (file_Close L f w2) = fmupd path (ty, der) (fs w)) \<and>
     (\<forall>w. fs (snd (time_Now L w)) = fs w) \<and>
     (\<forall>b w. fs (snd (rsa_GenerateKey L b w)) = fs w) \<and>
     (\<forall>t p k s w. fs (snd (x509_CreateCertificate L t p k s w)) = fs w) \<and>
     (\<forall>d w. fs (snd (os_MkdirAll L d w)) = fs w)"

definition issue_law :: "('w, 'k) cert_lib \<Rightarrow> (string \<Rightarrow> template \<times> 'k \<times> template \<times> 'k) \<Rightarrow> bool" where
  "issue_law L issued \<longleftrightarrow>
     (\<forall>t p k s w der w'. x509_CreateCertificate L t p k s w = (Inr der, w') \<longrightarrow> issued der = (t, k, p, s))"

subsection \<open>Facts\<close>

lemma and_then_Inr:
  "and_then f g w = (Inr y, w') \<longleftrightarrow> (\<exists>x w1. f w = (Inr x, w1) \<and> g x w1 = (Inr y, w'))"
  by (auto simp: and_then_def split: prod.splits sum.splits)

lemma or_fatal_Inr: "or_fatal fmt args f w = (Inr x, w') \<longleftrightarrow> f w = (Inr x, w')"
  by (auto simp: or_fatal_def split: prod.splits sum.splits)

lemma err_only_Inr: "err_only f w = (Inr x, w') \<longleftrightarrow> f w = (None, w')"
  by (auto simp: err_only_def split: prod.splits option.splits)

lemma no_err_Inr: "no_err f w = (Inr x, w') \<longleftrightarrow> f w = (x, w')"
  by (auto simp: no_err_def split: prod.splits)

lemma finish_Inr: "finish x w = (Inr y, w') \<longleftrightarrow> y = x \<and> w' = w"
  by (auto simp: finish_def)

lemmas io_Inr = and_then_Inr or_fatal_Inr err_only_Inr no_err_Inr finish_Inr

lemma fs_lawD:
  assumes "fs_law L fs"
  shows "time_Now L w = (t, w') \<Longrightarrow> fs w' = fs w"
    and "rsa_GenerateKey L b w = (r, w') \<Longrightarrow> fs w' = fs w"
    and "x509_CreateCertificate L t1 p k s w = (c, w') \<Longrightarrow> fs w' = fs w"
    and "os_MkdirAll L d w = (e, w') \<Longrightarrow> fs w' = fs w"
  using assms unfolding fs_law_def by (metis snd_conv)+

lemma issue_lawD:
  "issue_law L issued \<Longrightarrow> x509_CreateCertificate L t p k s w = (Inr der, w') \<Longrightarrow> issued der = (t, k, p, s)"
  unfolding issue_law_def by blast

lemma writePEM_effect:
  assumes "fs_law L fs" and "writePEM L path ty der w = (Inr x, w')"
  shows "fs w' = fmupd path (ty, der) (fs w)"
  using assms unfolding fs_law_def writePEM_def io_Inr by auto


subsection \<open>What the files hold\<close>

definition cert_path :: "('w, 'k) cert_lib \<Rightarrow> string \<Rightarrow> string \<Rightarrow> string" where
  "cert_path L outDir name = path_Join L outDir (name @ ''.pem'')"

definition key_path :: "('w, 'k) cert_lib \<Rightarrow> string \<Rightarrow> string \<Rightarrow> string" where
  "key_path L outDir name = path_Join L outDir (name @ ''.key'')"

definition leaf_paths :: "('w, 'k) cert_lib \<Rightarrow> string \<Rightarrow> string list \<Rightarrow> string list" where
  "leaf_paths L outDir names = concat (map (\<lambda>n. [cert_path L outDir n, key_path L outDir n]) names)"

text \<open>A certificate for a name and the key it certifies, issued by the given CA.\<close>

definition leaf_files ::
  "('w, 'k) cert_lib \<Rightarrow> (string \<Rightarrow> template \<times> 'k \<times> template \<times> 'k) \<Rightarrow> string \<Rightarrow> template \<Rightarrow> 'k
    \<Rightarrow> (string, string \<times> string) fmap \<Rightarrow> nat \<Rightarrow> string \<Rightarrow> bool"
where
  "leaf_files L issued outDir caT caKey m i name \<longleftrightarrow>
     (\<exists>der key t0 t1.
        fmlookup m (cert_path L outDir name) = Some (''CERTIFICATE'', der) \<and>
        fmlookup m (key_path L outDir name) = Some (''RSA PRIVATE KEY'', MarshalPKCS1PrivateKey L key) \<and>
        issued der = (leaf_template (int i + 2) name [''localhost'', name] [''127.0.0.1'', ''::1''] t0 t1,
          key, caT, caKey))"

lemma gencert_leaf_effect:
  assumes fs: "fs_law L fs" and iss: "issue_law L issued" and paths: "distinct (leaf_paths L outDir [name])"
    and run: "gencert_leaf L outDir caT caKey i name w = (Inr x, w')"
  shows "leaf_files L issued outDir caT caKey (fs w') i name \<and>
    (\<forall>p. p \<notin> set (leaf_paths L outDir [name]) \<longrightarrow> fmlookup (fs w') p = fmlookup (fs w) p)"
proof -
  from run obtain key w1 t0 w2 t1 w3 der w4 w5 where
    steps: "rsa_GenerateKey L 2048 w = (Inr key, w1)" "time_Now L w1 = (t0, w2)" "time_Now L w2 = (t1, w3)"
      "x509_CreateCertificate L (leaf_template (int i + 2) name [''localhost'', name]
         [''127.0.0.1'', ''::1''] t0 (t1 + 365 * 24 * Hour)) caT key caKey w3 = (Inr der, w4)"
    and wr: "writePEM L (cert_path L outDir name) ''CERTIFICATE'' der w4 = (Inr (), w5)"
      "writePEM L (key_path L outDir name) ''RSA PRIVATE KEY'' (MarshalPKCS1PrivateKey L key) w5 = (Inr x, w')"
    by (auto simp: gencert_leaf_def io_Inr cert_path_def key_path_def)
  have "fs w4 = fs w" using fs_lawD [OF fs] steps by metis
  then have fs': "fs w' = fmupd (key_path L outDir name) (''RSA PRIVATE KEY'', MarshalPKCS1PrivateKey L key)
      (fmupd (cert_path L outDir name) (''CERTIFICATE'', der) (fs w))"
    using writePEM_effect [OF fs wr(1)] writePEM_effect [OF fs wr(2)] by simp
  have "issued der = (leaf_template (int i + 2) name [''localhost'', name] [''127.0.0.1'', ''::1'']
      t0 (t1 + 365 * 24 * Hour), key, caT, caKey)"
    by (rule issue_lawD [OF iss steps(4)])
  then show ?thesis using paths by (auto simp: leaf_files_def fs' leaf_paths_def)
qed

lemma gencert_leaves_effect:
  assumes fs: "fs_law L fs" and iss: "issue_law L issued"
    and "distinct (leaf_paths L outDir names)" and "gencert_leaves L outDir caT caKey i names w = (Inr x, w')"
  shows "(\<forall>j<length names. leaf_files L issued outDir caT caKey (fs w') (i + j) (names ! j)) \<and>
    (\<forall>p. p \<notin> set (leaf_paths L outDir names) \<longrightarrow> fmlookup (fs w') p = fmlookup (fs w) p)"
  using assms(3,4)
proof (induction names arbitrary: i w)
  case Nil
  then show ?case by (simp add: io_Inr)
next
  case (Cons name names)
  then obtain w1 where one: "gencert_leaf L outDir caT caKey i name w = (Inr (), w1)"
    and rest: "gencert_leaves L outDir caT caKey (i + 1) names w1 = (Inr x, w')"
    by (auto simp: io_Inr)
  have paths: "leaf_paths L outDir (name # names) = leaf_paths L outDir [name] @ leaf_paths L outDir names"
    by (simp add: leaf_paths_def)
  have dist: "distinct (leaf_paths L outDir [name])" "distinct (leaf_paths L outDir names)"
    "set (leaf_paths L outDir [name]) \<inter> set (leaf_paths L outDir names) = {}"
    using Cons.prems(1) unfolding paths distinct_append by blast+
  note e1 = gencert_leaf_effect [OF fs iss dist(1) one] and e2 = Cons.IH [OF dist(2) rest]
  have "leaf_files L issued outDir caT caKey (fs w') i name"
    using e1 e2 dist(3) by (auto simp: leaf_files_def leaf_paths_def)
  then have "leaf_files L issued outDir caT caKey (fs w') (i + j) ((name # names) ! j)"
    if "j < Suc (length names)" for j
    using e2 that by (cases j) auto
  with e1 e2 show ?case unfolding paths by auto
qed

lemma gencert_effect:
  assumes fs: "fs_law L fs" and iss: "issue_law L issued"
    and paths: "distinct (leaf_paths L outDir names)" and run: "gencert L outDir names w = (Inr x, w')"
  shows "\<exists>caT caKey caDER t0 t1. caT = ca_template ''multi-region-example-ca'' t0 t1 \<and>
    issued caDER = (caT, caKey, caT, caKey) \<and>
    (\<forall>j<length names. leaf_files L issued outDir caT caKey (fs w') j (names ! j)) \<and>
    (cert_path L outDir ''ca'' \<notin> set (leaf_paths L outDir names) \<longrightarrow>
       fmlookup (fs w') (cert_path L outDir ''ca'') = Some (''CERTIFICATE'', caDER))"
proof -
  from run obtain caKey t0 t1 caDER w1 w2 w3 where
    ca: "x509_CreateCertificate L (ca_template ''multi-region-example-ca'' t0 (t1 + 365 * 24 * Hour))
        (ca_template ''multi-region-example-ca'' t0 (t1 + 365 * 24 * Hour)) caKey caKey w1 = (Inr caDER, w2)"
    and wr: "writePEM L (cert_path L outDir ''ca'') ''CERTIFICATE'' caDER w2 = (Inr (), w3)"
    and lv: "gencert_leaves L outDir (ca_template ''multi-region-example-ca'' t0 (t1 + 365 * 24 * Hour))
        caKey 0 names w3 = (Inr x, w')"
    by (auto simp: gencert_def Let_def io_Inr fatal_def cert_path_def split: if_splits)
  let ?T = "ca_template ''multi-region-example-ca'' t0 (t1 + 365 * 24 * Hour)"
  have "issued caDER = (?T, caKey, ?T, caKey)"
    by (rule issue_lawD [OF iss ca])
  with gencert_leaves_effect [OF fs iss paths lv] writePEM_effect [OF fs wr] show ?thesis
    by (intro exI [of _ ?T] exI [of _ caKey] exI [of _ caDER] exI [of _ t0] exI [of _ "t1 + 365 * 24 * Hour"])
      simp
qed


lemma with_deferred_Inr: "with_deferred g f w = (Inr x, w') \<longleftrightarrow> (\<exists>w1. f w = (Inr x, w1) \<and> w' = g w1)"
  by (auto simp: with_deferred_def split: prod.splits)

lemma test_writePEM_effect:
  assumes "fs_law L fs" and "test_writePEM L path ty der w = (Inr x, w')"
  shows "fs w' = fmupd path (ty, der) (fs w)"
  using assms unfolding fs_law_def test_writePEM_def io_Inr with_deferred_Inr by auto

lemma test_leaf_effect:
  assumes fs: "fs_law L fs" and iss: "issue_law L issued"
    and run: "test_leaf L dir caT caKey caPath w = (Inr (ca, cert, keyf), w')"
  shows "\<exists>der t key. CommonName t = ''localhost'' \<and> \<not> IsCA t \<and> issued der = (t, key, caT, caKey) \<and>
    ca = caPath \<and> cert = path_Join L dir ''leaf.pem'' \<and> keyf = path_Join L dir ''leaf.key'' \<and>
    fs w' = fmupd keyf (''RSA PRIVATE KEY'', MarshalPKCS1PrivateKey L key) (fmupd cert (''CERTIFICATE'', der) (fs w))"
proof -
  from run obtain key w4 t2 w5 t3 w6 der w7 w8 where
    k: "rsa_GenerateKey L 2048 w = (Inr key, w4)" "time_Now L w4 = (t2, w5)" "time_Now L w5 = (t3, w6)"
    and c: "x509_CreateCertificate L (leaf_template 2 ''localhost'' [''localhost''] [] t2 (t3 + Hour))
        caT key caKey w6 = (Inr der, w7)"
    and p: "test_writePEM L cert ''CERTIFICATE'' der w7 = (Inr (), w8)"
      "test_writePEM L keyf ''RSA PRIVATE KEY'' (MarshalPKCS1PrivateKey L key) w8 = (Inr (), w')"
    and res: "ca = caPath" "cert = path_Join L dir ''leaf.pem''" "keyf = path_Join L dir ''leaf.key''"
    by (auto simp: test_leaf_def Let_def io_Inr)
  have "fs w7 = fs w" using fs_lawD [OF fs] k c by metis
  with test_writePEM_effect [OF fs p(1)] test_writePEM_effect [OF fs p(2)] issue_lawD [OF iss c] res
  show ?thesis
    by (intro exI [of _ der] exI [of _ key]
        exI [of _ "leaf_template 2 ''localhost'' [''localhost''] [] t2 (t3 + Hour)"]) (simp add: leaf_template_def)
qed

lemma GenerateTestCA_effect:
  assumes fs: "fs_law L fs" and iss: "issue_law L issued"
    and paths: "distinct [path_Join L dir ''ca.pem'', path_Join L dir ''leaf.pem'', path_Join L dir ''leaf.key'']"
    and run: "GenerateTestCA L dir w = (Inr (ca, cert, keyf), w')"
  shows "\<exists>caDER caT caKey der t key.
    fmlookup (fs w') ca = Some (''CERTIFICATE'', caDER) \<and> issued caDER = (caT, caKey, caT, caKey) \<and> IsCA caT \<and>
    fmlookup (fs w') cert = Some (''CERTIFICATE'', der) \<and> issued der = (t, key, caT, caKey) \<and>
    CommonName t = ''localhost'' \<and> \<not> IsCA t \<and>
    fmlookup (fs w') keyf = Some (''RSA PRIVATE KEY'', MarshalPKCS1PrivateKey L key)"
proof -
  from run obtain caKey t0 t1 caDER w1 w2 w3 where
    c: "x509_CreateCertificate L (ca_template ''test-ca'' t0 (t1 + Hour))
        (ca_template ''test-ca'' t0 (t1 + Hour)) caKey caKey w1 = (Inr caDER, w2)"
    and p: "test_writePEM L (path_Join L dir ''ca.pem'') ''CERTIFICATE'' caDER w2 = (Inr (), w3)"
    and l: "test_leaf L dir (ca_template ''test-ca'' t0 (t1 + Hour)) caKey (path_Join L dir ''ca.pem'') w3 =
        (Inr (ca, cert, keyf), w')"
    by (auto simp: GenerateTestCA_def Let_def io_Inr)
  from test_leaf_effect [OF fs iss l] obtain der t key where leaf: "CommonName t = ''localhost''" "\<not> IsCA t"
    "issued der = (t, key, ca_template ''test-ca'' t0 (t1 + Hour), caKey)"
    "ca = path_Join L dir ''ca.pem''" "cert = path_Join L dir ''leaf.pem''" "keyf = path_Join L dir ''leaf.key''"
    "fs w' = fmupd keyf (''RSA PRIVATE KEY'', MarshalPKCS1PrivateKey L key) (fmupd cert (''CERTIFICATE'', der) (fs w3))"
    by blast
  with test_writePEM_effect [OF fs p] issue_lawD [OF iss c] paths show ?thesis
    by (intro exI [of _ caDER] exI [of _ "ca_template ''test-ca'' t0 (t1 + Hour)"] exI [of _ caKey]
        exI [of _ der] exI [of _ t] exI [of _ key]) (auto simp: ca_template_def)
qed

end
