(* ===== verification/Gencert_Properties.thy ===== *)
theory Gencert_Properties
  imports Gencert Allow_List
begin

text \<open>
  The certificates of \<open>gencert\<close> in use: both ends load their TLS configuration from the files,
  and the service's allow list admits a child by the certificate made for its name. A witness
  runs the command on a small world.
\<close>

text \<open>
  What loading relies on, for the files \<open>m\<close>: a file with a certificate parses into a pool, and a
  certificate loads with the file of the key it certifies.
\<close>

definition loads ::
  "tls_lib \<Rightarrow> ('w, 'k) cert_lib \<Rightarrow> (string \<Rightarrow> template \<times> 'k \<times> template \<times> 'k)
    \<Rightarrow> (string, string \<times> string) fmap \<Rightarrow> bool"
where
  "loads lib L issued m \<longleftrightarrow>
     (\<forall>p der. fmlookup m p = Some (''CERTIFICATE'', der) \<longrightarrow>
        (\<exists>pem pool. ReadFile lib p = Inr pem \<and> AppendCertsFromPEM lib pem = Some pool)) \<and>
     (\<forall>p q der. fmlookup m p = Some (''CERTIFICATE'', der) \<longrightarrow>
        fmlookup m q = Some (''RSA PRIVATE KEY'', MarshalPKCS1PrivateKey L (fst (snd (issued der)))) \<longrightarrow>
        (\<exists>cert. LoadX509KeyPair lib p q = Inr cert))"

text \<open>
  C28. After a run of \<open>gencert\<close> for some names, the files of every name load as a TLS
  configuration of either end, under the CA the run made, and the certificate admits its bearer
  at a service exactly under the name it was made for, and only while that name is in the
  service's list. The paths are assumed distinct: no two names, and no name and the CA, share
  a file.
\<close>

theorem gencert_certificates_admit:
  assumes "fs_law L fs" and "issue_law L issued" and "gencert L outDir names w = (Inr (), w')"
    and "distinct (cert_path L outDir ''ca'' # leaf_paths L outDir names)"
    and "i < length names" and "loads lib L issued (fs w')"
    and "a = \<lparr>caCertPath = cert_path L outDir ''ca'', certPath = cert_path L outDir (names ! i),
              keyPath = key_path L outDir (names ! i)\<rparr>"
  shows "\<exists>caDER caT caKey der t key.
    fmlookup (fs w') (caCertPath a) = Some (''CERTIFICATE'', caDER) \<and> issued caDER = (caT, caKey, caT, caKey) \<and> IsCA caT \<and>
    fmlookup (fs w') (certPath a) = Some (''CERTIFICATE'', der) \<and> issued der = (t, key, caT, caKey) \<and> \<not> IsCA t \<and>
    (\<exists>scfg ccfg. ServerTLSConfig lib a = Inr scfg \<and> ClientTLSConfig lib a = Inr ccfg) \<and>
    (\<forall>l cx id. peer_cn cx = Some (CommonName t) \<longrightarrow>
       (Authorize l cx id = None \<longleftrightarrow> id \<noteq> '''' \<and> id = names ! i \<and> contains l id))"
proof -
  let ?m = "fs w'"
  have dist: "distinct (leaf_paths L outDir names)" "cert_path L outDir ''ca'' \<notin> set (leaf_paths L outDir names)"
    using assms(4) by simp_all
  from gencert_effect [OF assms(1,2) dist(1) assms(3)] dist(2) assms(5)
  obtain caT caKey caDER t0 t1 where ca: "caT = ca_template ''multi-region-example-ca'' t0 t1"
    "issued caDER = (caT, caKey, caT, caKey)"
    "fmlookup ?m (caCertPath a) = Some (''CERTIFICATE'', caDER)"
    and "leaf_files L issued outDir caT caKey ?m i (names ! i)"
    by (auto simp: assms(7))
  then obtain der key t where leaf: "fmlookup ?m (certPath a) = Some (''CERTIFICATE'', der)"
    "fmlookup ?m (keyPath a) = Some (''RSA PRIVATE KEY'', MarshalPKCS1PrivateKey L key)"
    "issued der = (t, key, caT, caKey)" "CommonName t = names ! i" "\<not> IsCA t"
    by (auto simp: leaf_files_def leaf_template_def assms(7))
  obtain pem pool where pool: "ReadFile lib (caCertPath a) = Inr pem" "AppendCertsFromPEM lib pem = Some pool"
    using assms(6) ca(3) unfolding loads_def by blast
  have "fmlookup ?m (keyPath a) = Some (''RSA PRIVATE KEY'', MarshalPKCS1PrivateKey L (fst (snd (issued der))))"
    using leaf(2,3) by simp
  with assms(6) leaf(1) obtain cert where cert: "LoadX509KeyPair lib (certPath a) (keyPath a) = Inr cert"
    unfolding loads_def by blast
  have "\<exists>scfg ccfg. ServerTLSConfig lib a = Inr scfg \<and> ClientTLSConfig lib a = Inr ccfg"
    by (simp add: ServerTLSConfig_def ClientTLSConfig_def loadCAPool_def loadKeyPair_def pool cert)
  moreover have "IsCA caT" by (simp add: ca(1) ca_template_def)
  moreover have "\<forall>l cx id. peer_cn cx = Some (CommonName t) \<longrightarrow>
      (Authorize l cx id = None \<longleftrightarrow> id \<noteq> '''' \<and> id = names ! i \<and> contains l id)"
    using leaf(4) by (auto simp: Authorize_admits)
  ultimately show ?thesis
    using ca(2,3) leaf(1,3,5)
    by (intro exI [of _ caDER] exI [of _ caT] exI [of _ caKey] exI [of _ der] exI [of _ t] exI [of _ key]) simp
qed

text \<open>
  C39. A node that is called \<open>ca\<close> destroys the CA file: its certificate has the same path, so
  after the run that file holds the certificate of a node, which is no CA, and nothing is left of
  the certificate that issued all the others.
\<close>

theorem gencert_ca_overwritten:
  assumes "fs_law L fs" and "issue_law L issued" and "gencert L outDir names w = (Inr (), w')"
    and "distinct (leaf_paths L outDir names)" and "''ca'' \<in> set names"
  shows "\<exists>der. fmlookup (fs w') (path_Join L outDir ''ca.pem'') = Some (''CERTIFICATE'', der) \<and>
    CommonName (fst (issued der)) = ''ca'' \<and> \<not> IsCA (fst (issued der))"
proof -
  obtain j where "j < length names" "names ! j = ''ca''" using assms(5) by (auto simp: in_set_conv_nth)
  with gencert_effect [OF assms(1,2,4,3)] obtain caT caKey where
    "leaf_files L issued outDir caT caKey (fs w') j ''ca''" by metis
  then show ?thesis by (auto simp: leaf_files_def leaf_template_def cert_path_def)
qed

subsection \<open>A small world\<close>

text \<open>
  The files, and the path of the file that is open. The clock stands still, there is one key, and
  a certificate is made for the CA of the command and for the first name only.
\<close>

type_synonym demo_world = "(string, string \<times> string) fmap \<times> string"

definition demo_ca :: template where
  "demo_ca = ca_template ''multi-region-example-ca'' 0 (365 * 24 * Hour)"

definition demo_leaf :: "string \<Rightarrow> template" where
  "demo_leaf name = leaf_template 2 name [''localhost'', name] [''127.0.0.1'', ''::1''] 0 (365 * 24 * Hour)"

definition demo_lib :: "(demo_world, unit) cert_lib" where
  "demo_lib =
     \<lparr>time_Now = (\<lambda>w. (0, w)),
      rsa_GenerateKey = (\<lambda>b w. (Inr (), w)),
      x509_CreateCertificate = (\<lambda>t p k s w.
        (if p = demo_ca \<and> t = demo_ca then Inr ''CA''
         else if p = demo_ca \<and> t = demo_leaf (CommonName t) then Inr (CHR ''L'' # CommonName t)
         else Inl (Errorf ''unsupported'' [] []), w)),
      MarshalPKCS1PrivateKey = (\<lambda>k. ''K''),
      os_MkdirAll = (\<lambda>d w. (None, w)),
      os_Create = (\<lambda>p (m, q). (Inr 0, (m, p))),
      pem_Encode = (\<lambda>f ty der (m, q). (None, (fmupd q (ty, der) m, q))),
      file_Close = (\<lambda>f w. w),
      path_Join = (\<lambda>d n. d @ ''/'' @ n)\<rparr>"

definition demo_issued :: "string \<Rightarrow> template \<times> unit \<times> template \<times> unit" where
  "demo_issued der = (case der of CHR ''L'' # name \<Rightarrow> (demo_leaf name, (), demo_ca, ()) | _ \<Rightarrow> (demo_ca, (), demo_ca, ()))"

definition pem_tls :: tls_lib where
  "pem_tls = \<lparr>ReadFile = Inr, AppendCertsFromPEM = Some, LoadX509KeyPair = (\<lambda>c k. Inr c)\<rparr>"

lemma demo_fs_law: "fs_law demo_lib fst"
  by (auto simp: fs_law_def demo_lib_def split: prod.splits)

lemma demo_issue_law: "issue_law demo_lib demo_issued"
  by (auto simp: issue_law_def demo_lib_def demo_issued_def split: if_splits)

lemma demo_run: "\<exists>w'. gencert demo_lib ''out'' [name] (fmempty, '''') = (Inr (), w')"
  by (simp add: gencert_def gencert_leaf_def writePEM_def and_then_def or_fatal_def err_only_def no_err_def
      finish_def demo_lib_def demo_ca_def [symmetric] demo_leaf_def leaf_template_def demo_ca_def ca_template_def)

theorem gencert_certificates_admit_witness:
  "\<exists>w' (t :: template). gencert demo_lib ''out'' [''a''] (fmempty, '''') = (Inr (), w') \<and>
     Authorize (newChildAllowList [''a'', ''b'']) \<lparr>incoming_md = None, peer_auth = Some (TLSInfo [CommonName t])\<rparr> ''a'' = None"
proof -
  obtain w' where run: "gencert demo_lib ''out'' [''a''] (fmempty, '''') = (Inr (), w')"
    using demo_run by blast
  have d: "distinct (cert_path demo_lib ''out'' ''ca'' # leaf_paths demo_lib ''out'' [''a''])"
    by (simp add: cert_path_def key_path_def leaf_paths_def demo_lib_def)
  have l: "loads pem_tls demo_lib demo_issued (fst w')" by (simp add: loads_def pem_tls_def)
  have "0 < length [''a'']" by simp
  note gencert_certificates_admit [OF demo_fs_law demo_issue_law run d this l refl]
  then obtain t :: template where t: "\<forall>l cx id. peer_cn cx = Some (CommonName t) \<longrightarrow>
       (Authorize l cx id = None \<longleftrightarrow> id \<noteq> '''' \<and> id = [''a''] ! 0 \<and> contains l id)"
    by (elim exE conjE) (rule that)
  let ?cx = "\<lparr>incoming_md = None, peer_auth = Some (TLSInfo [CommonName t])\<rparr>"
  have "peer_cn ?cx = Some (CommonName t)" by (simp add: peer_cn_def)
  with t have "Authorize (newChildAllowList [''a'', ''b'']) ?cx ''a'' = None \<longleftrightarrow>
      contains (newChildAllowList [''a'', ''b'']) ''a''" by simp
  with run show ?thesis by (auto simp: contains_new)
qed

theorem gencert_ca_overwritten_witness:
  "\<exists>w' der. gencert demo_lib ''out'' [''ca''] (fmempty, '''') = (Inr (), w') \<and>
     fmlookup (fst w') ''out/ca.pem'' = Some (''CERTIFICATE'', der) \<and> \<not> IsCA (fst (demo_issued der))"
proof -
  obtain w' where run: "gencert demo_lib ''out'' [''ca''] (fmempty, '''') = (Inr (), w')"
    using demo_run by blast
  have "distinct (leaf_paths demo_lib ''out'' [''ca''])"
    by (simp add: cert_path_def key_path_def leaf_paths_def demo_lib_def)
  from gencert_ca_overwritten [OF demo_fs_law demo_issue_law run this] run show ?thesis
    by (auto simp: demo_lib_def)
qed

end
