(* ===== verification/Api_Types.thy ===== *)
theory Api_Types
  imports Service_Properties
begin

text \<open>
  The types of the answers of the REST API of \<open>examples/node/main.go\<close>: what a client can rely on when
  it decodes an answer, for each endpoint and status. The code has no such table, it is the
  specification that the handlers of \<open>Http_Api\<close> are checked against.
\<close>

subsection \<open>Types of JSON values\<close>

text \<open>
  A field of an object has a name, whether it must be there, and a type; an object lists its fields
  in this order, as the encoder does for the sorted keys of a map and for the fields of a struct.
\<close>

datatype jtype =
    TStr | TBytes | TMsg | TInt | TNat | TBool
  | TArr jtype
  | TNullOr jtype
  | TObj "(string \<times> bool \<times> jtype) list"

fun has_type :: "json \<Rightarrow> jtype \<Rightarrow> bool"
  and has_fields :: "(string \<times> json) list \<Rightarrow> (string \<times> bool \<times> jtype) list \<Rightarrow> bool"
where
  "has_type v (TNullOr t) \<longleftrightarrow> v = JNull \<or> has_type v t"
| "has_type (JStr s) TStr \<longleftrightarrow> True"
| "has_type (JBytes b) TBytes \<longleftrightarrow> True"
| "has_type (JMsg e) TMsg \<longleftrightarrow> True"
| "has_type (JInt i) TInt \<longleftrightarrow> True"
| "has_type (JInt i) TNat \<longleftrightarrow> 0 \<le> i"
| "has_type (JBool b) TBool \<longleftrightarrow> True"
| "has_type (JArr vs) (TArr t) \<longleftrightarrow> (\<forall>v \<in> set vs. has_type v t)"
| "has_type (JObj kvs) (TObj fs) \<longleftrightarrow> has_fields kvs fs"
| "has_type v t \<longleftrightarrow> False"
| "has_fields [] fs \<longleftrightarrow> list_all (\<lambda>(k, required, t). \<not> required) fs"
| "has_fields (kv # kvs) [] \<longleftrightarrow> False"
| "has_fields ((k, v) # kvs) ((k', required, t) # fs) \<longleftrightarrow>
     (if k = k' then has_type v t \<and> has_fields kvs fs
      else \<not> required \<and> has_fields ((k, v) # kvs) fs)"

text \<open>An object has no field that its type does not know.\<close>

lemma has_fields_known: "has_fields kvs fs \<Longrightarrow> set (map fst kvs) \<subseteq> set (map fst fs)"
proof (induction fs arbitrary: kvs)
  case Nil
  then show ?case by (cases kvs) simp_all
next
  case (Cons f fs)
  obtain k' r t where f: "f = (k', r, t)" by (rule prod_cases3)
  show ?case
  proof (cases kvs)
    case Nil
    then show ?thesis by simp
  next
    case (Cons kv kvs')
    obtain k v where kv: "kv = (k, v)" by (rule prod.exhaust)
    show ?thesis
      using Cons.prems Cons.IH [of kvs'] Cons.IH [of kvs] by (auto simp: f kv Cons split: if_splits)
  qed
qed


subsection \<open>Types of answers\<close>

datatype body_type = NoBody | PlainText | Page | JsonOf jtype

fun body_ok :: "body_type \<Rightarrow> chunk list \<Rightarrow> bool" where
  "body_ok NoBody b \<longleftrightarrow> b = []"
| "body_ok PlainText b \<longleftrightarrow> (case b of [Msg e] \<Rightarrow> True | _ \<Rightarrow> False)"
| "body_ok Page b \<longleftrightarrow> (case b of [Bytes s] \<Rightarrow> True | _ \<Rightarrow> False)"
| "body_ok (JsonOf t) b \<longleftrightarrow> (case b of [Json v] \<Rightarrow> has_type v t | _ \<Rightarrow> False)"

text \<open>A JSON answer says that it is one only when its status is 200.\<close>

fun content_type :: "nat \<Rightarrow> body_type \<Rightarrow> string option" where
  "content_type st NoBody = None"
| "content_type st PlainText = Some ''text/plain; charset=utf-8''"
| "content_type st Page = Some ''text/html; charset=utf-8''"
| "content_type st (JsonOf t) = (if st = 200 then Some ''application/json'' else None)"

definition count_type :: jtype where
  "count_type = TObj [(''children_count'', True, TNat)]"

definition allowed_type :: jtype where
  "allowed_type = TObj [(''allowed_child_ids'', True, TArr TStr)]"

definition env_type :: jtype where
  "env_type = TObj [(''id'', False, TStr), (''kind'', False, TStr), (''payload'', False, TBytes),
     (''timestamp'', False, TInt)]"

fun answer_types :: "endpoint \<Rightarrow> (nat \<times> body_type) list" where
  "answer_types Dashboard = [(200, Page)]"
| "answer_types AgentLog = [(202, JsonOf (TObj [(''status'', True, TStr)])), (400, PlainText)]"
| "answer_types AdminConfig =
     [(202, NoBody), (206, JsonOf (TObj [(''delivered'', True, TNat), (''dropped'', True, TArr TStr)])),
      (400, PlainText)]"
| "answer_types AdminConfigForChild = [(202, NoBody), (400, PlainText)]"
| "answer_types AdminLogs =
     [(200, JsonOf (TNullOr (TArr env_type))), (400, PlainText), (500, PlainText)]"
| "answer_types AdminStatus = [(200, JsonOf (TObj
     [(''children_count'', True, TNat), (''connected_to_parent'', True, TBool),
      (''has_parent'', True, TBool), (''id'', True, TStr), (''listen_addr'', True, TStr)]))]"
| "answer_types AdminChildren = [(200, JsonOf count_type)]"
| "answer_types GetAllowedChildren = [(200, JsonOf allowed_type)]"
| "answer_types ApproveChild = [(202, JsonOf allowed_type), (400, PlainText)]"
| "answer_types RevokeChild = [(204, NoBody)]"
| "answer_types PendingChildrenList = [(200, JsonOf (TArr (TObj
     [(''first_seen'', True, TInt), (''last_reason'', True, TMsg), (''node_id'', True, TStr)])))]"
| "answer_types Metrics = []"

definition answer_ok :: "nat \<times> body_type \<Rightarrow> response \<Rightarrow> bool" where
  "answer_ok a w \<longleftrightarrow> sent_status w = fst a \<and> body_ok (snd a) (body w) \<and>
     sent_header ''Content-Type'' w = content_type (fst a) (snd a)"

lemma env_json_type: "has_type (env_json env) env_type"
  by (simp add: env_json_def env_type_def)

lemma allowed_json_type: "has_type (allowed_json ks l) allowed_type"
  by (auto simp: allowed_json_def allowed_type_def)

lemma entries_json_type: "has_type (entries_json es) (TNullOr (TArr env_type))"
  by (auto simp: entries_json_def env_json_type)

lemma parse_failed_ok: "answer_ok (400, PlainText) (parse_failed e new_response)"
  by (simp add: answer_ok_def parse_failed_def sent_http_Error StatusBadRequest_def)

lemma http_Error_ok: "answer_ok (code, PlainText) (http_Error e code new_response)"
  by (simp add: answer_ok_def sent_http_Error)

lemma status_only_ok: "answer_ok (code, NoBody) (WriteHeader code new_response)"
  by (simp add: answer_ok_def sent_header_def)

lemma writeJSON_ok: "has_type v t \<Longrightarrow> answer_ok (200, JsonOf t) (writeJSON v new_response)"
  by (simp add: answer_ok_def writeJSON_content_type)

lemma late_writeJSON_ok:
  "has_type v t \<Longrightarrow> code \<noteq> 200 \<Longrightarrow>
     answer_ok (code, JsonOf t) (writeJSON v (WriteHeader code new_response))"
  by (simp add: answer_ok_def writeJSON_content_type)

lemmas answers_ok = parse_failed_ok http_Error_ok status_only_ok writeJSON_ok late_writeJSON_ok


text \<open>Sending up has no error, so the handler's branch that answers 500 is never taken.\<close>

lemma handleAgentLog_typed:
  "\<exists>w v. handleAgentLog N rq y new_response = (Returned w, v) \<and>
     (\<exists>a \<in> set (answer_types AgentLog). answer_ok a w)"
proof (cases "rq_decode rq ''payload''")
  case (Inl err)
  then show ?thesis by (simp add: handleAgentLog_def parse_failed_ok)
next
  case (Inr p)
  obtain r n' m' w' where s: "SendUp N (rq_ctx rq) kindLog p (now1 rq) (now2 rq) (svc_node y)
      (svc_metrics y) (svc_world y) = (r, n', m', w')" by (rule prod_cases4)
  then have "r = Returned None" by (auto simp: SendUp_def Let_def elim: forwardUp_cases)
  with Inr s show ?thesis
    by (simp add: handleAgentLog_def late_writeJSON_ok StatusAccepted_def)
qed

lemma handleAdminConfig_typed:
  "\<exists>a \<in> set (answer_types AdminConfig). answer_ok a (fst (handleAdminConfig rq y new_response))"
  by (auto simp: handleAdminConfig_def late_writeJSON_ok status_only_ok parse_failed_ok
      StatusAccepted_def StatusPartialContent_def split: sum.split prod.split)

lemma handleAdminConfigForChild_typed:
  "\<exists>a \<in> set (answer_types AdminConfigForChild).
     answer_ok a (fst (handleAdminConfigForChild rq y new_response))"
  by (auto simp: handleAdminConfigForChild_def http_Error_ok status_only_ok parse_failed_ok
      StatusAccepted_def StatusBadRequest_def split: sum.split prod.split option.split)

lemma handleAdminLogs_typed:
  "\<exists>a \<in> set (answer_types AdminLogs). answer_ok a (handleAdminLogs L C rq y new_response)"
  by (auto simp: handleAdminLogs_def Let_def http_Error_ok writeJSON_ok entries_json_type
      StatusBadRequest_def StatusInternalServerError_def
      simp del: has_type.simps split: sum.split prod.split option.split)

lemma handleApproveChild_typed:
  "\<exists>a \<in> set (answer_types ApproveChild). answer_ok a (fst (handleApproveChild rq y new_response))"
  by (auto simp: handleApproveChild_def Let_def http_Error_ok late_writeJSON_ok parse_failed_ok
      allowed_json_type StatusBadRequest_def StatusAccepted_def split: sum.split)

lemma listing_answers_typed:
  "answer_ok (200, Page) (handleDashboard html new_response)"
  "\<exists>a \<in> set (answer_types AdminStatus). answer_ok a (handleAdminStatus y new_response)"
  "\<exists>a \<in> set (answer_types AdminChildren). answer_ok a (handleAdminChildren y new_response)"
  "\<exists>a \<in> set (answer_types GetAllowedChildren). answer_ok a (handleGetAllowedChildren rq y new_response)"
  "\<exists>a \<in> set (answer_types RevokeChild). answer_ok a (fst (handleRevokeChild rq y new_response))"
  "\<exists>a \<in> set (answer_types PendingChildrenList). answer_ok a (handlePendingChildren rq y new_response)"
proof -
  show "answer_ok (200, Page) (handleDashboard html new_response)"
    by (simp add: handleDashboard_def answer_ok_def sent_status_def sent_header_def)
qed (auto simp: handleAdminStatus_def handleAdminChildren_def handleGetAllowedChildren_def
    handleRevokeChild_def handlePendingChildren_def count_type_def allowed_json_type StatusNoContent_def
    intro!: writeJSON_ok status_only_ok)

subsection \<open>The property\<close>

text \<open>
  C11. Every request to an endpoint of the API is answered, without a panic, with a status and a body
  of the types of its endpoint, whatever the state of the service, the database and the network:
  a JSON document with exactly the fields listed, a plain text message or nothing. A JSON answer
  carries \<open>Content-Type: application/json\<close> exactly when its status is 200: what follows an explicit
  status line (202 and 206) goes out unmarked.
\<close>

theorem api_answers_typed:
  assumes "e \<noteq> Metrics"
  shows "\<exists>w v a. serve_request L C N html mh e rq y = (Returned w, v) \<and> a \<in> set (answer_types e) \<and>
    sent_status w = fst a \<and> body_ok (snd a) (body w) \<and>
    sent_header ''Content-Type'' w = content_type (fst a) (snd a)"
proof -
  have "\<exists>w v. serve_request L C N html mh e rq y = (Returned w, v) \<and>
      (\<exists>a \<in> set (answer_types e). answer_ok a w)"
    using assms handleAgentLog_typed [of N rq y] handleAdminConfig_typed [of rq y]
      handleAdminConfigForChild_typed [of rq y] handleAdminLogs_typed [of L C rq y]
      handleApproveChild_typed [of rq y] listing_answers_typed
    by (cases e) (simp_all add: serve_request_def map_prod_def split_beta del: answer_types.simps(2-))
  then show ?thesis unfolding answer_ok_def by blast
qed

theorem api_answers_typed_witness:
  "\<exists>w v. serve_request demo_bolt demo_codec (second_net demo_net) [] (\<lambda>_ w. w) ApproveChild
     (demo_request ''leaf'') demo_service = (Returned w, v) \<and> (sent_status w = 400 \<or>
       sent_status w = 202 \<and> sent_header ''Content-Type'' w = None)"
  using api_answers_typed [of ApproveChild demo_bolt demo_codec "second_net demo_net" "[]" "\<lambda>_ w. w"
      "demo_request ''leaf''" demo_service]
  by fastforce

end
