(* ===== verification/Background_Loops.thy ===== *)
theory Background_Loops
  imports Node_Facts
begin

text \<open>
  The two loops that a node with a parent runs in the background for as long as its context lasts:
  \<open>reconnectLoop\<close> of \<open>transport/client.go\<close> and \<open>retryLoop\<close> of \<open>node/node.go\<close>. They may run
  forever, so they are partial: \<open>None\<close> is a loop that does not return.

  \<open>sel i\<close> is the case of the \<open>select\<close> taken at the \<open>i\<close>-th wake-up, and \<open>others i\<close> what the rest of
  the process has done to the state the loop shares with it since the one before.
\<close>

datatype loop_wake = Tick | ContextDone

subsection \<open>The reconnect loop\<close>

partial_function (option) reconnectLoop ::
  "'w grpc \<Rightarrow> (nat \<Rightarrow> loop_wake) \<Rightarrow> (nat \<Rightarrow> client \<times> 'w \<Rightarrow> client \<times> 'w) \<Rightarrow> nat \<Rightarrow> client \<times> 'w
    \<Rightarrow> (nat \<times> client \<times> 'w) option"
where
  "reconnectLoop N sel others i cw =
     (case others i cw of
        (c, w) \<Rightarrow>
          (case sel i of
             ContextDone \<Rightarrow> Some (i, c, w)
           | Tick \<Rightarrow>
               (case reconnect_tick N c w of
                  (go_on, c', w') \<Rightarrow>
                    if go_on then reconnectLoop N sel others (i + 1) (c', w') else Some (i, c', w'))))"

lemma reopenUpstream_closed: "reopenUpstream N c w = (r, c', w') \<Longrightarrow> closed c' = closed c"
  by (auto simp: reopenUpstream_def commitUpstream_def split: option.splits prod.splits sum.splits)

lemma reopenDownstream_closed: "reopenDownstream N c w = (r, c', w') \<Longrightarrow> closed c' = closed c"
  by (auto simp: reopenDownstream_def commitDownstream_def split: option.splits prod.splits sum.splits)

lemma reconnect_tick_closed:
  assumes "reconnect_tick N c w = (b, c', w')"
  shows "closed c' = closed c" "b \<longleftrightarrow> \<not> closed c" "closed c \<Longrightarrow> c' = c \<and> w' = w"
proof -
  have up: "closed c2 = closed c1" if "snd (reopenUpstream N c1 w1) = (c2, w2)" for c1 w1 c2 w2
    using reopenUpstream_closed [of N c1 w1] that by (metis prod.collapse)
  have down: "closed c2 = closed c1" if "snd (reopenDownstream N c1 w1) = (c2, w2)" for c1 w1 c2 w2
    using reopenDownstream_closed [of N c1 w1] that by (metis prod.collapse)
  show "closed c' = closed c" "b \<longleftrightarrow> \<not> closed c" "closed c \<Longrightarrow> c' = c \<and> w' = w"
    using assms by (auto simp: reconnect_tick_def Let_def split: if_splits prod.splits dest!: up down)
qed

text \<open>A wake-up that ends the loop: the context is done, or the client is found closed.\<close>

definition ends_at ::
  "(nat \<Rightarrow> loop_wake) \<Rightarrow> (nat \<Rightarrow> client \<times> 'w \<Rightarrow> client \<times> 'w) \<Rightarrow> nat \<Rightarrow> bool"
where
  "ends_at sel others j \<longleftrightarrow> sel j = ContextDone \<or> (\<forall>cw. closed (fst (others j cw)))"

lemma reconnectLoop_returns:
  assumes "ends_at sel others j" and "i \<le> j"
  shows "\<exists>k c w. reconnectLoop N sel others i cw = Some (k, c, w) \<and> i \<le> k \<and> k \<le> j"
  using assms(2)
proof (induction arbitrary: cw rule: inc_induct)
  case base
  obtain c w where o: "others j cw = (c, w)" by (rule prod.exhaust)
  show ?case
  proof (cases "sel j")
    case ContextDone
    then show ?thesis by (simp add: reconnectLoop.simps o)
  next
    case Tick
    obtain b c' w' where t: "reconnect_tick N c w = (b, c', w')" by (rule prod_cases3)
    have "closed c" using assms(1) Tick o unfolding ends_at_def by (metis fst_conv loop_wake.distinct(1))
    then have "\<not> b" using reconnect_tick_closed(2) [OF t] by simp
    then show ?thesis by (simp add: reconnectLoop.simps o Tick t)
  qed
next
  case (step i)
  obtain c w where o: "others i cw = (c, w)" by (rule prod.exhaust)
  obtain b c' w' where t: "reconnect_tick N c w = (b, c', w')" by (rule prod_cases3)
  from step.IH [of "(c', w')"] step.hyps show ?case
    by (subst reconnectLoop.simps) (auto simp: o t split: loop_wake.split)
qed

lemma reconnectLoop_forever:
  assumes "\<And>j. sel j = Tick" and "\<And>j cw. \<not> closed (fst cw) \<Longrightarrow> \<not> closed (fst (others j cw))"
    and "\<not> closed (fst cw)"
  shows "reconnectLoop N sel others i cw = None"
proof (rule ccontr)
  assume "reconnectLoop N sel others i cw \<noteq> None"
  then obtain r where r: "reconnectLoop N sel others i cw = Some r" by blast
  have "(\<forall>j. sel j = Tick) \<longrightarrow> (\<forall>j cw. \<not> closed (fst cw) \<longrightarrow> \<not> closed (fst (others j cw))) \<longrightarrow> closed (fst cw)"
  proof (rule reconnectLoop.raw_induct [where
      P = "\<lambda>N sel others i cw r. (\<forall>j. sel j = Tick) \<longrightarrow>
        (\<forall>j cw. \<not> closed (fst cw) \<longrightarrow> \<not> closed (fst (others j cw))) \<longrightarrow> closed (fst cw)", OF _ r])
    fix f :: "'a grpc \<Rightarrow> (nat \<Rightarrow> loop_wake) \<Rightarrow> (nat \<Rightarrow> client \<times> 'a \<Rightarrow> client \<times> 'a) \<Rightarrow> nat \<Rightarrow> client \<times> 'a
        \<Rightarrow> (nat \<times> client \<times> 'a) option"
      and N sel others i cw r
    assume IH: "\<And>N sel others i cw r. f N sel others i cw = Some r \<Longrightarrow>
        (\<forall>j. sel j = Tick) \<longrightarrow> (\<forall>j cw. \<not> closed (fst cw) \<longrightarrow> \<not> closed (fst (others j cw))) \<longrightarrow> closed (fst cw)"
      and eq: "(case others i cw of (c, w) \<Rightarrow> (case sel i of Tick \<Rightarrow>
          (case reconnect_tick N c w of (go_on, c', w') \<Rightarrow>
             if go_on then f N sel others (i + 1) (c', w') else Some (i, c', w'))
        | ContextDone \<Rightarrow> Some (i, c, w))) = Some r"
    show "(\<forall>j. sel j = Tick) \<longrightarrow> (\<forall>j cw. \<not> closed (fst cw) \<longrightarrow> \<not> closed (fst (others j cw))) \<longrightarrow> closed (fst cw)"
    proof (intro impI, rule ccontr)
      assume a: "\<forall>j. sel j = Tick" "\<forall>j cw. \<not> closed (fst cw) \<longrightarrow> \<not> closed (fst (others j cw))"
        "\<not> closed (fst cw)"
      obtain c w where o: "others i cw = (c, w)" by (rule prod.exhaust)
      obtain b c' w' where t: "reconnect_tick N c w = (b, c', w')" by (rule prod_cases3)
      have c: "\<not> closed c" using a(2,3) o by (metis fst_conv)
      with reconnect_tick_closed [OF t] have "b" "\<not> closed c'" by simp_all
      with eq a(1) o t have "f N sel others (i + 1) (c', w') = Some r" by simp
      from IH [OF this] a(1,2) \<open>\<not> closed c'\<close> show False by auto
    qed
  qed
  with assms show False by blast
qed

text \<open>The wake-up that ends the loop uses the network no more.\<close>

lemma reconnectLoop_last:
  assumes r: "reconnectLoop N sel others i cw = Some r"
  shows "\<exists>cw. others (fst r) cw = snd r"
proof (rule reconnectLoop.raw_induct [where P = "\<lambda>N sel others i cw r. \<exists>cw. others (fst r) cw = snd r", OF _ r])
  fix f :: "'a grpc \<Rightarrow> (nat \<Rightarrow> loop_wake) \<Rightarrow> (nat \<Rightarrow> client \<times> 'a \<Rightarrow> client \<times> 'a) \<Rightarrow> nat \<Rightarrow> client \<times> 'a
      \<Rightarrow> (nat \<times> client \<times> 'a) option"
    and N sel others i cw r
  assume IH: "\<And>N sel others i cw r. f N sel others i cw = Some r \<Longrightarrow> \<exists>cw. others (fst r) cw = snd r"
    and eq: "(case others i cw of (c, w) \<Rightarrow> (case sel i of Tick \<Rightarrow>
        (case reconnect_tick N c w of (go_on, c', w') \<Rightarrow>
           if go_on then f N sel others (i + 1) (c', w') else Some (i, c', w'))
      | ContextDone \<Rightarrow> Some (i, c, w))) = Some r"
  obtain c w where o: "others i cw = (c, w)" by (rule prod.exhaust)
  obtain b c' w' where t: "reconnect_tick N c w = (b, c', w')" by (rule prod_cases3)
  show "\<exists>cw. others (fst r) cw = snd r"
  proof (cases "sel i = Tick \<and> b")
    case True
    with eq o t have "f N sel others (i + 1) (c', w') = Some r" by simp
    then show ?thesis by (rule IH)
  next
    case False
    then have "r = (i, c, w)"
      using eq o t reconnect_tick_closed [OF t] by (auto split: loop_wake.splits)
    with o have "others (fst r) cw = snd r" by simp
    then show ?thesis by blast
  qed
qed

subsection \<open>The retry loop\<close>

text \<open>\<open>psel i\<close> are the waits of the pass that the \<open>i\<close>-th wake-up may start.\<close>

partial_function (option) retryLoop ::
  "'w grpc \<Rightarrow> (nat \<Rightarrow> loop_wake) \<Rightarrow> (nat \<Rightarrow> nat \<Rightarrow> retry_sel)
    \<Rightarrow> (nat \<Rightarrow> 'w node \<times> metrics \<times> 'w \<Rightarrow> 'w node \<times> metrics \<times> 'w) \<Rightarrow> nat \<Rightarrow> 'w node \<times> metrics \<times> 'w
    \<Rightarrow> (unit outcome \<times> nat \<times> 'w node \<times> metrics \<times> 'w) option"
where
  "retryLoop N sel psel others i nmw =
     (case others i nmw of
        (n, m, w) \<Rightarrow>
          (case sel i of
             ContextDone \<Rightarrow> Some (Returned (), i, n, m, w)
           | Tick \<Rightarrow>
               (case retry_tick N (psel i) n m w of
                  (Panicked, nmw') \<Rightarrow> Some (Panicked, i, nmw')
                | (Returned go_on, nmw') \<Rightarrow>
                    if go_on then retryLoop N sel psel others (i + 1) nmw'
                    else Some (Returned (), i, nmw'))))"

text \<open>A pass with a client does not panic, and goes on unless the context ends in it.\<close>

lemma retry_pass_go_on:
  assumes "n_client n \<noteq> None" and "retry_pass N sel i envs n m w = (r, n', m', w')"
  shows "n_client n' \<noteq> None \<and> r = Returned (\<forall>j. i \<le> j \<and> j < i + length envs \<longrightarrow> sel j = Paced)"
  using assms
proof (induction envs arbitrary: i n m w)
  case Nil
  then show ?case by auto
next
  case (Cons env envs)
  from Cons.prems(1) obtain c where c: "n_client n = Some c" by blast
  obtain r1 c1 m1 w1 where s: "SendUpstream (node_net N n) env c m w = (r1, c1, m1, w1)" by (rule prod_cases4)
  obtain e where r1: "r1 = Returned e" using s by (cases rule: SendUpstream_cases) simp_all
  let ?n = "if e = None then n\<lparr>n_client := Some c1\<rparr>
    else n\<lparr>n_client := Some c1, pendingq := push (pendingq n) env\<rparr>"
  show ?case
  proof (cases "sel i")
    case Paced
    then have "retry_pass N sel (i + 1) envs ?n m1 w1 = (r, n', m', w')"
      using Cons.prems(2) by (simp add: c s r1 Let_def)
    from Cons.IH [OF _ this]
    have ih: "n_client n' \<noteq> None \<and> r = Returned (\<forall>j. i + 1 \<le> j \<and> j < i + 1 + length envs \<longrightarrow> sel j = Paced)"
      by simp
    have "i \<le> j \<longleftrightarrow> j = i \<or> i + 1 \<le> j" for j by linarith
    then have "(\<forall>j. i + 1 \<le> j \<and> j < i + 1 + length envs \<longrightarrow> sel j = Paced) \<longleftrightarrow>
        (\<forall>j. i \<le> j \<and> j < i + length (env # envs) \<longrightarrow> sel j = Paced)"
      using Paced by auto
    with ih show ?thesis by simp
  next
    case CtxEnded
    with Cons.prems(2) show ?thesis by (auto simp: c s r1 Let_def intro!: exI [of _ i])
  qed
qed

lemma retry_tick_go_on:
  assumes "n_client n \<noteq> None" and "retry_tick N sel n m w = (r, n', m', w')"
  shows "n_client n' \<noteq> None \<and> r = Returned (\<forall>j < length (items (pendingq n)). sel j = Paced)"
  using assms retry_pass_go_on [of "n\<lparr>pendingq := snd (drain (pendingq n))\<rparr>" N sel 0]
  by (auto simp: retry_tick_def drain_def split: if_splits)

text \<open>The loop needs a client all along, which is what \<open>Start\<close> sees to.\<close>

definition keeps_client :: "(nat \<Rightarrow> 'w node \<times> metrics \<times> 'w \<Rightarrow> 'w node \<times> metrics \<times> 'w) \<Rightarrow> bool" where
  "keeps_client others \<longleftrightarrow> (\<forall>i nmw. n_client (fst nmw) \<noteq> None \<longrightarrow> n_client (fst (others i nmw)) \<noteq> None)"

lemma retryLoop_returns:
  assumes "sel j = ContextDone" and "keeps_client others" and "i \<le> j" and "n_client (fst nmw) \<noteq> None"
  shows "\<exists>k nmw'. retryLoop N sel psel others i nmw = Some (Returned (), k, nmw') \<and> i \<le> k \<and> k \<le> j"
  using assms(3,4)
proof (induction arbitrary: nmw rule: inc_induct)
  case base
  obtain n m w where o: "others j nmw = (n, m, w)" by (rule prod_cases3)
  show ?case by (simp add: retryLoop.simps o assms(1))
next
  case (step i)
  obtain n m w where o: "others i nmw = (n, m, w)" by (rule prod_cases3)
  have c: "n_client n \<noteq> None" using assms(2) step.prems o unfolding keeps_client_def by (metis fst_conv)
  obtain r n' m' w' where t: "retry_tick N (psel i) n m w = (r, n', m', w')" by (rule prod_cases4)
  from retry_tick_go_on [OF c t] obtain b where r: "r = Returned b" "n_client n' \<noteq> None" by blast
  from step.IH [of "(n', m', w')"] r step.hyps show ?case
    by (subst retryLoop.simps) (auto simp: o t split: loop_wake.split)
qed

lemma retryLoop_forever:
  assumes "\<And>j. sel j = Tick" and "\<And>j k. psel j k = Paced" and "keeps_client others"
    and "n_client (fst nmw) \<noteq> None"
  shows "retryLoop N sel psel others i nmw = None"
proof (rule ccontr)
  let ?P = "\<lambda>sel psel others nmw. (\<forall>j. sel j = Tick) \<longrightarrow> (\<forall>j k. psel j k = Paced) \<longrightarrow> keeps_client others \<longrightarrow>
    n_client (fst nmw) = None"
  assume "retryLoop N sel psel others i nmw \<noteq> None"
  then obtain r where r: "retryLoop N sel psel others i nmw = Some r" by blast
  have "?P sel psel others nmw"
  proof (rule retryLoop.raw_induct [where P = "\<lambda>N sel psel others i nmw r. ?P sel psel others nmw", OF _ r])
    fix f :: "'a grpc \<Rightarrow> (nat \<Rightarrow> loop_wake) \<Rightarrow> (nat \<Rightarrow> nat \<Rightarrow> retry_sel)
        \<Rightarrow> (nat \<Rightarrow> 'a node \<times> metrics \<times> 'a \<Rightarrow> 'a node \<times> metrics \<times> 'a) \<Rightarrow> nat \<Rightarrow> 'a node \<times> metrics \<times> 'a
        \<Rightarrow> (unit outcome \<times> nat \<times> 'a node \<times> metrics \<times> 'a) option"
      and N sel psel others i nmw r
    assume IH: "\<And>N sel psel others i nmw r. f N sel psel others i nmw = Some r \<Longrightarrow> ?P sel psel others nmw"
      and eq: "(case others i nmw of (n, m, w) \<Rightarrow> (case sel i of
          Tick \<Rightarrow> (case retry_tick N (psel i) n m w of
             (Panicked, nmw') \<Rightarrow> Some (Panicked, i, nmw')
           | (Returned go_on, nmw') \<Rightarrow>
               if go_on then f N sel psel others (i + 1) nmw' else Some (Returned (), i, nmw'))
        | ContextDone \<Rightarrow> Some (Returned (), i, n, m, w))) = Some r"
    show "?P sel psel others nmw"
    proof (intro impI, rule ccontr)
      assume a: "\<forall>j. sel j = Tick" "\<forall>j k. psel j k = Paced" "keeps_client others" "n_client (fst nmw) \<noteq> None"
      obtain n m w where o: "others i nmw = (n, m, w)" by (rule prod_cases3)
      have c: "n_client n \<noteq> None" using a(3,4) o unfolding keeps_client_def by (metis fst_conv)
      obtain r1 n' m' w' where t: "retry_tick N (psel i) n m w = (r1, n', m', w')" by (rule prod_cases4)
      from retry_tick_go_on [OF c t] a(2) have "r1 = Returned True" "n_client n' \<noteq> None" by simp_all
      with eq a(1) o t have "f N sel psel others (i + 1) (n', m', w') = Some r" by simp
      from IH [OF this] a(1-3) \<open>n_client n' \<noteq> None\<close> show False by simp
    qed
  qed
  with assms(1,2) assms(3,4) show False by simp
qed

end
