(* ===== verification/Loop_Properties.thy ===== *)
theory Loop_Properties
  imports Background_Loops Node_Properties
begin

text \<open>
  When the background loops of a node with a parent end, with witnesses on the client and the node
  of the other properties.
\<close>

text \<open>
  C15. The reconnect loop returns no later than at the first wake-up that finds its context done or its
  client closed, and does not use the network at that wake-up any more; as long as the client is
  open and the context lasts it does not return.
\<close>

theorem reconnect_loop_ends:
  "(i \<le> j \<and> (sel j = ContextDone \<or> (\<forall>cw. closed (fst (others j cw)))) \<longrightarrow>
      (\<exists>k c w cw'. reconnectLoop N sel others i cw = Some (k, c, w) \<and> i \<le> k \<and> k \<le> j \<and>
         others k cw' = (c, w))) \<and>
   ((\<forall>j. sel j = Tick) \<and> (\<forall>j cw. \<not> closed (fst cw) \<longrightarrow> \<not> closed (fst (others j cw))) \<and>
      \<not> closed (fst cw) \<longrightarrow> reconnectLoop N sel others i cw = None)"
proof (intro conjI impI)
  assume a: "i \<le> j \<and> (sel j = ContextDone \<or> (\<forall>cw. closed (fst (others j cw))))"
  then have "ends_at sel others j" "i \<le> j" by (simp_all add: ends_at_def)
  from reconnectLoop_returns [OF this] obtain k c w
    where r: "reconnectLoop N sel others i cw = Some (k, c, w)" "i \<le> k" "k \<le> j" by blast
  with reconnectLoop_last [OF r(1)] show "\<exists>k c w cw'. reconnectLoop N sel others i cw = Some (k, c, w) \<and>
      i \<le> k \<and> k \<le> j \<and> others k cw' = (c, w)" by auto
qed (use reconnectLoop_forever [of sel others cw N i] in blast)

text \<open>The client is closed before the third wake-up.\<close>

definition close_later :: "nat \<Rightarrow> client \<times> 'w \<Rightarrow> client \<times> 'w" where
  "close_later j cw = (case cw of (c, w) \<Rightarrow> (c\<lparr>closed := 2 \<le> j\<rparr>, w))"

theorem reconnect_loop_ends_witness:
  "\<exists>k c w. reconnectLoop demo_net (\<lambda>_. Tick) close_later 0 (up_client, [2, 1]) = Some (k, c, w) \<and> k \<le> 2"
proof -
  have "\<forall>cw. closed (fst (close_later 2 (cw :: client \<times> conn list)))"
    by (simp add: close_later_def split_beta)
  with reconnect_loop_ends [of 0 2 "\<lambda>_. Tick" close_later demo_net "(up_client, [2, 1])"]
  show ?thesis by blast
qed

text \<open>What stops the node at every wake-up.\<close>

definition stop_at_wake ::
  "'w grpc \<Rightarrow> nat \<Rightarrow> 'w node \<times> metrics \<times> 'w \<Rightarrow> 'w node \<times> metrics \<times> 'w"
where
  "stop_at_wake N i nmw = (case nmw of (n, m, w) \<Rightarrow> (case nodeStop N n w of (_, n', w') \<Rightarrow> (n', m, w')))"

lemma stop_keeps_client: "keeps_client (stop_at_wake N)"
  by (auto simp: keeps_client_def stop_at_wake_def nodeStop_def Let_def split: prod.splits option.splits)

text \<open>
  C16. The retry loop never panics and returns no later than at the first wake-up that finds its context
  done. Nothing else ends it: while the context lasts it runs on, also when the node is stopped
  at every single wake-up, so \<open>Stop\<close> alone leaves the loop running.
\<close>

theorem retry_loop_ends:
  assumes "n_client (fst nmw) \<noteq> None"
  shows "(keeps_client others \<and> i \<le> j \<and> sel j = ContextDone \<longrightarrow>
      (\<exists>k nmw'. retryLoop N sel psel others i nmw = Some (Returned (), k, nmw') \<and> i \<le> k \<and> k \<le> j)) \<and>
    (keeps_client others \<and> (\<forall>j. sel j = Tick) \<and> (\<forall>j k. psel j k = Paced) \<longrightarrow>
      retryLoop N sel psel others i nmw = None) \<and>
    retryLoop N (\<lambda>_. Tick) (\<lambda>_ _. Paced) (stop_at_wake N) i nmw = None"
  using retryLoop_returns [of sel j others i nmw N psel] retryLoop_forever [of sel psel others nmw N i]
    retryLoop_forever [OF refl refl stop_keeps_client assms] assms
  by simp

theorem retry_loop_ends_witness:
  "retryLoop (logged demo_net) (\<lambda>_. Tick) (\<lambda>_ _. Paced) (stop_at_wake (logged demo_net)) 0
     (demo_node [demo_env], initial_metrics, [2, 1], []) = None"
  using retry_loop_ends [of "(demo_node [demo_env], initial_metrics, [2, 1], [])"
      "stop_at_wake (logged demo_net)" 0 0 "\<lambda>_. Tick" "logged demo_net" "\<lambda>_ _. Paced"]
  by simp

end
