(* ===== verification/Chain_System.thy ===== *)
theory Chain_System
  imports Node_Properties
begin

text \<open>
  The way up under concurrency: a chain of nodes, each with its parent's connection, its retry loop
  and its senders as in \<open>Node_Retry\<close>, the parent of the last being the root. It composes the systems
  of the nodes by what is between them: an envelope that node \<open>i\<close> has sent is in flight until the
  handler of its parent receives it (\<open>handleUpstreamFromChild\<close> of the next node, or of the root,
  which only runs its handlers), or until the stream that carried it breaks. Streams may overlap,
  so envelopes in flight overtake each other at will.

  Envelopes enter at any node: by \<open>SendUp\<close>, or from a child outside the chain. \<open>entered\<close>,
  \<open>arrived\<close> and \<open>cut\<close> (what broken streams lost) are history.
\<close>

record 'w chain =
  site :: "nat \<Rightarrow> 'w retry_sys"
  flight :: "nat \<Rightarrow> envelope multiset"
  cut :: "nat \<Rightarrow> envelope multiset"
  arrived :: "envelope multiset"
  entered :: "envelope multiset"

text \<open>What a step of a node has sent.\<close>

definition new_sent :: "'w retry_sys \<Rightarrow> 'w retry_sys \<Rightarrow> envelope multiset" where
  "new_sent y z = mset (drop (length (delivered (rlog y))) (delivered (rlog z)))"

definition put_site :: "nat \<Rightarrow> 'w retry_sys \<Rightarrow> 'w chain \<Rightarrow> 'w chain" where
  "put_site i z y =
     y\<lparr>site := (site y)(i := z), flight := (flight y)(i := flight y i + new_sent (site y i) z)\<rparr>"

definition land :: "nat \<Rightarrow> envelope \<Rightarrow> 'w chain \<Rightarrow> 'w chain" where
  "land i env y = y\<lparr>flight := (flight y)(i := flight y i - {#env#})\<rparr>"

inductive chain_step :: "(nat \<Rightarrow> 'w grpc) \<Rightarrow> nat \<Rightarrow> 'w chain \<Rightarrow> 'w chain \<Rightarrow> bool" for Ns n where
  enter:
    "i < n \<Longrightarrow> retry_step (Ns i) (site y i) z \<Longrightarrow> accepted z = add_mset env (accepted (site y i)) \<Longrightarrow>
     chain_step Ns n y ((put_site i z y)\<lparr>entered := add_mset env (entered y)\<rparr>)"
| work:
    "i < n \<Longrightarrow> retry_step (Ns i) (site y i) z \<Longrightarrow> accepted z = accepted (site y i) \<Longrightarrow>
     chain_step Ns n y (put_site i z y)"
| hop:
    "i + 1 < n \<Longrightarrow> env \<in># flight y i \<Longrightarrow> retry_step (Ns (i + 1)) (site y (i + 1)) z \<Longrightarrow>
     accepted z = add_mset env (accepted (site y (i + 1))) \<Longrightarrow>
     chain_step Ns n y (put_site (i + 1) z (land i env y))"
| arrive:
    "i + 1 = n \<Longrightarrow> env \<in># flight y i \<Longrightarrow>
     chain_step Ns n y ((land i env y)\<lparr>arrived := add_mset env (arrived y)\<rparr>)"
| broken:
    "i < n \<Longrightarrow> env \<in># flight y i \<Longrightarrow>
     chain_step Ns n y ((land i env y)\<lparr>cut := (cut y)(i := add_mset env (cut y i))\<rparr>)"

definition init_chain :: "(nat \<Rightarrow> 'w retry_sys) \<Rightarrow> 'w chain" where
  "init_chain ys =
     \<lparr>site = ys, flight = (\<lambda>_. {#}), cut = (\<lambda>_. {#}), arrived = {#}, entered = {#}\<rparr>"

inductive chain_reach :: "(nat \<Rightarrow> 'w grpc) \<Rightarrow> nat \<Rightarrow> 'w chain \<Rightarrow> bool" for Ns n where
  chain_start:
    "(\<And>i. i < n \<Longrightarrow> \<exists>nd m w. ys i = init_retry nd m w \<and> retry_reach (Ns i) (ys i)) \<Longrightarrow>
     chain_reach Ns n (init_chain ys)"
| chain_more: "chain_reach Ns n y \<Longrightarrow> chain_step Ns n y y' \<Longrightarrow> chain_reach Ns n y'"

subsection \<open>Each node of a chain runs as it does alone\<close>

lemma put_site_sel [simp]:
  "site (put_site i z y) = (site y)(i := z)"
  "flight (put_site i z y) = (flight y)(i := flight y i + new_sent (site y i) z)"
  "cut (put_site i z y) = cut y" "arrived (put_site i z y) = arrived y" "entered (put_site i z y) = entered y"
  by (simp_all add: put_site_def)

lemma land_sel [simp]:
  "site (land i env y) = site y" "cut (land i env y) = cut y" "arrived (land i env y) = arrived y"
  "entered (land i env y) = entered y" "flight (land i env y) = (flight y)(i := flight y i - {#env#})"
  by (simp_all add: land_def)

lemma chain_step_site:
  assumes "chain_step Ns n y y'"
  shows "site y' i = site y i \<or> retry_step (Ns i) (site y i) (site y' i)"
  using assms by cases auto

lemma chain_sites_reach: "chain_reach Ns n y \<Longrightarrow> i < n \<Longrightarrow> retry_reach (Ns i) (site y i)"
proof (induction arbitrary: i rule: chain_reach.induct)
  case (chain_start ys)
  then show ?case by (auto simp: init_chain_def)
next
  case (chain_more y y')
  then show ?case using chain_step_site retry_reach.reach_more by metis
qed

subsection \<open>Conservation along the chain\<close>

text \<open>What a node holds: queued, refused and not yet queued, in the hand of the loop, dropped by it.\<close>

definition held :: "'w retry_sys \<Rightarrow> envelope multiset" where
  "held y = mset (items (pendingq (rn y))) + refused y + in_hand (phase_of y) + lost y"

definition between :: "'w chain \<Rightarrow> nat \<Rightarrow> envelope multiset" where
  "between y i = held (site y i) + flight y i + cut y i"

definition chain_conserved :: "nat \<Rightarrow> 'w chain \<Rightarrow> bool" where
  "chain_conserved n y \<longleftrightarrow> entered y = arrived y + (\<Sum>i<n. between y i)"

lemma retry_step_delivered:
  assumes "retry_step N y z" and "retry_inv y"
  shows "\<exists>new. delivered (rlog z) = delivered (rlog y) @ new"
proof -
  from assms(2) have "log_blind (rn y)" by (simp add: retry_inv_def)
  note eff = node_send_effect(8,9) [OF _ this]
  show ?thesis using assms(1) by (cases rule: retry_step.cases) (auto dest: eff)
qed

lemma retry_step_flow:
  assumes "retry_step N y z" and "retry_inv y"
  shows "held z + new_sent y z + accepted y = held y + accepted z"
proof -
  from retry_step_delivered [OF assms] obtain new
    where new: "delivered (rlog z) = delivered (rlog y) @ new" by blast
  have "conserved y" "conserved z" using assms retry_step_inv [OF assms] by (simp_all add: retry_inv_def)
  with new show ?thesis by (simp add: conserved_def held_def new_sent_def)
qed

lemma exchange:
  fixes a :: "envelope multiset"
  assumes "a + c = b + d" and "d + x = c + y"
  shows "a + x = b + y"
proof -
  have "a + x + c = b + (d + x)" using assms(1) by (simp only: ac_simps) (simp add: add.assoc [symmetric])
  then show ?thesis using assms(2) by (simp add: ac_simps)
qed

lemma sum_upd:
  fixes f :: "nat \<Rightarrow> envelope multiset"
  assumes "i < n" and "\<And>j. j \<noteq> i \<Longrightarrow> g j = f j"
  shows "sum g {..<n} + f i = sum f {..<n} + g i"
proof -
  have "{..<n} = insert i ({..<n} - {i})" using assms(1) by auto
  then have "sum h {..<n} = h i + sum h ({..<n} - {i})" for h :: "nat \<Rightarrow> envelope multiset"
    by (metis finite_lessThan lessThan_iff assms(1) sum.remove)
  moreover have "sum g ({..<n} - {i}) = sum f ({..<n} - {i})" by (rule sum.cong) (use assms(2) in auto)
  ultimately show ?thesis by simp
qed

lemma between_put:
  assumes "i < n" and "retry_step (Ns i) (site y i) z" and "retry_inv (site y i)"
  shows "(\<Sum>j<n. between (put_site i z y) j) + accepted (site y i) = (\<Sum>j<n. between y j) + accepted z"
proof -
  have "between (put_site i z y) j = between y j" if "j \<noteq> i" for j using that by (simp add: between_def)
  from sum_upd [OF assms(1), of "between (put_site i z y)" "between y", OF this]
  have s: "(\<Sum>j<n. between (put_site i z y) j) + between y i =
      (\<Sum>j<n. between y j) + between (put_site i z y) i" .
  have "between (put_site i z y) i + accepted (site y i) = between y i + accepted z"
    using retry_step_flow [OF assms(2,3)] by (simp add: between_def ac_simps)
  from exchange [OF s this] show ?thesis .
qed

lemma between_land:
  assumes "i < n" and "env \<in># flight y i"
  shows "add_mset env (\<Sum>j<n. between (land i env y) j) = (\<Sum>j<n. between y j)"
proof -
  have "between (land i env y) j = between y j" if "j \<noteq> i" for j using that by (simp add: between_def)
  from sum_upd [OF assms(1), of "between (land i env y)" "between y", OF this]
  have s: "(\<Sum>j<n. between (land i env y) j) + between y i = (\<Sum>j<n. between y j) + between (land i env y) i" .
  have "between (land i env y) i + {#env#} = between y i + {#}"
    using assms(2) by (simp add: between_def)
  from exchange [OF s this] show ?thesis by simp
qed

lemma chain_step_conserved:
  assumes "chain_step Ns n y y'" and "chain_conserved n y" and "\<And>i. i < n \<Longrightarrow> retry_inv (site y i)"
  shows "chain_conserved n y'"
  using assms(1)
proof cases
  case (enter i z env)
  from between_put [of i n Ns y z, OF enter(2,3) assms(3) [OF enter(2)]] enter(4) assms(2) show ?thesis
    unfolding enter(1) by (simp add: chain_conserved_def between_def)
next
  case (work i z)
  from between_put [of i n Ns y z, OF work(2,3) assms(3) [OF work(2)]] work(4) assms(2) show ?thesis
    unfolding work(1) by (simp add: chain_conserved_def)
next
  case (hop i env z)
  let ?y = "land i env y"
  have "add_mset env (\<Sum>j<n. between ?y j) = (\<Sum>j<n. between y j)"
    using hop(2,3) by (intro between_land) simp_all
  moreover have "(\<Sum>j<n. between (put_site (i + 1) z ?y) j) = add_mset env (\<Sum>j<n. between ?y j)"
    using between_put [of "i + 1" n Ns ?y z] hop(2,4,5) assms(3) [of "i + 1"] by simp
  ultimately show ?thesis using assms(2) unfolding hop(1) by (simp add: chain_conserved_def)
next
  case (arrive i env)
  have "add_mset env (\<Sum>j<n. between (land i env y) j) = (\<Sum>j<n. between y j)"
    using arrive(2,3) by (intro between_land) simp_all
  then show ?thesis using assms(2) unfolding arrive(1) by (simp add: chain_conserved_def between_def)
next
  case (broken i env)
  let ?y = "(land i env y)\<lparr>cut := (cut y)(i := add_mset env (cut y i))\<rparr>"
  have "between ?y j = between y j" for j
    using broken(3) by (cases "j = i") (simp_all add: between_def)
  then show ?thesis using assms(2) unfolding broken(1) by (simp add: chain_conserved_def)
qed

lemma chain_reach_conserved: "chain_reach Ns n y \<Longrightarrow> chain_conserved n y"
proof (induction rule: chain_reach.induct)
  case (chain_start ys)
  have "held (ys i) = {#}" if "i < n" for i
  proof -
    from chain_start [OF that] obtain nd m w where y: "ys i = init_retry nd m w" "retry_reach (Ns i) (ys i)" by blast
    then have "conserved (ys i)" using retry_reach_inv by (auto simp: retry_inv_def)
    then show ?thesis by (simp add: conserved_def held_def y(1) init_retry_def)
  qed
  then show ?case by (simp add: chain_conserved_def init_chain_def between_def)
next
  case (chain_more y y')
  then show ?case using chain_step_conserved chain_sites_reach retry_reach_inv by blast
qed

subsection \<open>The property\<close>

text \<open>
  C3. Along a chain of nodes of any length, with their senders, retry loops, reconnects and breaking
  streams interleaved at will, no envelope is duplicated and each is accounted for: what entered
  at any node is what has arrived at the root, what some node has queued or holds, what is in
  flight between two nodes, what was in flight on a stream that broke, and what a retry pass dropped
  whose context ended. When nothing is queued, held or in flight any more, no stream broke with
  envelopes in flight and every retry loop still runs, the root has exactly what entered.
\<close>

theorem chain_conserves:
  assumes "chain_reach Ns n y"
  shows "entered y = arrived y + (\<Sum>i<n. mset (items (pendingq (rn (site y i)))) + refused (site y i) +
      in_hand (phase_of (site y i)) + lost (site y i) + flight y i + cut y i) \<and>
    ((\<forall>i<n. items (pendingq (rn (site y i))) = [] \<and> refused (site y i) = {#} \<and> flight y i = {#} \<and>
        cut y i = {#} \<and> phase_of (site y i) = Idle) \<longrightarrow> arrived y = entered y)"
proof -
  have c: "entered y = arrived y + (\<Sum>i<n. between y i)"
    using chain_reach_conserved [OF assms] by (simp add: chain_conserved_def)
  have "between y i = {#}" if "i < n" "items (pendingq (rn (site y i))) = [] \<and> refused (site y i) = {#} \<and>
      flight y i = {#} \<and> cut y i = {#} \<and> phase_of (site y i) = Idle" for i
    using that retry_reach_inv [OF chain_sites_reach [OF assms that(1)]]
    by (auto simp: between_def held_def retry_inv_def)
  then show ?thesis using c by (auto simp: between_def held_def)
qed

text \<open>An envelope sent up by a node whose parent is the root, in flight and arrived.\<close>

theorem chain_conserves_witness:
  "\<exists>y. chain_reach (\<lambda>_. demo_net) 1 y \<and> arrived y = {#demo_env#} \<and> entered y = {#demo_env#} \<and>
     items (pendingq (rn (site y 0))) = []"
proof -
  obtain r z where s: "node_send demo_net demo_env retry_demo = (r, z)"
    by (cases "node_send demo_net demo_env retry_demo")
  have "r = Returned None"
    using s by (simp add: node_send_def retry_demo_def init_retry_def SendUpstream_def sendUpstream_def
        send_on_def up_client_def node_net_def demo_node_def logged_def demo_net_def)
  with s have s: "node_send demo_net demo_env retry_demo = (Returned None, z)" by simp
  let ?z = "z\<lparr>accepted := add_mset demo_env (accepted z)\<rparr>"
  have blind: "log_blind (rn retry_demo)" using retry_reach_inv [OF retry_demo_reach] by (simp add: retry_inv_def)
  note eff = node_send_effect [OF s blind]
  let ?y0 = "init_chain (\<lambda>_. retry_demo)"
  have y0: "chain_reach (\<lambda>_. demo_net) 1 ?y0"
    by (rule chain_reach.chain_start) (use retry_demo_reach in \<open>auto simp: retry_demo_def\<close>)
  define y1 where "y1 = (put_site 0 ?z ?y0)\<lparr>entered := add_mset demo_env (entered ?y0)\<rparr>"
  have y1: "chain_reach (\<lambda>_. demo_net) 1 y1"
    unfolding y1_def using retry_step.forward_sent [OF s] eff(5)
    by (intro chain_reach.chain_more [OF y0] chain_step.enter) (simp_all add: init_chain_def)
  have f: "flight y1 0 = {#demo_env#}"
    using eff(8) by (simp add: y1_def init_chain_def new_sent_def retry_demo_def init_retry_def)
  define y where "y = (land 0 demo_env y1)\<lparr>arrived := add_mset demo_env (arrived y1)\<rparr>"
  have y: "chain_reach (\<lambda>_. demo_net) 1 y"
    unfolding y_def by (rule chain_reach.chain_more [OF y1 chain_step.arrive]) (simp_all add: f)
  have "arrived y = {#demo_env#}" "entered y = {#demo_env#}"
    by (simp_all add: y_def y1_def init_chain_def)
  with y chain_conserves [OF y] show ?thesis by (intro exI [of _ y]) simp
qed

end
