(* ===== verification/Down_System.thy ===== *)
theory Down_System
  imports Node_Tree Node_Properties "HOL-Library.Sublist"
begin

text \<open>
  The way down under concurrency: any number of nodes, each with its server system as in
  \<open>Server_System\<close>. What the handler of a channel has sent on its stream is received, one envelope
  at a time and in order, by the receive loop of the node that opened the stream, which runs
  \<open>handleDownstreamFromParent\<close> (\<open>site_hook\<close>); a stream that breaks is one whose rest is never
  received. Everything else interleaves: registrations, cleanups, other streams, sends at any node.

  \<open>peer p ch\<close> is the node whose call got the channel \<open>ch\<close> of node \<open>p\<close>; channels are never
  reused, so it is a parameter. \<open>log\<close> is history: what a node has offered to its children, each
  envelope with the stream it came on, or that the node itself sent it, to all or to one.
\<close>

datatype origin = Own | Aimed | From nat chan

record 'w dsite =
  dn :: "'w node"
  serves :: bool
  ds :: srv_sys
  dw :: 'w
  log :: "(origin \<times> envelope) list"
  taken :: "chan \<Rightarrow> nat"

definition node_at :: "'w dsite \<Rightarrow> 'w node" where
  "node_at x = (dn x)\<lparr>n_server := if serves x then Some (srv (ds x)) else None\<rparr>"

text \<open>The site after an operation of its node: the server, the metrics, and what was put.\<close>

definition put_back :: "origin \<Rightarrow> envelope \<Rightarrow> 'w node \<Rightarrow> metrics \<Rightarrow> 'w \<Rightarrow> 'w dsite \<Rightarrow> 'w dsite" where
  "put_back o1 env n m w x =
     (let s = srv (ds x); s' = (case n_server n of None \<Rightarrow> s | Some s' \<Rightarrow> s') in
      x\<lparr>dn := n, ds := (ds x)\<lparr>srv := s', mx := m, put := (\<lambda>c. put (ds x) c @ appended s s' c)\<rparr>,
        dw := w, log := log x @ [(o1, env)]\<rparr>)"

definition visits_ok :: "string list \<Rightarrow> 'w dsite \<Rightarrow> bool" where
  "visits_ok ks x \<longleftrightarrow> (serves x \<longrightarrow> range_order ks (children (srv (ds x))))"

inductive down_step ::
  "(string \<Rightarrow> bool) \<Rightarrow> (nat \<Rightarrow> chan \<Rightarrow> nat) \<Rightarrow> (nat \<Rightarrow> 'w dsite) \<Rightarrow> (nat \<Rightarrow> 'w dsite) \<Rightarrow> bool"
  for P peer
where
  serve:
    "serves (s p) \<Longrightarrow> server_step P (ds (s p)) z \<Longrightarrow> put z = put (ds (s p)) \<Longrightarrow>
     down_step P peer s (s(p := (s p)\<lparr>ds := z\<rparr>))"
| send_all:
    "visits_ok ks (s p) \<Longrightarrow>
     SendDown ks kind payload t1 t2 (node_at (s p)) (mx (ds (s p))) = (res, n', m') \<Longrightarrow>
     env = newEnvelope (cfg_id (cfg (dn (s p)))) kind payload t1 t2 \<Longrightarrow>
     down_step P peer s (s(p := put_back Own env n' m' (dw (s p)) (s p)))"
| send_one:
    "nodeSendToChild i kind payload t1 t2 (node_at (s p)) (mx (ds (s p))) = (err, n', m') \<Longrightarrow>
     env = newEnvelope (cfg_id (cfg (dn (s p)))) kind payload t1 t2 \<Longrightarrow>
     down_step P peer s (s(p := put_back Aimed env n' m' (dw (s p)) (s p)))"
| receive:
    "taken (s p) ch < length (wire (ds (s p)) ch) \<Longrightarrow> env = wire (ds (s p)) ch ! taken (s p) ch \<Longrightarrow>
     q = peer p ch \<Longrightarrow> q \<noteq> p \<Longrightarrow> visits_ok (v env) (s q) \<Longrightarrow>
     recvLoop_received (Some (site_hook v)) env (mx (ds (s q)), node_at (s q), dw (s q)) = (m', n', w') \<Longrightarrow>
     down_step P peer s
       (s(p := (s p)\<lparr>taken := (taken (s p))(ch := taken (s p) ch + 1)\<rparr>,
          q := put_back (From p ch) env n' m' w' (s q)))"

text \<open>A run may start with children connected, before anything was sent down.\<close>

inductive down_reach ::
  "(string \<Rightarrow> bool) \<Rightarrow> (nat \<Rightarrow> chan \<Rightarrow> nat) \<Rightarrow> (nat \<Rightarrow> 'w dsite) \<Rightarrow> bool"
  for P peer
where
  down_start:
    "(\<And>p. server_reach P (ds (s p)) \<and> put (ds (s p)) = (\<lambda>_. []) \<and> log (s p) = [] \<and> taken (s p) = (\<lambda>_. 0)) \<Longrightarrow>
     down_reach P peer s"
| down_more: "down_reach P peer s \<Longrightarrow> down_step P peer s s' \<Longrightarrow> down_reach P peer s'"

subsection \<open>One operation of a node\<close>

text \<open>Its server puts the envelope into each channel at most once, at the end.\<close>

definition puts_once :: "envelope \<Rightarrow> server \<Rightarrow> server \<Rightarrow> bool" where
  "puts_once env s s' \<longleftrightarrow> sends_only s s' \<and> (\<forall>c. appended s s' c = [] \<or> appended s s' c = [env])"

lemma puts_once_refl [simp]: "puts_once env s s"
  by (simp add: puts_once_def sends_only_def appended_def)

lemma puts_once_Broadcast:
  assumes "server_ok s" and "range_order ks (children s)"
    and "BroadcastDownstream ks env s m = (re, s', m')"
  shows "puts_once env s s'"
proof -
  have "chan_buf c s' = chan_buf c s \<or> chan_buf c s' = chan_buf c s @ [env]" for c
    using Broadcast_buffers [OF assms] by metis
  then have "appended s s' c = [] \<or> appended s s' c = [env]" for c
    unfolding appended_def by (metis append_eq_conv_conj append_Nil2)
  with sends_only_Broadcast(1) [OF assms] show ?thesis by (simp add: puts_once_def)
qed

lemma puts_once_SendToChild:
  assumes "SendToChild k env s m = (e, s', m')"
  shows "puts_once env s s'"
  using sends_only_SendToChild(1) [OF assms] assms
  by (auto simp: puts_once_def SendToChild_eq appended_def split: option.splits if_splits)

definition node_effect :: "envelope \<Rightarrow> 'w dsite \<Rightarrow> 'w node \<Rightarrow> metrics \<Rightarrow> bool" where
  "node_effect env x n m \<longleftrightarrow> ChildConnections m = ChildConnections (mx (ds x)) \<and>
     (\<forall>s'. n_server n = Some s' \<longrightarrow> puts_once env (srv (ds x)) s' \<and> server_ok s')"

lemma broadcast_effect:
  assumes "sys_inv (ds x)" and "range_order ks (children (srv (ds x)))"
    and "ChildConnections m = ChildConnections (mx (ds x))"
    and "BroadcastDownstream ks env (srv (ds x)) m = (re, s', m')"
  shows "node_effect env x (n\<lparr>n_server := Some s'\<rparr>) m'"
proof -
  have ok: "server_ok (srv (ds x))" using assms(1) by (simp add: sys_inv_def)
  show ?thesis
    using puts_once_Broadcast [OF ok assms(2,4)] server_ok_Broadcast [OF ok assms(2,4)]
      sends_only_Broadcast(2) [OF ok assms(2,4)] assms(3)
    by (simp add: node_effect_def)
qed

lemma SendDown_effect:
  assumes "sys_inv (ds x)" and "visits_ok ks x"
    and "SendDown ks kind payload t1 t2 (node_at x) (mx (ds x)) = (res, n', m')"
  shows "node_effect (newEnvelope (cfg_id (cfg (dn x))) kind payload t1 t2) x n' m'"
proof (cases "serves x")
  case True
  let ?env = "newEnvelope (cfg_id (cfg (dn x))) kind payload t1 t2"
  obtain re s' m1 where b: "BroadcastDownstream ks ?env (srv (ds x)) (mx (ds x)) = (re, s', m1)"
    by (rule prod_cases3)
  have "n' = (node_at x)\<lparr>n_server := Some s'\<rparr>" "m' = m1"
    using assms(3) True b by (auto simp: SendDown_def node_at_def)
  with broadcast_effect [OF assms(1) _ refl b, of "node_at x"] True assms(2) show ?thesis
    by (simp add: visits_ok_def)
next
  case False
  with assms(3) show ?thesis by (auto simp: SendDown_def node_at_def node_effect_def)
qed

lemma nodeSendToChild_effect:
  assumes "sys_inv (ds x)"
    and "nodeSendToChild i kind payload t1 t2 (node_at x) (mx (ds x)) = (err, n', m')"
  shows "node_effect (newEnvelope (cfg_id (cfg (dn x))) kind payload t1 t2) x n' m'"
proof (cases "serves x")
  case True
  let ?env = "newEnvelope (cfg_id (cfg (dn x))) kind payload t1 t2"
  obtain e s' m1 where s: "SendToChild i ?env (srv (ds x)) (mx (ds x)) = (e, s', m1)" by (rule prod_cases3)
  have ok: "server_ok (srv (ds x))" using assms(1) by (simp add: sys_inv_def)
  have "n_server n' = Some s'" "m' = m1"
    using assms(2) True s by (auto simp: nodeSendToChild_def node_at_def)
  with puts_once_SendToChild [OF s] server_ok_SendToChild [OF ok s] sends_only_SendToChild(2) [OF s]
  show ?thesis by (simp add: node_effect_def)
next
  case False
  with assms(2) show ?thesis by (auto simp: nodeSendToChild_def node_at_def node_effect_def)
qed

lemma receive_effect:
  assumes "sys_inv (ds x)" and "visits_ok (v env) x"
    and "recvLoop_received (Some (site_hook v)) env (mx (ds x), node_at x, w) = (m', n', w')"
  shows "node_effect env x n' m'"
proof -
  have run: "handleDownstreamFromParent (v env) env (node_at x) (inc_received ''downstream'' (mx (ds x))) w = (n', m', w')"
    using assms(3) by (simp add: recvLoop_received_def site_hook_def split: prod.splits)
  then show ?thesis
  proof (cases rule: handleDown_cases)
    case leaf
    then show ?thesis by (simp add: node_effect_def)
  next
    case (broadcast s re s')
    then have "serves x" "s = srv (ds x)" by (auto simp: node_at_def split: if_splits)
    with assms(2) have ord: "range_order (v env) (children (srv (ds x)))" by (simp add: visits_ok_def)
    have "ChildConnections (inc_received ''downstream'' (mx (ds x))) = ChildConnections (mx (ds x))"
      by (simp add: inc_received_def)
    from broadcast_effect [OF assms(1) ord this] broadcast(2,3) \<open>s = srv (ds x)\<close> show ?thesis by blast
  qed
qed

lemma put_back_effect:
  assumes inv: "sys_inv (ds x)" and eff: "node_effect env x n m"
  shows "sys_inv (ds (put_back o1 env n m w x))"
    and "wire (ds (put_back o1 env n m w x)) = wire (ds x)"
    and "put (ds (put_back o1 env n m w x)) c = put (ds x) c \<or>
      put (ds (put_back o1 env n m w x)) c = put (ds x) c @ [env]"
proof -
  define s' where "s' = (case n_server n of None \<Rightarrow> srv (ds x) | Some s' \<Rightarrow> s')"
  have ok: "server_ok (srv (ds x))" using inv by (simp add: sys_inv_def)
  have s': "puts_once env (srv (ds x)) s'" "server_ok s'"
    using eff ok by (auto simp: node_effect_def s'_def split: option.split)
  have ds: "ds (put_back o1 env n m w x) =
      (ds x)\<lparr>srv := s', mx := m, put := (\<lambda>c. put (ds x) c @ appended (srv (ds x)) s' c)\<rparr>"
    by (simp add: put_back_def Let_def s'_def)
  have only: "sends_only (srv (ds x)) s'" using s'(1) by (simp add: puts_once_def)
  show "wire (ds (put_back o1 env n m w x)) = wire (ds x)" by (simp add: ds)
  show "put (ds (put_back o1 env n m w x)) c = put (ds x) c \<or>
      put (ds (put_back o1 env n m w x)) c = put (ds x) c @ [env]"
    using s'(1) by (auto simp: ds puts_once_def)
  have "sys_fifo (ds (put_back o1 env n m w x))"
    unfolding ds using inv server_okD(1) [OF ok]
    by (intro sys_fifo_sends [OF _ only]) (auto simp: sys_inv_def)
  moreover have "sys_live (ds (put_back o1 env n m w x))"
    using inv only by (simp add: ds sys_inv_def sys_live_def sends_only_def)
  moreover have "sys_gauges (ds (put_back o1 env n m w x))"
    using inv eff by (simp add: ds sys_inv_def sys_gauges_def node_effect_def)
  ultimately show "sys_inv (ds (put_back o1 env n m w x))" using s'(2) by (simp add: sys_inv_def ds)
qed

lemma put_back_sel [simp]:
  "taken (put_back o1 env n m w x) = taken x" "log (put_back o1 env n m w x) = log x @ [(o1, env)]"
  "serves (put_back o1 env n m w x) = serves x"
  by (simp_all add: put_back_def Let_def)

subsection \<open>The invariant\<close>

definition came :: "nat \<Rightarrow> chan \<Rightarrow> 'w dsite \<Rightarrow> envelope list" where
  "came p ch x = map snd (filter (\<lambda>(o1, env). o1 = From p ch) (log x))"

definition offered :: "'w dsite \<Rightarrow> envelope list" where
  "offered x = map snd (log x)"

definition site_inv :: "'w dsite \<Rightarrow> bool" where
  "site_inv x \<longleftrightarrow> sys_inv (ds x) \<and>
     (\<forall>ch. subseq (put (ds x) ch) (offered x) \<and> taken x ch \<le> length (wire (ds x) ch))"

definition streams_inv :: "(nat \<Rightarrow> chan \<Rightarrow> nat) \<Rightarrow> (nat \<Rightarrow> 'w dsite) \<Rightarrow> bool" where
  "streams_inv peer s \<longleftrightarrow>
     (\<forall>p q ch. came p ch (s q) =
        (if peer p ch = q \<and> q \<noteq> p then take (taken (s p) ch) (wire (ds (s p)) ch) else []))"

lemma came_put_back:
  "came p ch (put_back o1 env n m w x) = came p ch x @ (if o1 = From p ch then [env] else [])"
  by (simp add: came_def)

lemma came_frame [simp]: "came p ch (x\<lparr>ds := z\<rparr>) = came p ch x" "came p ch (x\<lparr>taken := t\<rparr>) = came p ch x"
  by (simp_all add: came_def)

lemma server_step_sys_inv: "server_step P y y' \<Longrightarrow> sys_inv y \<Longrightarrow> sys_inv y'"
  unfolding sys_inv_def by (blast intro: server_step_ok server_step_fifo server_step_live server_step_gauges)

lemma server_step_wire: "server_step P y y' \<Longrightarrow> \<exists>more. wire y' c = wire y c @ more"
  by (induction rule: server_step.induct) auto

lemma site_inv_serve:
  assumes "site_inv x" and "server_step P (ds x) z" and "put z = put (ds x)"
  shows "site_inv (x\<lparr>ds := z\<rparr>)"
    and "take (taken x ch) (wire z ch) = take (taken x ch) (wire (ds x) ch)"
proof -
  have "sys_inv z" using assms(1,2) server_step_sys_inv by (auto simp: site_inv_def)
  moreover have "taken x c \<le> length (wire z c) \<and> take (taken x c) (wire z c) = take (taken x c) (wire (ds x) c)" for c
  proof -
    obtain more where "wire z c = wire (ds x) c @ more" using server_step_wire [OF assms(2)] by blast
    moreover have "taken x c \<le> length (wire (ds x) c)" using assms(1) by (simp add: site_inv_def)
    ultimately show ?thesis by simp
  qed
  ultimately show "site_inv (x\<lparr>ds := z\<rparr>)" "take (taken x ch) (wire z ch) = take (taken x ch) (wire (ds x) ch)"
    using assms(1,3) by (simp_all add: site_inv_def offered_def)
qed

lemma site_inv_put_back:
  assumes "site_inv x" and "node_effect env x n m"
  shows "site_inv (put_back o1 env n m w x)"
proof -
  have inv: "sys_inv (ds x)" using assms(1) by (simp add: site_inv_def)
  note eff = put_back_effect [OF inv assms(2), where ?o1.0 = o1 and w = w]
  have "subseq (put (ds (put_back o1 env n m w x)) ch) (offered x @ [env])" for ch
  proof -
    have old: "subseq (put (ds x) ch) (offered x)" using assms(1) by (simp add: site_inv_def)
    from eff(3) [of ch] show ?thesis
    proof
      assume "put (ds (put_back o1 env n m w x)) ch = put (ds x) ch"
      with old show ?thesis by (simp add: list_emb_prefix)
    next
      assume "put (ds (put_back o1 env n m w x)) ch = put (ds x) ch @ [env]"
      with old show ?thesis by (simp add: list_emb_append_mono)
    qed
  qed
  then show ?thesis using eff(1,2) assms(1) by (simp add: site_inv_def offered_def)
qed

lemma streams_inv_upd:
  assumes "streams_inv peer s" and "\<And>p' ch. came p' ch y = came p' ch (s p)"
    and "\<And>ch. take (taken y ch) (wire (ds y) ch) = take (taken (s p) ch) (wire (ds (s p)) ch)"
  shows "streams_inv peer (s(p := y))"
  using assms by (simp add: streams_inv_def)

definition down_inv :: "(nat \<Rightarrow> chan \<Rightarrow> nat) \<Rightarrow> (nat \<Rightarrow> 'w dsite) \<Rightarrow> bool" where
  "down_inv peer s \<longleftrightarrow> (\<forall>p. site_inv (s p)) \<and> streams_inv peer s"

lemma down_inv_send:
  assumes "down_inv peer s" and "node_effect env (s p) n m" and "o1 \<in> {Own, Aimed}"
  shows "down_inv peer (s(p := put_back o1 env n m w (s p)))"
proof -
  have si: "site_inv (s p)" "streams_inv peer s" using assms(1) by (simp_all add: down_inv_def)
  have "sys_inv (ds (s p))" using si(1) by (simp add: site_inv_def)
  note eff = put_back_effect [OF this assms(2)]
  have "streams_inv peer (s(p := put_back o1 env n m w (s p)))"
    by (rule streams_inv_upd [OF si(2)]) (use assms(3) in \<open>auto simp: came_put_back eff(2)\<close>)
  with site_inv_put_back [OF si(1) assms(2)] assms(1) show ?thesis by (simp add: down_inv_def)
qed

lemma down_step_inv:
  assumes step: "down_step P peer s s'" and inv: "down_inv peer s"
  shows "down_inv peer s'"
proof -
  have site: "site_inv (s p)" "sys_inv (ds (s p))" for p
    using inv by (simp_all add: down_inv_def site_inv_def)
  have str: "streams_inv peer s" using inv by (simp add: down_inv_def)
  show ?thesis
    using step
  proof cases
    case (serve p z)
    note sv = site_inv_serve [OF site(1) serve(3,4)]
    have "streams_inv peer s'"
      unfolding serve(1) by (rule streams_inv_upd [OF str]) (simp_all add: sv(2))
    with sv(1) site(1) show ?thesis by (simp add: down_inv_def serve(1))
  next
    case (send_all ks p kind payload t1 t2 res n' m' env)
    from SendDown_effect [OF site(2) send_all(2,3)] show ?thesis
      unfolding send_all(1,4) by (rule down_inv_send [OF inv]) simp
  next
    case (send_one i kind payload t1 t2 p err n' m' env)
    from nodeSendToChild_effect [OF site(2) send_one(2)] show ?thesis
      unfolding send_one(1,3) by (rule down_inv_send [OF inv]) simp
  next
    case (receive p ch env q v m' n' w')
    let ?t = "(s p)\<lparr>taken := (taken (s p))(ch := taken (s p) ch + 1)\<rparr>"
    let ?b = "put_back (From p ch) env n' m' w' (s q)"
    note ne = receive_effect [OF site(2) receive(6,7)]
    have "site_inv ?t" using site(1) [of p] receive(2) by (simp add: site_inv_def offered_def Suc_le_eq)
    moreover note site_inv_put_back [OF site(1) ne, of "From p ch" w']
    moreover have "streams_inv peer s'"
      unfolding streams_inv_def
    proof (intro allI)
      fix p1 q1 ch1
      have "taken (s' p1) ch1 = taken (s p1) ch1 + (if p1 = p \<and> ch1 = ch then 1 else 0)"
        "wire (ds (s' p1)) ch1 = wire (ds (s p1)) ch1"
        using receive(5) put_back_effect(2) [OF site(2) ne] by (auto simp: receive(1))
      moreover have "came p1 ch1 (s' q1) = came p1 ch1 (s q1) @ (if q1 = q \<and> p1 = p \<and> ch1 = ch then [env] else [])"
        using receive(5) by (auto simp: receive(1) came_put_back)
      moreover have "came p1 ch1 (s q1) =
          (if peer p1 ch1 = q1 \<and> q1 \<noteq> p1 then take (taken (s p1) ch1) (wire (ds (s p1)) ch1) else [])"
        using str by (simp add: streams_inv_def)
      ultimately show "came p1 ch1 (s' q1) =
          (if peer p1 ch1 = q1 \<and> q1 \<noteq> p1 then take (taken (s' p1) ch1) (wire (ds (s' p1)) ch1) else [])"
        using receive(2-5) by (auto simp: take_Suc_conv_app_nth)
    qed
    ultimately show ?thesis using site(1) by (simp add: down_inv_def receive(1))
  qed
qed

lemma down_reach_inv: "down_reach P peer s \<Longrightarrow> down_inv peer s"
proof (induction rule: down_reach.induct)
  case (down_start s)
  have "wire (ds (s p)) ch = []" for p ch
    using sys_fifoD(1) [of "ds (s p)" ch] server_reach_inv [of P "ds (s p)"] down_start [of p] by (simp add: sys_inv_def)
  then show ?case
    using down_start server_reach_inv [of P]
    by (simp add: down_inv_def site_inv_def streams_inv_def came_def)
next
  case (down_more s s')
  then show ?case using down_step_inv by blast
qed

subsection \<open>Where envelopes come from\<close>

definition issued :: "(nat \<Rightarrow> 'w dsite) \<Rightarrow> envelope set" where
  "issued s = {env. \<exists>p. (Own, env) \<in> set (log (s p)) \<or> (Aimed, env) \<in> set (log (s p))}"

lemma wire_offered:
  assumes "site_inv x"
  shows "subseq (wire (ds x) ch) (offered x)"
proof -
  have "put (ds x) ch = wire (ds x) ch @ chan_buf ch (srv (ds x))"
    using assms sys_fifoD(1) by (simp add: site_inv_def sys_inv_def)
  moreover have "subseq (put (ds x) ch) (offered x)" using assms by (simp add: site_inv_def)
  ultimately show ?thesis by (metis list_emb_append_mono list_emb_Nil append_Nil2 subseq_order.order_refl subseq_order.order_trans)
qed

lemma down_step_issued:
  assumes step: "down_step P peer s s'" and inv: "down_inv peer s"
    and iss: "\<And>q. set (offered (s q)) \<subseteq> issued s"
  shows "set (offered (s' q)) \<subseteq> issued s'"
proof -
  have mono: "issued s \<subseteq> issued s'" if "\<And>p. set (log (s p)) \<subseteq> set (log (s' p))"
    using that unfolding issued_def by blast
  show ?thesis
    using step
  proof cases
    case (serve p z)
    then have "log (s' r) = log (s r)" for r by simp
    then show ?thesis using iss [of q] by (simp add: offered_def issued_def)
  next
    case (send_all ks p kind payload t1 t2 res n' m' env)
    have "issued s \<subseteq> issued s'" by (rule mono) (auto simp: send_all(1))
    moreover have "env \<in> issued s'" unfolding issued_def send_all(1)
      by (rule CollectI, rule exI [of _ p]) (simp add: send_all(4))
    ultimately show ?thesis using iss [of q] by (auto simp: send_all(1,4) offered_def split: if_splits)
  next
    case (send_one i kind payload t1 t2 p err n' m' env)
    have "issued s \<subseteq> issued s'" by (rule mono) (auto simp: send_one(1))
    moreover have "env \<in> issued s'" unfolding issued_def send_one(1)
      by (rule CollectI, rule exI [of _ p]) (simp add: send_one(3))
    ultimately show ?thesis using iss [of q] by (auto simp: send_one(1,3) offered_def split: if_splits)
  next
    case (receive p ch env r v m' n' w')
    have "issued s \<subseteq> issued s'" by (rule mono) (auto simp: receive(1))
    moreover have "env \<in> set (wire (ds (s p)) ch)" using receive(2,3) by simp
    then have "env \<in> set (offered (s p))"
      using list_emb_set [OF wire_offered [of "s p" ch]] inv by (auto simp: down_inv_def)
    then have "env \<in> issued s" using iss [of p] by blast
    ultimately show ?thesis using iss [of q] iss [of p] receive(5)
      by (auto simp: receive(1) offered_def split: if_splits)
  qed
qed

lemma down_reach_issued: "down_reach P peer s \<Longrightarrow> set (offered (s q)) \<subseteq> issued s"
proof (induction arbitrary: q rule: down_reach.induct)
  case (down_start s)
  then show ?case by (simp add: offered_def)
next
  case (down_more s s')
  then show ?case using down_step_issued down_reach_inv by blast
qed

subsection \<open>The property\<close>

text \<open>Node \<open>q\<close> sends nothing of its own, and all it has received came on one stream from \<open>p\<close>.\<close>

definition feeds :: "(nat \<Rightarrow> chan \<Rightarrow> nat) \<Rightarrow> (nat \<Rightarrow> 'w dsite) \<Rightarrow> nat \<Rightarrow> nat \<Rightarrow> bool" where
  "feeds peer s p q \<longleftrightarrow> (\<exists>ch. peer p ch = q \<and> q \<noteq> p \<and> (\<forall>(o1, env) \<in> set (log (s q)). o1 = From p ch))"

lemma stream_in_order:
  assumes "down_inv peer s" and "peer p ch = q" and "q \<noteq> p"
  shows "prefix (came p ch (s q)) (put (ds (s p)) ch)" and "subseq (came p ch (s q)) (offered (s p))"
proof -
  have si: "site_inv (s p)" using assms(1) by (simp add: down_inv_def)
  have c: "came p ch (s q) = take (taken (s p) ch) (wire (ds (s p)) ch)"
    using assms by (simp add: down_inv_def streams_inv_def)
  have "put (ds (s p)) ch = wire (ds (s p)) ch @ chan_buf ch (srv (ds (s p)))"
    using si sys_fifoD(1) by (simp add: site_inv_def sys_inv_def)
  then show "prefix (came p ch (s q)) (put (ds (s p)) ch)"
    by (simp add: c) (meson prefix_order.order_trans prefixI take_is_prefix)
  then show "subseq (came p ch (s q)) (offered (s p))"
    using si prefix_imp_subseq subseq_order.order_trans unfolding site_inv_def by blast
qed

text \<open>
  C4. On the way down nothing is invented, duplicated or reordered, whatever the interleaving of
  sends, broadcasts, handlers, registrations and receive loops of any number of nodes: what a node has
  received on a stream is a beginning of what its parent's server put into the channel, and a
  subsequence of what the parent offered to its children; every envelope that any node has
  received was sent down by some node; and down a path of nodes that
  each listen to one stream and only pass on, however long, what the last one has received is a
  subsequence of what the first one sent (what is missing was dropped at a full buffer, is on its way or was
  lost with a stream).
\<close>

theorem down_in_order:
  assumes "down_reach P peer s"
  shows "(\<forall>ch. peer p ch = q \<and> q \<noteq> p \<longrightarrow>
      prefix (came p ch (s q)) (put (ds (s p)) ch) \<and> subseq (came p ch (s q)) (offered (s p))) \<and>
    set (offered (s q)) \<subseteq> issued s \<and>
    ((feeds peer s)\<^sup>*\<^sup>* p q \<longrightarrow> subseq (offered (s q)) (offered (s p)))"
proof (intro conjI allI impI)
  note inv = down_reach_inv [OF assms]
  show "prefix (came p ch (s q)) (put (ds (s p)) ch)" "subseq (came p ch (s q)) (offered (s p))"
    if "peer p ch = q \<and> q \<noteq> p" for ch
    using stream_in_order [OF inv, of p ch q] that by simp_all
  show "set (offered (s q)) \<subseteq> issued s" by (rule down_reach_issued [OF assms])
  assume "(feeds peer s)\<^sup>*\<^sup>* p q"
  then show "subseq (offered (s q)) (offered (s p))"
  proof (induction rule: rtranclp_induct)
    case base
    show ?case by simp
  next
    case (step r q)
    then obtain ch where ch: "peer r ch = q" "q \<noteq> r" "\<forall>(o1, env) \<in> set (log (s q)). o1 = From r ch"
      by (auto simp: feeds_def)
    from ch(3) have "filter (\<lambda>(o1, env). o1 = From r ch) (log (s q)) = log (s q)"
      by (simp add: filter_id_conv)
    then have "offered (s q) = came r ch (s q)" by (simp add: offered_def came_def)
    with stream_in_order(2) [OF inv ch(1,2)] step.IH show ?case
      using subseq_order.order_trans by metis
  qed
qed


text \<open>A node with two children sends one envelope to the first, which receives it.\<close>

definition demo_peer :: "nat \<Rightarrow> chan \<Rightarrow> nat" where
  "demo_peer p ch = (if p = 0 \<and> ch = 0 then 1 else 2)"

definition demo_down :: "nat \<Rightarrow> unit dsite" where
  "demo_down p =
     \<lparr>dn = demo_node [], serves = (p = 0), ds = (if p = 0 then two_children else init_sys None),
      dw = (), log = [], taken = (\<lambda>_. 0)\<rparr>"

lemma two_children_history: "put two_children = (\<lambda>_. [])" "wire two_children = (\<lambda>_. [])"
  by (simp_all add: two_children_def connect_def init_sys_def split: prod.split)

lemma demo_down_reach: "down_reach (\<lambda>_. True) demo_peer demo_down"
proof (rule down_reach.down_start)
  have "put (init_sys None) = (\<lambda>_. [])" by (simp add: init_sys_def)
  then show "server_reach (\<lambda>_. True) (ds (demo_down p)) \<and> put (ds (demo_down p)) = (\<lambda>_. []) \<and>
      log (demo_down p) = [] \<and> taken (demo_down p) = (\<lambda>_. 0)" for p
    by (simp add: demo_down_def two_children_reach server_reach.reach_init two_children_history)
qed

theorem down_in_order_witness:
  "\<exists>(s :: nat \<Rightarrow> unit dsite) env. down_reach (\<lambda>_. True) demo_peer s \<and> Kind env = ''config'' \<and> came 0 0 (s 1) = [env] \<and>
     prefix (came 0 0 (s 1)) (put (ds (s 0)) 0) \<and> subseq (offered (s 1)) (offered (s 0))"
proof -
  define env where "env = newEnvelope ''leaf'' ''config'' ''v1'' 1 1"
  let ?s1 = "(srv two_children)\<lparr>chans := fmupd 0 [env] (chans (srv two_children))\<rparr>"
  have "chan_buf 0 (srv two_children) = []" by (simp add: chan_buf_def two_children_sel)
  then have "SendToChild ''a'' env (srv two_children) (mx two_children) =
      (None, ?s1, inc_sent ''downstream'' (mx two_children))"
    by (simp add: SendToChild_eq can_accept_def two_children_sel chan_cap_def)
  then have snd: "nodeSendToChild ''a'' ''config'' ''v1'' 1 1 (node_at (demo_down 0)) (mx (ds (demo_down 0))) =
      (None, (demo_node [])\<lparr>n_server := Some ?s1\<rparr>, inc_sent ''downstream'' (mx two_children))"
    by (simp add: nodeSendToChild_def node_at_def demo_down_def env_def)
  define x0 where "x0 = put_back Aimed env ((demo_node [])\<lparr>n_server := Some ?s1\<rparr>)
      (inc_sent ''downstream'' (mx two_children)) () (demo_down 0)"
  define sa where "sa = demo_down(0 := x0)"
  have "down_step (\<lambda>_. True) demo_peer demo_down (demo_down(0 := put_back Aimed env
      ((demo_node [])\<lparr>n_server := Some ?s1\<rparr>) (inc_sent ''downstream'' (mx two_children)) (dw (demo_down 0)) (demo_down 0)))"
    by (rule down_step.send_one [where s = demo_down and p = 0, OF snd]) (simp add: env_def demo_down_def)
  then have sa: "down_reach (\<lambda>_. True) demo_peer sa"
    using down_reach.down_more [OF demo_down_reach] by (simp add: sa_def x0_def)
  have x0: "srv (ds x0) = ?s1" "serves x0" "live (ds x0) = live two_children" "wire (ds x0) = (\<lambda>_. [])"
    "taken x0 = (\<lambda>_. 0)"
    by (simp_all add: x0_def put_back_def demo_down_def Let_def two_children_history)
  have turn: "Downstream_turn 0 (EnvReady None) (srv (ds x0)) =
      Some (Continue, [env], ?s1\<lparr>chans := fmupd 0 [] (chans ?s1)\<rparr>)"
    by (simp add: x0 Downstream_turn_def chan_recv_eq chan_buf_def)
  have liv: "fmlookup (live (ds x0)) 0 = Some (''a'', Running)" by (simp add: x0(3) two_children_sel)
  let ?z = "(ds x0)\<lparr>srv := ?s1\<lparr>chans := fmupd 0 [] (chans ?s1)\<rparr>, wire := (wire (ds x0))(0 := wire (ds x0) 0 @ [env])\<rparr>"
  define sb where "sb = sa(0 := x0\<lparr>ds := ?z\<rparr>)"
  have "down_step (\<lambda>_. True) demo_peer sa (sa(0 := (sa 0)\<lparr>ds := ?z\<rparr>))"
    by (rule down_step.serve) (use server_step.down_continue [OF liv turn] in \<open>simp_all add: sa_def x0(2)\<close>)
  then have sb: "down_reach (\<lambda>_. True) demo_peer sb"
    using down_reach.down_more [OF sa] by (simp add: sb_def sa_def)
  have b: "taken (sb 0) 0 = 0" "wire (ds (sb 0)) 0 = [env]" "sb 1 = demo_down 1"
    by (simp_all add: sb_def sa_def x0)
  obtain m n w where rec: "recvLoop_received (Some (site_hook (\<lambda>_. []))) env
      (mx (ds (sb 1)), node_at (sb 1), dw (sb 1)) = (m, n, w)" by (rule prod_cases3)
  define s where "s = sb(0 := (sb 0)\<lparr>taken := (taken (sb 0))(0 := taken (sb 0) 0 + 1)\<rparr>,
      1 := put_back (From 0 0) env n m w (sb 1))"
  have "down_step (\<lambda>_. True) demo_peer sb s"
    unfolding s_def
    by (rule down_step.receive [where s = sb and p = 0 and ch = 0 and q = 1 and v = "\<lambda>_. []", OF _ _ _ _ _ rec])
      (simp_all add: b b(3) [unfolded One_nat_def] demo_peer_def visits_ok_def demo_down_def)
  then have s: "down_reach (\<lambda>_. True) demo_peer s" by (rule down_reach.down_more [OF sb])
  have c: "log (s 1) = [(From 0 0, env)]"
    by (simp add: s_def b b(3) [unfolded One_nat_def] demo_down_def)
  then have "feeds demo_peer s 0 1" by (auto simp: feeds_def demo_peer_def)
  then have path: "(feeds demo_peer s)\<^sup>*\<^sup>* 0 1" by (rule r_into_rtranclp)
  note order = down_in_order [OF s, of 0 1]
  have "subseq (offered (s 1)) (offered (s 0))" using order path by blast
  moreover have "prefix (came 0 0 (s 1)) (put (ds (s 0)) 0)" using order by (simp add: demo_peer_def)
  moreover have "came 0 0 (s 1) = [env]" "Kind env = ''config''"
    using c by (simp_all add: came_def env_def)
  ultimately show ?thesis using s by blast
qed

end
