(* ===== verification/Down_Delivery.thy ===== *)
theory Down_Delivery
  imports Down_System
begin

text \<open>
  What arrives on the way down. \<open>Down_System\<close> shows that nothing is invented or reordered in any
  interleaving; here, under what conditions nothing is missing: a burst that the channels can hold,
  on streams that are at rest before it and after it, between children that stay registered.
\<close>

subsection \<open>What happened between two states\<close>

definition since :: "'w dsite \<Rightarrow> 'w dsite \<Rightarrow> (origin \<times> envelope) list" where
  "since x y = drop (length (log x)) (log y)"

text \<open>Sent down to all children, and received from a parent (which is then sent to all).\<close>

definition to_all :: "(origin \<times> envelope) list \<Rightarrow> envelope list" where
  "to_all l = map snd (filter (\<lambda>(o1, env). o1 \<noteq> Aimed) l)"

definition from_above :: "(origin \<times> envelope) list \<Rightarrow> envelope list" where
  "from_above l = map snd (filter (\<lambda>(o1, env). o1 \<noteq> Aimed \<and> o1 \<noteq> Own) l)"

lemma to_all_simps [simp]:
  "to_all [] = []" "to_all (l @ l') = to_all l @ to_all l'"
  "to_all [(o1, env)] = (if o1 = Aimed then [] else [env])"
  by (simp_all add: to_all_def)

lemma from_above_simps [simp]:
  "from_above [] = []" "from_above (l @ l') = from_above l @ from_above l'"
  "from_above [(o1, env)] = (if o1 = Aimed \<or> o1 = Own then [] else [env])"
  by (simp_all add: from_above_def)

lemma from_above_to_all: "subseq (from_above l) (to_all l)"
  by (induction l) (auto simp: from_above_def to_all_def)

definition registered :: "chan \<Rightarrow> 'w dsite \<Rightarrow> bool" where
  "registered ch x \<longleftrightarrow> serves x \<and> (\<exists>k. fmlookup (children (srv (ds x))) k = Some ch)"

text \<open>Nothing is buffered for the child, and it has received all that was sent on its stream.\<close>

definition at_rest :: "chan \<Rightarrow> 'w dsite \<Rightarrow> bool" where
  "at_rest ch x \<longleftrightarrow> chan_buf ch (srv (ds x)) = [] \<and> taken x ch = length (wire (ds x) ch)"

subsection \<open>One step\<close>

lemma server_step_registered:
  assumes "server_step P y z" and "fmlookup (children (srv z)) k = Some ch" and "ch < next_chan (srv y)"
    and "sys_inv y"
  shows "\<exists>k. fmlookup (children (srv y)) k = Some ch"
  using assms
proof (induction rule: server_step.induct)
  case (broadcast ks y env res s' m')
  have "server_ok (srv y)" using broadcast(5) by (simp add: sys_inv_def)
  then have "sends_only (srv y) s'" using sends_only_Broadcast(1) broadcast(1,2) by blast
  then show ?case using broadcast(3) by (auto simp: sends_only_def)
next
  case (send_to_child i env y err s' m')
  then have "sends_only (srv y) s'" using sends_only_SendToChild(1) by blast
  then show ?case using send_to_child(2) by (auto simp: sends_only_def)
qed (auto simp: frames registerChild_frame Downstream_cleanup_def dest: registerChild_frame(1) split: if_splits)

text \<open>A broadcast puts the envelope into every channel that has room.\<close>

definition reaches_all :: "envelope \<Rightarrow> 'w dsite \<Rightarrow> 'w node \<Rightarrow> bool" where
  "reaches_all env x n \<longleftrightarrow> downstreamHandlers n = downstreamHandlers (dn x) \<and>
     (serves x \<longrightarrow> (\<exists>s'. n_server n = Some s' \<and>
        (\<forall>ch. registered ch x \<and> length (chan_buf ch (srv (ds x))) < chan_cap \<longrightarrow>
           chan_buf ch s' = chan_buf ch (srv (ds x)) @ [env])))"

lemma broadcast_reaches:
  assumes "sys_inv (ds x)" and "range_order ks (children (srv (ds x)))"
    and "BroadcastDownstream ks env (srv (ds x)) m = (re, s', m')"
    and "downstreamHandlers n = downstreamHandlers (dn x)"
  shows "reaches_all env x (n\<lparr>n_server := Some s'\<rparr>)"
proof -
  have ok: "server_ok (srv (ds x))" using assms(1) by (simp add: sys_inv_def)
  show ?thesis
    using Broadcast_buffers(2) [OF ok assms(2,3)] assms(4)
    by (auto simp: reaches_all_def registered_def can_accept_def)
qed

lemma SendDown_reaches:
  assumes "sys_inv (ds x)" and "visits_ok ks x"
    and "SendDown ks kind payload t1 t2 (node_at x) (mx (ds x)) = (res, n', m')"
  shows "reaches_all (newEnvelope (cfg_id (cfg (dn x))) kind payload t1 t2) x n'"
proof (cases "serves x")
  case True
  let ?env = "newEnvelope (cfg_id (cfg (dn x))) kind payload t1 t2"
  obtain re s' m1 where b: "BroadcastDownstream ks ?env (srv (ds x)) (mx (ds x)) = (re, s', m1)"
    by (rule prod_cases3)
  have "n' = (node_at x)\<lparr>n_server := Some s'\<rparr>"
    using assms(3) True b by (auto simp: SendDown_def node_at_def)
  with broadcast_reaches [OF assms(1) _ b, of "node_at x"] True assms(2) show ?thesis
    by (simp add: visits_ok_def node_at_def)
next
  case False
  with assms(3) show ?thesis by (auto simp: SendDown_def node_at_def reaches_all_def)
qed

lemma receive_reaches:
  assumes "sys_inv (ds x)" and "visits_ok (v env) x"
    and "recvLoop_received (Some (site_hook v)) env (mx (ds x), node_at x, w) = (m', n', w')"
  shows "reaches_all env x n' \<and> w' = runDownstreamHandlers env (dn x) w"
proof -
  have hs: "downstreamHandlers (node_at x) = downstreamHandlers (dn x)" by (simp add: node_at_def)
  then have rd: "runDownstreamHandlers env (node_at x) w = runDownstreamHandlers env (dn x) w"
    by (simp add: runDownstreamHandlers_def)
  have run: "handleDownstreamFromParent (v env) env (node_at x) (inc_received ''downstream'' (mx (ds x))) w = (n', m', w')"
    using assms(3) by (simp add: recvLoop_received_def site_hook_def split: prod.splits)
  then show ?thesis
  proof (cases rule: handleDown_cases)
    case leaf
    then show ?thesis by (auto simp: reaches_all_def rd hs) (simp_all add: node_at_def split: if_splits)
  next
    case (broadcast s re s')
    then have "serves x" "s = srv (ds x)" by (auto simp: node_at_def split: if_splits)
    with assms(2) have ord: "range_order (v env) (children (srv (ds x)))" by (simp add: visits_ok_def)
    from broadcast_reaches [OF assms(1) ord, of env _ re s' _ "node_at x"] broadcast \<open>s = srv (ds x)\<close> hs rd
    show ?thesis by metis
  qed
qed

lemma nodeSendToChild_handlers:
  "nodeSendToChild i kind payload t1 t2 (node_at x) m = (err, n', m') \<Longrightarrow>
   downstreamHandlers n' = downstreamHandlers (dn x)"
  by (auto simp: nodeSendToChild_def node_at_def split: option.splits prod.splits)

lemma put_back_reaches:
  assumes "reaches_all env x n" and "registered ch x" and "length (chan_buf ch (srv (ds x))) < chan_cap"
  shows "put (ds (put_back o1 env n m w x)) ch = put (ds x) ch @ [env]"
  using assms by (auto simp: reaches_all_def put_back_def Let_def appended_def registered_def)

subsection \<open>A run\<close>

text \<open>
  The part of the state that concerns one channel, from \<open>x\<close> to \<open>y\<close>: the histories only grow, and as
  long as no more has been offered than the channel holds, a child that is registered at both ends
  has got all that was sent to all.
\<close>

definition burst :: "chan \<Rightarrow> 'w dsite \<Rightarrow> 'w dsite \<Rightarrow> bool" where
  "burst ch x y \<longleftrightarrow>
     (\<exists>new puts sent. log y = log x @ new \<and> put (ds y) ch = put (ds x) ch @ puts \<and>
        wire (ds y) ch = wire (ds x) ch @ sent \<and> length puts \<le> length new \<and>
        next_chan (srv (ds x)) \<le> next_chan (srv (ds y)) \<and>
        (registered ch x \<and> registered ch y \<and> chan_buf ch (srv (ds x)) = [] \<and> length new \<le> chan_cap \<longrightarrow>
           subseq (to_all new) puts))"

lemma burst_refl: "burst ch x x"
  by (auto simp: burst_def)

lemma site_inv_facts:
  assumes "site_inv x"
  shows "put (ds x) ch = wire (ds x) ch @ chan_buf ch (srv (ds x))" "sys_inv (ds x)"
    and "registered ch x \<Longrightarrow> ch < next_chan (srv (ds x))"
  using assms sys_fifoD(1) [of "ds x" ch] server_okD(1) [of "srv (ds x)"]
  by (auto simp: site_inv_def sys_inv_def registered_def)

lemma burst_serve:
  assumes "burst ch x y" and "site_inv x" and "site_inv y"
    and "server_step P (ds y) z" and "put z = put (ds y)"
  shows "burst ch x (y\<lparr>ds := z\<rparr>)"
proof -
  from assms(1) obtain new puts sent where b: "log y = log x @ new" "put (ds y) ch = put (ds x) ch @ puts"
    "wire (ds y) ch = wire (ds x) ch @ sent" "length puts \<le> length new"
    "next_chan (srv (ds x)) \<le> next_chan (srv (ds y))"
    and got: "registered ch x \<and> registered ch y \<and> chan_buf ch (srv (ds x)) = [] \<and> length new \<le> chan_cap \<longrightarrow>
      subseq (to_all new) puts" unfolding burst_def by blast
  note inv = site_inv_facts [OF assms(3)]
  obtain more where "wire z ch = wire (ds y) ch @ more" using server_step_wire [OF assms(4)] by blast
  moreover have "registered ch y" if "registered ch x" "registered ch (y\<lparr>ds := z\<rparr>)"
    using that server_step_registered [OF assms(4) _ _ inv(2)] site_inv_facts(3) [OF assms(2)] b(5)
    unfolding registered_def by fastforce
  moreover have "next_chan (srv (ds x)) \<le> next_chan (srv z)"
    using server_step_next_chan [OF assms(4) inv(2)] b(5) by simp
  ultimately show ?thesis using b got assms(5) by (auto simp: burst_def)
qed

lemma burst_put_back:
  assumes "burst ch x y" and "site_inv x" and "site_inv y" and eff: "node_effect env y n m"
    and all: "o1 \<noteq> Aimed \<Longrightarrow> reaches_all env y n"
  shows "burst ch x (put_back o1 env n m w y)"
proof -
  from assms(1) obtain new puts sent where b: "log y = log x @ new" "put (ds y) ch = put (ds x) ch @ puts"
    "wire (ds y) ch = wire (ds x) ch @ sent" "length puts \<le> length new"
    "next_chan (srv (ds x)) \<le> next_chan (srv (ds y))"
    and got: "registered ch x \<and> registered ch y \<and> chan_buf ch (srv (ds x)) = [] \<and> length new \<le> chan_cap \<longrightarrow>
      subseq (to_all new) puts" unfolding burst_def by blast
  let ?y = "put_back o1 env n m w y"
  note inv = site_inv_facts [OF assms(3)]
  note pb = put_back_effect [OF inv(2) eff, where ?o1.0 = o1 and w = w]
  obtain more where more: "put (ds ?y) ch = put (ds y) ch @ more" "more = [] \<or> more = [env]"
    using pb(3) [of ch] by auto
  have same: "children (srv (ds ?y)) = children (srv (ds y))" "next_chan (srv (ds ?y)) = next_chan (srv (ds y))"
    using eff by (auto simp: put_back_def Let_def node_effect_def puts_once_def sends_only_def split: option.splits)
  have "subseq (to_all (new @ [(o1, env)])) (puts @ more)"
    if r: "registered ch x" "registered ch ?y" and e: "chan_buf ch (srv (ds x)) = []"
      and l: "length (new @ [(o1, env)]) \<le> chan_cap"
  proof -
    have reg: "registered ch y" using r(2) same by (simp add: registered_def)
    then have old: "subseq (to_all new) puts" using got r(1) e l by simp
    show ?thesis
    proof (cases "o1 = Aimed")
      case True
      with subseq_order.order_trans [OF old prefix_imp_subseq [OF prefixI [OF refl]]] show ?thesis by simp
    next
      case False
      have "puts = sent @ chan_buf ch (srv (ds y))"
        using b(2,3) inv(1) [of ch] site_inv_facts(1) [OF assms(2), of ch] e by simp
      then have "length (chan_buf ch (srv (ds y))) < chan_cap" using b(4) l by simp
      from put_back_reaches [OF all [OF False] reg this] more(1) have "more = [env]" by simp
      with old False show ?thesis by (simp add: list_emb_append_mono)
    qed
  qed
  then have "registered ch x \<and> registered ch ?y \<and> chan_buf ch (srv (ds x)) = [] \<and>
      length (new @ [(o1, env)]) \<le> chan_cap \<longrightarrow> subseq (to_all (new @ [(o1, env)])) (puts @ more)" by blast
  moreover have "length (puts @ more) \<le> length (new @ [(o1, env)])" using b(4) more(2) by auto
  ultimately show ?thesis
    unfolding burst_def using b more(1) pb(2) same(2)
    by (intro exI [of _ "new @ [(o1, env)]"] exI [of _ "puts @ more"] exI [of _ sent]) simp
qed

text \<open>The handlers of a node run on what it receives, in this order.\<close>

definition handled_all :: "'w dsite \<Rightarrow> 'w dsite \<Rightarrow> bool" where
  "handled_all x y \<longleftrightarrow> downstreamHandlers (dn y) = downstreamHandlers (dn x) \<and>
     dw y = foldl (\<lambda>w env. runDownstreamHandlers env (dn x) w) (dw x) (from_above (since x y))"

lemma since_put_back:
  "burst ch x y \<Longrightarrow> since x (put_back o1 env n m w y) = since x y @ [(o1, env)]"
  by (auto simp: burst_def since_def)

lemma down_step_delivery:
  assumes step: "down_step P peer s s'" and inv: "down_inv peer s" and u: "down_inv peer u"
    and old: "\<And>p ch. burst ch (u p) (s p)" "\<And>p. handled_all (u p) (s p)"
  shows "burst ch (u p) (s' p)" "handled_all (u p) (s' p)"
proof -
  have site: "site_inv (s p)" "site_inv (u p)" "sys_inv (ds (s p))" for p
    using inv u by (simp_all add: down_inv_def site_inv_def)
  have dn: "dn (put_back o1 env n m w x) = n" "dw (put_back o1 env n m w x) = w"
    for o1 env n m w and x :: "'a dsite"
    by (simp_all add: put_back_def Let_def)
  have "burst ch (u p) (s' p) \<and> handled_all (u p) (s' p)"
    using step
  proof cases
    case (serve q z)
    have "handled_all (u q) ((s q)\<lparr>ds := z\<rparr>)" using old(2) [of q] by (simp add: handled_all_def since_def)
    with old burst_serve [OF old(1) site(2,1) serve(3,4)] show ?thesis by (simp add: serve(1))
  next
    case (send_all ks q kind payload t1 t2 res n' m' env)
    note re = SendDown_reaches [OF site(3) send_all(2,3), folded send_all(4)]
    note ne = SendDown_effect [OF site(3) send_all(2,3), folded send_all(4)]
    have "handled_all (u q) (put_back Own env n' m' (dw (s q)) (s q))"
      using old(2) [of q] re since_put_back [OF old(1) [of ch q]]
      by (simp add: handled_all_def dn reaches_all_def)
    with old burst_put_back [OF old(1) site(2,1) ne re] show ?thesis by (simp add: send_all(1))
  next
    case (send_one i kind payload t1 t2 q err n' m' env)
    note ne = nodeSendToChild_effect [OF site(3) send_one(2), folded send_one(3)]
    have "handled_all (u q) (put_back Aimed env n' m' (dw (s q)) (s q))"
      using old(2) [of q] nodeSendToChild_handlers [OF send_one(2)] since_put_back [OF old(1) [of ch q]]
      by (simp add: handled_all_def dn)
    with old burst_put_back [OF old(1) site(2,1) ne, where ?o1.0 = Aimed] show ?thesis by (simp add: send_one(1))
  next
    case (receive q ch' env r v m' n' w')
    note re = receive_reaches [OF site(3) receive(6,7)]
    note ne = receive_effect [OF site(3) receive(6,7)]
    let ?t = "(s q)\<lparr>taken := (taken (s q))(ch' := taken (s q) ch' + 1)\<rparr>"
    have "burst ch (u q) ?t" using old(1) [of ch q] by (simp add: burst_def registered_def)
    moreover have "handled_all (u q) ?t" using old(2) [of q] by (simp add: handled_all_def since_def)
    moreover have "handled_all (u r) (put_back (From q ch') env n' m' w' (s r))"
      using old(2) [of r] re since_put_back [OF old(1) [of ch r]]
      by (simp add: handled_all_def dn reaches_all_def runDownstreamHandlers_def)
    moreover note burst_put_back [OF old(1) site(2,1) ne conjunct1 [OF re], where ?o1.0 = "From q ch'" and w = w']
    ultimately show ?thesis using old receive(5) by (simp add: receive(1))
  qed
  then show "burst ch (u p) (s' p)" "handled_all (u p) (s' p)" by simp_all
qed

lemma down_run_delivery:
  assumes "(down_step P peer)\<^sup>*\<^sup>* u s" and "down_inv peer u"
  shows "down_inv peer s \<and> (\<forall>p ch. burst ch (u p) (s p)) \<and> (\<forall>p. handled_all (u p) (s p))"
  using assms(1)
proof (induction rule: rtranclp_induct)
  case base
  show ?case using assms(2) by (simp add: burst_refl handled_all_def since_def)
next
  case (step s s')
  then show ?case using down_step_inv down_step_delivery [OF step(2) _ assms(2)] by blast
qed

subsection \<open>Along a path\<close>

text \<open>
  From \<open>u\<close> to \<open>s\<close>, a child of \<open>p\<close> stays registered, its stream is at rest at both ends, and \<open>p\<close> has
  offered no more than a channel holds.
\<close>

definition carries :: "(nat \<Rightarrow> chan \<Rightarrow> nat) \<Rightarrow> (nat \<Rightarrow> 'w dsite) \<Rightarrow> (nat \<Rightarrow> 'w dsite) \<Rightarrow> nat \<Rightarrow> nat \<Rightarrow> bool" where
  "carries peer u s p q \<longleftrightarrow>
     length (since (u p) (s p)) \<le> chan_cap \<and>
     (\<exists>ch. peer p ch = q \<and> q \<noteq> p \<and> registered ch (u p) \<and> registered ch (s p) \<and>
        at_rest ch (u p) \<and> at_rest ch (s p))"

lemma stream_carries:
  assumes "down_inv peer u" and "down_inv peer s" and b: "\<And>p ch. burst ch (u p) (s p)"
    and "peer p ch = q" "q \<noteq> p" and reg: "registered ch (u p)" "registered ch (s p)"
    and rest: "at_rest ch (u p)" "at_rest ch (s p)" and "length (since (u p) (s p)) \<le> chan_cap"
    and puts: "puts = map snd (filter (\<lambda>(o1, env). o1 = From p ch) (since (u q) (s q)))"
  shows "subseq (to_all (since (u p) (s p))) puts" and "length puts \<le> length (since (u p) (s p))"
    and "subseq puts (from_above (since (u q) (s q)))"
proof -
  have came: "came p ch (x q) = put (ds (x p)) ch" if "down_inv peer x" "at_rest ch (x p)" for x
    using that assms(4,5) site_inv_facts(1) [of "x p" ch]
    by (simp add: down_inv_def streams_inv_def at_rest_def)
  obtain new where new: "log (s q) = log (u q) @ new" using b [of ch q] by (auto simp: burst_def)
  have "came p ch (s q) = came p ch (u q) @ puts" by (simp add: came_def new puts since_def)
  with came [OF assms(1) rest(1)] came [OF assms(2) rest(2)]
  have "put (ds (s p)) ch = put (ds (u p)) ch @ puts" by simp
  with b [of ch p] reg rest(1) assms(10)
  show "subseq (to_all (since (u p) (s p))) puts" "length puts \<le> length (since (u p) (s p))"
    by (auto simp: burst_def since_def at_rest_def)
  have "subseq (map snd (filter (\<lambda>(o1, env). o1 = From p ch) l)) (from_above l)" for l
    by (induction l) (auto simp: from_above_def)
  then show "subseq puts (from_above (since (u q) (s q)))" by (simp add: puts)
qed

lemma carries_delivers:
  assumes "carries peer u s p q" and "down_inv peer u" and "down_inv peer s"
    and "\<And>p ch. burst ch (u p) (s p)"
  shows "subseq (to_all (since (u p) (s p))) (from_above (since (u q) (s q)))"
proof -
  from assms(1) obtain ch where ch: "peer p ch = q" "q \<noteq> p" "registered ch (u p)" "registered ch (s p)"
    "at_rest ch (u p)" "at_rest ch (s p)" and l: "length (since (u p) (s p)) \<le> chan_cap"
    by (auto simp: carries_def)
  from stream_carries [OF assms(2-4) ch l refl] show ?thesis using subseq_order.order_trans by blast
qed

text \<open>In addition, \<open>p\<close> sends nothing to one child alone, and all that \<open>q\<close> offers comes on this stream.\<close>

definition relays :: "(nat \<Rightarrow> chan \<Rightarrow> nat) \<Rightarrow> (nat \<Rightarrow> 'w dsite) \<Rightarrow> (nat \<Rightarrow> 'w dsite) \<Rightarrow> nat \<Rightarrow> nat \<Rightarrow> bool" where
  "relays peer u s p q \<longleftrightarrow>
     length (since (u p) (s p)) \<le> chan_cap \<and> (\<forall>(o1, env) \<in> set (since (u p) (s p)). o1 \<noteq> Aimed) \<and>
     (\<exists>ch. peer p ch = q \<and> q \<noteq> p \<and> registered ch (u p) \<and> registered ch (s p) \<and>
        at_rest ch (u p) \<and> at_rest ch (s p) \<and> (\<forall>(o1, env) \<in> set (since (u q) (s q)). o1 = From p ch))"

lemma relays_delivers:
  assumes "relays peer u s p q" and "down_inv peer u" and "down_inv peer s"
    and "\<And>p ch. burst ch (u p) (s p)"
  shows "from_above (since (u q) (s q)) = to_all (since (u p) (s p)) \<and>
    to_all (since (u q) (s q)) = from_above (since (u q) (s q))"
proof -
  from assms(1) obtain ch where ch: "peer p ch = q" "q \<noteq> p" "registered ch (u p)" "registered ch (s p)"
    "at_rest ch (u p)" "at_rest ch (s p)" and l: "length (since (u p) (s p)) \<le> chan_cap"
    and one: "\<forall>(o1, env) \<in> set (since (u q) (s q)). o1 = From p ch"
    and all: "\<forall>(o1, env) \<in> set (since (u p) (s p)). o1 \<noteq> Aimed"
    by (auto simp: relays_def)
  define puts where "puts = map snd (filter (\<lambda>(o1, env). o1 = From p ch) (since (u q) (s q)))"
  note str = stream_carries [OF assms(2-4) ch l puts_def]
  have "length (to_all l) = length l" if "\<forall>(o1, env) \<in> set l. o1 \<noteq> Aimed" for l
    using that by (induction l) (auto simp: to_all_def)
  from this [OF all] str(1,2) have "to_all (since (u p) (s p)) = puts"
    by (metis le_antisym list_emb_length subseq_same_length)
  moreover have "map snd (filter (\<lambda>(o1, env). o1 = From p ch) l) = from_above l \<and> to_all l = from_above l"
    if "\<forall>(o1, env) \<in> set l. o1 = From p ch" for l
    using that by (induction l) (auto simp: from_above_def to_all_def)
  ultimately show ?thesis using one by (simp add: puts_def)
qed

subsection \<open>From parent to child and to rest\<close>

text \<open>A registered child whose handler runs, with nothing on its way, or with one envelope buffered.\<close>

definition idle :: "chan \<Rightarrow> 'w dsite \<Rightarrow> bool" where
  "idle ch x \<longleftrightarrow> registered ch x \<and> at_rest ch x \<and> (\<exists>key. fmlookup (live (ds x)) ch = Some (key, Running))"

definition loaded :: "chan \<Rightarrow> envelope \<Rightarrow> 'w dsite \<Rightarrow> bool" where
  "loaded ch env x \<longleftrightarrow> registered ch x \<and> chan_buf ch (srv (ds x)) = [env] \<and>
     taken x ch = length (wire (ds x) ch) \<and> (\<exists>key. fmlookup (live (ds x)) ch = Some (key, Running))"

lemma offer_loads:
  assumes "site_inv x" and eff: "node_effect env x n m" and all: "reaches_all env x n" and idle: "idle ch x"
  shows "loaded ch env (put_back o1 env n m w x)"
proof -
  let ?y = "put_back o1 env n m w x"
  note inv = site_inv_facts [OF assms(1)]
  note pb = put_back_effect [OF inv(2) eff, where ?o1.0 = o1 and w = w]
  have reg: "registered ch x" and buf: "chan_buf ch (srv (ds x)) = []" using idle by (simp_all add: idle_def at_rest_def)
  have same: "children (srv (ds ?y)) = children (srv (ds x))" "live (ds ?y) = live (ds x)"
    using eff by (auto simp: put_back_def Let_def node_effect_def puts_once_def sends_only_def split: option.splits)
  have "put (ds ?y) ch = put (ds x) ch @ [env]" using put_back_reaches [OF all reg] buf by (simp add: chan_cap_def)
  moreover have "put (ds ?y) ch = wire (ds ?y) ch @ chan_buf ch (srv (ds ?y))"
    using pb(1) sys_fifoD(1) by (simp add: sys_inv_def)
  ultimately have "chan_buf ch (srv (ds ?y)) = [env]" using inv(1) [of ch] buf pb(2) by simp
  with idle same pb(2) show ?thesis by (simp add: loaded_def idle_def registered_def at_rest_def)
qed

lemma some_visit: "\<exists>ks. visits_ok ks x"
  using finite_distinct_list [of "fmdom' (children (srv (ds x)))"] by (auto simp: visits_ok_def range_order_def)

text \<open>The handler sends what is buffered, and the node at the other end receives and offers it.\<close>

lemma relay_once:
  assumes inv: "down_inv peer s" and "loaded ch env (s p)" and q: "peer p ch = q" "q \<noteq> p"
  shows "\<exists>s'. (down_step P peer)\<^sup>*\<^sup>* s s' \<and> idle ch (s' p) \<and> log (s' p) = log (s p) \<and>
    log (s' q) = log (s q) @ [(From p ch, env)] \<and> (\<forall>r. r \<noteq> p \<and> r \<noteq> q \<longrightarrow> s' r = s r) \<and>
    (\<forall>ch2. idle ch2 (s q) \<longrightarrow> loaded ch2 env (s' q))"
proof -
  let ?x = "s p"
  from assms(2) obtain key where x: "registered ch ?x" "chan_buf ch (srv (ds ?x)) = [env]"
    "taken ?x ch = length (wire (ds ?x) ch)" "fmlookup (live (ds ?x)) ch = Some (key, Running)"
    by (auto simp: loaded_def)
  let ?srv = "(srv (ds ?x))\<lparr>chans := fmupd ch [] (chans (srv (ds ?x)))\<rparr>"
  let ?z = "(ds ?x)\<lparr>srv := ?srv, wire := (wire (ds ?x))(ch := wire (ds ?x) ch @ [env])\<rparr>"
  have turn: "Downstream_turn ch (EnvReady None) (srv (ds ?x)) = Some (Continue, [env], ?srv)"
    by (simp add: x(2) Downstream_turn_def chan_recv_eq)
  define s1 where "s1 = s(p := ?x\<lparr>ds := ?z\<rparr>)"
  have step1: "down_step P peer s s1"
    unfolding s1_def
    by (rule down_step.serve) (use server_step.down_continue [OF x(4) turn] x(1) in \<open>simp_all add: registered_def\<close>)
  have s1: "s1 p = ?x\<lparr>ds := ?z\<rparr>" "\<And>r. r \<noteq> p \<Longrightarrow> s1 r = s r" by (simp_all add: s1_def)
  have site: "site_inv (s q)" using inv by (simp add: down_inv_def)
  then have sys: "sys_inv (ds (s q))" by (rule site_inv_facts(2))
  obtain ks where ks: "visits_ok ks (s q)" using some_visit by blast
  obtain m n w where rec: "recvLoop_received (Some (site_hook (\<lambda>_. ks))) env (mx (ds (s q)), node_at (s q), dw (s q)) =
      (m, n, w)" by (rule prod_cases3)
  define s' where "s' = s1(p := (s1 p)\<lparr>taken := (taken (s1 p))(ch := taken (s1 p) ch + 1)\<rparr>,
      q := put_back (From p ch) env n m w (s1 q))"
  have step2: "down_step P peer s1 s'"
    unfolding s'_def
    by (rule down_step.receive [where v = "\<lambda>_. ks"]) (use q ks rec x(3) in \<open>simp_all add: s1\<close>)
  note ne = receive_effect [OF sys, of "\<lambda>_. ks", OF ks rec]
    and re = receive_reaches [OF sys, of "\<lambda>_. ks", OF ks rec]
  have "idle ch (s' p)" using q(2) x by (auto simp: s'_def s1 idle_def registered_def at_rest_def chan_buf_def)
  moreover have "loaded ch2 env (s' q)" if "idle ch2 (s q)" for ch2
    using offer_loads [OF site ne conjunct1 [OF re] that] q(2) by (simp add: s'_def s1)
  moreover have "(down_step P peer)\<^sup>*\<^sup>* s s'" using step1 step2 by (blast intro: converse_rtranclp_into_rtranclp)
  ultimately show ?thesis using q(2) by (intro exI [of _ s']) (simp add: s'_def s1)
qed

subsection \<open>The property\<close>

text \<open>
  C5. What is sent down arrives, in any interleaving of sends, registrations, disconnects, handlers and
  receive loops of any number of nodes, as far as the channels hold it and the streams do not fail: take any
  path of nodes from \<open>p\<close> down to \<open>q\<close> such that, over some part of a run, each child on the path
  stays registered with its parent, no node on the path offers more than 16 envelopes, and the streams of the
  path are at rest at the beginning and at the end. Then \<open>q\<close> has received all that \<open>p\<close> has
  sent to all its children meanwhile, in order, and its handlers have run on what it has received,
  once each and in this order. If the nodes of the path below \<open>p\<close> listen to no other stream and
  send nothing of their own, and nothing was sent to one child alone, \<open>q\<close> has received
  exactly that, once each.
\<close>

theorem burst_reaches_below:
  assumes "down_reach P peer u" and "(down_step P peer)\<^sup>*\<^sup>* u s" and "(carries peer u s)\<^sup>+\<^sup>+ p q"
  shows "subseq (to_all (since (u p) (s p))) (from_above (since (u q) (s q))) \<and>
    dw (s q) = foldl (\<lambda>w env. runDownstreamHandlers env (dn (u q)) w) (dw (u q))
      (from_above (since (u q) (s q))) \<and>
    ((relays peer u s)\<^sup>+\<^sup>+ p q \<longrightarrow> from_above (since (u q) (s q)) = to_all (since (u p) (s p)))"
proof -
  note u = down_reach_inv [OF assms(1)]
  note run = down_run_delivery [OF assms(2) u]
  have s: "down_inv peer s" and b: "\<And>p ch. burst ch (u p) (s p)" using run by blast+
  from assms(3) have "subseq (to_all (since (u p) (s p))) (from_above (since (u q) (s q)))"
  proof (induction rule: tranclp_induct)
    case (base q)
    then show ?case using carries_delivers [OF _ u s b] by blast
  next
    case (step r q)
    have "subseq (to_all (since (u r) (s r))) (from_above (since (u q) (s q)))"
      using carries_delivers [OF step(2) u s b] .
    with step.IH from_above_to_all [of "since (u r) (s r)"] show ?case
      using subseq_order.order_trans by blast
  qed
  moreover have "from_above (since (u q) (s q)) = to_all (since (u p) (s p))"
    if "(relays peer u s)\<^sup>+\<^sup>+ p q"
    using that
  proof (induction rule: tranclp_induct)
    case (base q)
    then show ?case using relays_delivers [OF _ u s b] by blast
  next
    case (step r q)
    from step(1) obtain r0 where "relays peer u s r0 r" by (blast elim: tranclp.cases)
    then show ?case using step.IH relays_delivers [OF step(2) u s b] relays_delivers [OF _ u s b] by metis
  qed
  ultimately show ?thesis using run unfolding handled_all_def by blast
qed

text \<open>A node with two children, of which the first has two children itself, sends one envelope to all.\<close>

definition demo_chain :: "nat \<Rightarrow> string list dsite" where
  "demo_chain p =
     \<lparr>dn = OnDownstream ''config'' (\<lambda>env w. w @ [Payload env]) (demo_node []), serves = (p < 2),
      ds = (if p < 2 then two_children else init_sys None), dw = [], log = [], taken = (\<lambda>_. 0)\<rparr>"

definition next_peer :: "nat \<Rightarrow> chan \<Rightarrow> nat" where
  "next_peer p ch = (if ch = 0 then p + 1 else p + 10)"

lemma demo_chain_reach: "down_reach (\<lambda>_. True) next_peer demo_chain"
proof (rule down_reach.down_start)
  have "put (init_sys None) = (\<lambda>_. [])" by (simp add: init_sys_def)
  then show "server_reach (\<lambda>_. True) (ds (demo_chain p)) \<and> put (ds (demo_chain p)) = (\<lambda>_. []) \<and>
      log (demo_chain p) = [] \<and> taken (demo_chain p) = (\<lambda>_. 0)" for p
    by (simp add: demo_chain_def two_children_reach server_reach.reach_init two_children_history)
qed

lemma demo_chain_idle: "p < 2 \<Longrightarrow> idle 0 (demo_chain p)"
  by (auto simp: idle_def demo_chain_def registered_def at_rest_def two_children_history two_children_sel chan_buf_def
      intro: exI [of _ "''a''"])

theorem burst_reaches_below_witness:
  "\<exists>s. (down_step (\<lambda>_. True) next_peer)\<^sup>*\<^sup>* demo_chain s \<and> (carries next_peer demo_chain s)\<^sup>+\<^sup>+ 0 2 \<and>
     dw (s 2) = [''v1'']"
proof -
  note inv = down_reach_inv [OF demo_chain_reach]
  have sys: "sys_inv (ds (demo_chain 0))" "site_inv (demo_chain 0)" using inv by (simp_all add: down_inv_def site_inv_def)
  define env where "env = newEnvelope (cfg_id (cfg (dn (demo_chain 0)))) ''config'' ''v1'' 1 1"
  obtain ks where ks: "visits_ok ks (demo_chain 0)" using some_visit by blast
  obtain res n m where snd: "SendDown ks ''config'' ''v1'' 1 1 (node_at (demo_chain 0)) (mx (ds (demo_chain 0))) = (res, n, m)"
    by (rule prod_cases3)
  define s1 where "s1 = demo_chain(0 := put_back Own env n m (dw (demo_chain 0)) (demo_chain 0))"
  have st1: "down_step (\<lambda>_. True) next_peer demo_chain s1"
    unfolding s1_def by (rule down_step.send_all [where s = demo_chain and p = 0, OF ks snd env_def])
  then have inv1: "down_inv next_peer s1" by (rule down_step_inv [OF _ inv])
  have "loaded 0 env (s1 0)"
    using offer_loads [OF sys(2) SendDown_effect [OF sys(1) ks snd] SendDown_reaches [OF sys(1) ks snd] demo_chain_idle]
    by (simp add: s1_def env_def)
  from relay_once [where P = "\<lambda>_. True", OF inv1 this, of 1] obtain s2 where st2: "(down_step (\<lambda>_. True) next_peer)\<^sup>*\<^sup>* s1 s2"
    and s2: "idle 0 (s2 0)" "log (s2 0) = log (s1 0)" "log (s2 1) = log (s1 1) @ [(From 0 0, env)]"
      "\<forall>r. r \<noteq> 0 \<and> r \<noteq> 1 \<longrightarrow> s2 r = s1 r" "\<forall>c. idle c (s1 1) \<longrightarrow> loaded c env (s2 1)"
    by (auto simp: next_peer_def)
  have inv2: "down_inv next_peer s2" using down_run_delivery [OF st2 inv1] by blast
  have "loaded 0 env (s2 1)" using s2(5) demo_chain_idle [of 1] by (simp add: s1_def)
  from relay_once [where P = "\<lambda>_. True", OF inv2 this, of 2] obtain s where st: "(down_step (\<lambda>_. True) next_peer)\<^sup>*\<^sup>* s2 s"
    and s: "idle 0 (s 1)" "log (s 1) = log (s2 1)" "log (s 2) = log (s2 2) @ [(From 1 0, env)]"
      "\<forall>r. r \<noteq> 1 \<and> r \<noteq> 2 \<longrightarrow> s r = s2 r"
    by (auto simp: next_peer_def)
  have run: "(down_step (\<lambda>_. True) next_peer)\<^sup>*\<^sup>* demo_chain s"
    using converse_rtranclp_into_rtranclp [of "down_step (\<lambda>_. True) next_peer", OF st1 rtranclp_trans [OF st2 st]] .
  have logs: "since (demo_chain 0) (s 0) = [(Own, env)]" "since (demo_chain 1) (s 1) = [(From 0 0, env)]"
    "since (demo_chain 2) (s 2) = [(From 1 0, env)]"
    using s s2 by (simp_all add: since_def s1_def demo_chain_def)
  have "relays next_peer demo_chain s 0 1" "carries next_peer demo_chain s 0 1"
    using logs s(4) s2(1) demo_chain_idle [of 0]
    by (auto simp: relays_def carries_def next_peer_def chan_cap_def idle_def intro!: exI [of _ 0])
  moreover have "relays next_peer demo_chain s 1 2" "carries next_peer demo_chain s 1 2"
    using logs s(1) demo_chain_idle [of 1]
    by (auto simp: relays_def carries_def next_peer_def chan_cap_def idle_def intro!: exI [of _ 0])
  ultimately have path: "(carries next_peer demo_chain s)\<^sup>+\<^sup>+ 0 2" "(relays next_peer demo_chain s)\<^sup>+\<^sup>+ 0 2"
    by (blast intro: tranclp.intros)+
  from burst_reaches_below [OF demo_chain_reach run path(1)] path(2) logs
  have "dw (s 2) = foldl (\<lambda>w env. runDownstreamHandlers env (dn (demo_chain 2)) w) (dw (demo_chain 2)) [env]"
    by (simp add: to_all_def)
  then have "dw (s 2) = [''v1'']"
    by (simp add: demo_chain_def demo_node_def env_def runDownstreamHandlers_def OnDownstream_def newEnvelope_def)
  with run path(1) show ?thesis by blast
qed

end
