(* ===== verification/Handshake.thy ===== *)
theory Handshake
  imports Server_Properties Client Allow_List
begin

text \<open>
  How a parent learns who its child is: the node id that the client attaches to its calls
  (\<open>withNodeID\<close> of \<open>transport/client.go\<close>), the metadata that gRPC carries, and what the server
  makes of it (\<open>childNodeID\<close>, the hook and the children map of \<open>Server\<close>).

  Metadata of a call is kept as its pairs in the order in which they were appended; \<open>base\<close> is what
  the context given to \<open>Connect\<close> has already.
\<close>

type_synonym outgoing_md = "(string \<times> string) list"

definition withNodeID :: "client \<Rightarrow> outgoing_md \<Rightarrow> outgoing_md" where
  "withNodeID c base = base @ [(nodeIDMetadataKey, cl_nodeID c)]"

definition values_of :: "string \<Rightarrow> outgoing_md \<Rightarrow> string list" where
  "values_of k md = map snd (filter (\<lambda>(k', v). k' = k) md)"

text \<open>
  What gRPC does with it: under the key of the node id the handler's context has the values that were
  sent, in their order. Other keys are the library's business.
\<close>

definition carries_metadata :: "outgoing_md \<Rightarrow> ctx \<Rightarrow> bool" where
  "carries_metadata md c \<longleftrightarrow>
     (\<exists>inc. incoming_md c = Some inc \<and>
        fmlookup inc nodeIDMetadataKey =
          (case values_of nodeIDMetadataKey md of [] \<Rightarrow> None | v # vs \<Rightarrow> Some (v # vs)))"

text \<open>The first value counts: one that the context has already wins over the configured id.\<close>

lemma childNodeID_sent:
  assumes "carries_metadata (withNodeID cl base) c"
  shows "childNodeID c = hd (values_of nodeIDMetadataKey base @ [cl_nodeID cl])"
  using assms
  by (auto simp: carries_metadata_def withNodeID_def childNodeID_def values_of_def split: list.splits)

lemma hook_verdict: "Authorize l c i = None \<longleftrightarrow> i \<noteq> '''' \<and> contains l i \<and> peer_cn c = Some i"
  by (rule al.hook_admits)

text \<open>
  C14. A node is known to its parent by its configured id: where the parent uses an allow list, a
  Downstream call of the node's client is accepted exactly when the configured id is not empty, is on the
  list, and is the common name of the node's certificate; it is then registered under this
  id unless a child is connected under it already, and an envelope sent to the child
  right away lands in the channel of this call. Only a context that carries a node id of its own
  changes that: the parent then sees the first such value and not the configured id.
\<close>

theorem known_by_configured_id:
  assumes "carries_metadata (withNodeID cl base) c" and "server_ok s"
    and "authorizeChild s = Authorize l" and "Downstream_open now c s m = (r, s', m')"
    and "i = (case values_of nodeIDMetadataKey base of [] \<Rightarrow> cl_nodeID cl | v # vs \<Rightarrow> v)"
  shows "if i \<noteq> '''' \<and> contains l i \<and> peer_cn c = Some i
    then \<exists>key ch. r = Inr (key, ch) \<and> (key = i \<longleftrightarrow> fmlookup (children s) i = None) \<and>
      SendToChild key env s' m' =
        (None, s'\<lparr>chans := fmupd ch [env] (chans s')\<rparr>, inc_sent ''downstream'' m')
    else (\<exists>err. r = Inl err) \<and> children s' = children s"
proof -
  have i: "childNodeID c = i"
    using childNodeID_sent [OF assms(1)] assms(5) by (simp split: list.split)
  show ?thesis
  proof (cases "i \<noteq> '''' \<and> contains l i \<and> peer_cn c = Some i")
    case True
    then have none: "authorizeChild s c i = None" by (simp add: assms(3) hook_verdict)
    let ?s = "clearRejection i s"
    obtain key ch s2 where reg: "registerChild i ?s = ((key, ch), s2)" by (metis prod.collapse)
    have "r = Inr (key, ch)" "s' = s2"
      using assms(4) none reg by (auto simp: Downstream_open_def authorize_def Let_def i)
    moreover have "server_ok ?s" using assms(2) by (simp add: server_ok_def clearRejection_def chan_buf_def)
    note registered_child_addressable [OF this reg, of env m']
    moreover have "children ?s = children s" by (simp add: clearRejection_def)
    ultimately show ?thesis using True by auto
  next
    case False
    then obtain err where err: "authorizeChild s c i = Some err"
      using hook_verdict [of l c i] by (auto simp: assms(3))
    from assms(4) err have "(\<exists>err. r = Inl err) \<and> children s' = children s"
      by (auto simp: Downstream_open_def authorize_def recordRejection_def Let_def i)
    with False show ?thesis by auto
  qed
qed

definition leaf_call :: ctx where
  "leaf_call = (claiming ''leaf'')\<lparr>peer_auth := Some (TLSInfo [''leaf''])\<rparr>"

theorem known_by_configured_id_witness:
  "\<exists>ch. fst (Downstream_open 5 leaf_call
       ((srv two_children)\<lparr>authorizeChild := Authorize (newChildAllowList [''leaf''])\<rparr>) initial_metrics) =
     Inr (''leaf'', ch)"
proof -
  let ?l = "newChildAllowList [''leaf'']"
  let ?s = "(srv two_children)\<lparr>authorizeChild := Authorize ?l\<rparr>"
  have c: "carries_metadata (withNodeID (NewClient ''leaf'' None) []) leaf_call"
    by (simp add: carries_metadata_def withNodeID_def values_of_def NewClient_def leaf_call_def claiming_def)
  have ok: "server_ok ?s" using two_children_ok by (simp add: server_ok_def chan_buf_def)
  obtain r s' m' where o: "Downstream_open 5 leaf_call ?s initial_metrics = (r, s', m')" by (rule prod_cases3)
  have "contains ?l ''leaf''" "peer_cn leaf_call = Some ''leaf''"
    by (simp_all add: contains_new leaf_call_def peer_cn_def)
  with known_by_configured_id [OF c ok _ o, of ?l "''leaf''" greeting] show ?thesis
    by (auto simp: o values_of_def NewClient_def two_children_sel)
qed

end
