(* ===== verification/Service_Durability.thy ===== *)
theory Service_Durability
  imports Service_System_Properties
begin

text \<open>
  What the store of a running service keeps, over any number of steps of \<open>Service_System\<close>: the
  service never deletes, and an entry is replaced only by an envelope of the same id.
\<close>

subsection \<open>The store over a step, and over a run\<close>

definition sys_db :: "('d, 'n) svc_sys \<Rightarrow> 'd" where
  "sys_db y = fst (svc_world (sv y))"

definition saves_heard :: "('d, 't) bolt \<Rightarrow> codec \<Rightarrow> ('d, 'n) svc_sys \<Rightarrow> ('d, 'n) svc_sys \<Rightarrow> bool" where
  "saves_heard L C y y' \<longleftrightarrow> heard y \<subseteq> heard y' \<and>
     (sys_db y' = sys_db y \<or> (\<exists>env \<in> heard y'. sys_db y' = snd (Save L C env (sys_db y))))"

lemma saves_heard_frame:
  "svc_frame L C E A (sv y) (sv y') \<Longrightarrow> heard y \<union> E \<subseteq> heard y' \<Longrightarrow> saves_heard L C y y'"
  by (auto simp: saves_heard_def svc_frame_def sys_db_def)

lemma saves_heard_world:
  "heard y \<subseteq> heard y' \<Longrightarrow> fst (svc_world (sv y')) = fst (svc_world (sv y)) \<Longrightarrow> saves_heard L C y y'"
  by (simp add: saves_heard_def sys_db_def)

lemma with_world [simp]:
  "svc_world (sv (with_server s m y)) = svc_world (sv y)"
  "svc_world (sv (with_node (m, n, w) y)) = w"
  by (simp_all add: with_server_def with_node_def)

lemma service_step_saves:
  assumes inv: "running_inv L C dv tv y" and net: "net_frame fst N"
    and step: "service_step L C N html mh y y'"
  shows "saves_heard L C y y'"
  using step
proof (cases rule: service_step.cases)
  case (api rq e r v)
  have "svc_inv L C (bolt_ok L C dv tv) (sv y)" using inv by (simp add: running_inv_def)
  from request_frame [OF this net api(3)]
  have "svc_frame L C (api_heard (ID (svc_node (sv y))) e rq) (api_approved e rq) (sv y) (sv y')"
    by (simp add: api(1))
  then show ?thesis by (rule saves_heard_frame) (simp add: api(1))
next
  case (up_received c ack env mnw)
  have svc: "svc_inv L C (bolt_ok L C dv tv) (sv y)" using inv by (simp add: running_inv_def)
  obtain m n w where mnw: "mnw = (m, n, w)" by (rule prod_cases3)
  have "node_up_hook N c env (inc_received ''upstream'' (svc_metrics (sv y)), svc_node (sv y), svc_world (sv y)) =
      (None, m, n, w)"
    using up_received(3) by (simp add: mnw Let_def split: prod.splits option.splits)
  from up_hook_effect(3) [OF svc net this] show ?thesis
    by (auto simp: saves_heard_def sys_db_def up_received(1) mnw)
next
  case (up_ended c ack err res m n w)
  have "w = svc_world (sv y)" using up_ended(3) by (auto split: if_splits)
  then show ?thesis by (intro saves_heard_world) (simp_all add: up_ended(1))
next
  case (parent_sent env v mnw)
  obtain m n w where mnw: "mnw = (m, n, w)" by (rule prod_cases3)
  have svc: "svc_inv L C (bolt_ok L C dv tv) (sv y)" using inv by (simp add: running_inv_def)
  from site_hook_effect(2) [OF svc parent_sent(3) parent_sent(4) [unfolded mnw]] show ?thesis
    by (auto simp: saves_heard_def sys_db_def parent_sent(1) mnw)
next
  case (reconnect c go c' w')
  have "static_parent (svc_node (sv y))" using inv by (simp add: running_inv_def svc_inv_def)
  from net_frame_reconnect_tick [OF static_parent_net [OF this net] reconnect(3)]
  show ?thesis by (intro saves_heard_world) (simp_all add: reconnect(1))
next
  case (retry_one env envs n' m' w')
  have "static_parent (svc_node (sv y))" using inv by (simp add: running_inv_def svc_inv_def)
  from retry_one_frame(2) [OF retry_one(3) this net] show ?thesis
    by (intro saves_heard_world) (simp_all add: retry_one(1))
next
  case shutdown
  have svc: "svc_inv L C (bolt_ok L C dv tv) (sv y)" using inv by (simp add: running_inv_def)
  from shutdown_inv(2) [OF svc net] have "svc_frame L C {} {} (sv y) (sv y')" by (simp add: shutdown)
  then show ?thesis by (rule saves_heard_frame) (simp add: shutdown)
qed (auto intro!: saves_heard_world)

text \<open>Entries stay under their id, and change only to something that was heard.\<close>

definition store_grows ::
  "codec \<Rightarrow> ('d \<Rightarrow> (string, string) fmap) \<Rightarrow> ('d, 'n) svc_sys \<Rightarrow> ('d, 'n) svc_sys \<Rightarrow> bool"
where
  "store_grows C dv y y' \<longleftrightarrow> heard y \<subseteq> heard y' \<and>
     (\<forall>k env. fmlookup (store_of C (dv (sys_db y))) k = Some env \<longrightarrow>
        (\<exists>env'. fmlookup (store_of C (dv (sys_db y'))) k = Some env' \<and>
           (env' = env \<or> env' \<in> heard y')))"

lemma store_grows_refl: "store_grows C dv y y"
  by (simp add: store_grows_def)

lemma store_grows_trans: "store_grows C dv y y' \<Longrightarrow> store_grows C dv y' y'' \<Longrightarrow> store_grows C dv y y''"
  unfolding store_grows_def by (metis subset_eq subset_trans)

lemma saves_heard_grows:
  assumes "bolt_ok L C dv tv (sys_db y)" and "saves_heard L C y y'"
  shows "store_grows C dv y y'"
proof (cases "sys_db y' = sys_db y")
  case True
  with assms(2) show ?thesis by (simp add: saves_heard_def store_grows_def)
next
  case False
  then obtain env where env: "env \<in> heard y'" "sys_db y' = snd (Save L C env (sys_db y))"
    using assms(2) by (auto simp: saves_heard_def)
  obtain e d where s: "Save L C env (sys_db y) = (e, d)" by (rule prod.exhaust)
  have "store_of C (dv d) = (if e = None then fmupd (EnvId env) env (store_of C (dv (sys_db y)))
      else store_of C (dv (sys_db y)))"
    using bolt.save_ok [OF assms(1)] bolt.save_failed [OF assms(1)] s by (cases e) auto
  with env s assms(2) show ?thesis by (auto simp: saves_heard_def store_grows_def)
qed

lemma service_run_grows:
  assumes "(service_step L C N html mh)\<^sup>*\<^sup>* y y'" and "service_reach L C dv tv N html mh y"
    and "net_frame fst N"
  shows "service_reach L C dv tv N html mh y' \<and> store_grows C dv y y'"
  using assms(1)
proof (induction rule: rtranclp_induct)
  case base
  show ?case by (simp add: assms(2) store_grows_refl)
next
  case (step y1 y2)
  have inv: "running_inv L C dv tv y1" using service_reach_inv [OF assms(3)] step.IH by blast
  then have "bolt_ok L C dv tv (sys_db y1)" by (simp add: running_inv_def svc_inv_def sys_db_def)
  from saves_heard_grows [OF this service_step_saves [OF inv assms(3) step.hyps(2)]]
  show ?case using step service_reach.stepped store_grows_trans by blast
qed

subsection \<open>The property\<close>

text \<open>
  C17. Nothing that was ever listed is lost: whatever the service does after an envelope was in the
  answer of a query (requests, envelopes from below and above, the loops, the shutdown), its id
  stays in the store, under the envelope itself or under one with the same id that a storing handler
  was run on; with no other envelope of this id it is unchanged, and every later query that it
  matches and that succeeds lists it.
\<close>

theorem stored_entry_stays:
  assumes "service_reach L C dv tv N html mh y" and "net_frame fst N"
    and "Query L C q (fst (svc_world (sv y))) = (rs, None)" and "env \<in> set rs"
    and "(service_step L C N html mh)\<^sup>*\<^sup>* y y'"
  shows "\<exists>env' \<in> heard y'. EnvId env' = EnvId env \<and>
    (env' = env \<or> (\<exists>other \<in> heard y'. other \<noteq> env \<and> EnvId other = EnvId env)) \<and>
    (\<forall>q' rs'. Query L C q' (fst (svc_world (sv y'))) = (rs', None) \<longrightarrow> (env' \<in> set rs' \<longleftrightarrow> matches q' env'))"
proof -
  note run = service_run_grows [OF assms(5,1,2)]
  from service_reach_inv [OF assms(2,1)] service_reach_inv [OF assms(2) run [THEN conjunct1]]
  have ok: "bolt_ok L C dv tv (sys_db y)" "bolt_ok L C dv tv (sys_db y')" and audit: "audit_ok C dv y'"
    by (simp_all add: running_inv_def svc_inv_def sys_db_def)
  have "fmlookup (store_of C (dv (sys_db y))) (EnvId env) = Some env"
    using bolt.query_ok [OF ok(1) assms(3) [folded sys_db_def]] assms(4) by blast
  with run obtain env' where e: "fmlookup (store_of C (dv (sys_db y'))) (EnvId env) = Some env'"
    "env' = env \<or> env' \<in> heard y'" unfolding store_grows_def by blast
  have i: "EnvId env' = EnvId env" by (rule bolt.keyed [OF ok(2) e(1)])
  have h: "env' \<in> heard y'" using audit e(1) unfolding audit_ok_def sys_db_def by blast
  have "env' \<in> set rs' \<longleftrightarrow> matches q' env'"
    if "Query L C q' (fst (svc_world (sv y'))) = (rs', None)" for q' rs'
    using bolt.query_ok [OF ok(2) that [folded sys_db_def]] e(1) i by auto
  with h i show ?thesis by blast
qed

text \<open>An agent's entry is still listed after the shutdown of the node.\<close>

theorem stored_entry_stays_witness:
  "\<exists>y y' env rs. demo_reach y \<and> service_step demo_bolt demo_codec (second_net demo_net) [] (\<lambda>_ w. w) y y' \<and>
     Kind env = kindLog \<and> Payload env = ''hello'' \<and> env \<in> heard y' \<and>
     Query demo_bolt demo_codec \<lparr>fKind = kindLog, Since = 0\<rparr> (fst (svc_world (sv y'))) = (rs, None) \<and>
     (env \<in> set rs \<or> (\<exists>other \<in> heard y'. other \<noteq> env \<and> EnvId other = EnvId env))"
proof -
  let ?rq = "demo_request ''hello''"
  let ?q = "\<lparr>fKind = kindLog, Since = 0\<rparr>"
  let ?step = "service_step demo_bolt demo_codec (second_net demo_net) [] (\<lambda>_ w. w)"
  obtain y0 where y0: "demo_reach y0" "sv y0 = demo_service" using demo_started by blast
  obtain r v where post: "handleAgentLog (second_net demo_net) ?rq demo_service new_response = (r, v)" by fastforce
  then have req: "serve_request demo_bolt demo_codec (second_net demo_net) [] (\<lambda>_ w. w) AgentLog ?rq (sv y0) = (r, v)"
    by (simp add: serve_request_def y0(2))
  define y where "y = y0\<lparr>sv := v, heard := heard y0 \<union> api_heard (ID (svc_node (sv y0))) AgentLog ?rq,
      ever := ever y0 \<union> api_approved AgentLog ?rq\<rparr>"
  have y: "demo_reach y"
    using service_reach.stepped [OF y0(1) service_step.api [OF _ req]] by (simp add: y_def y0(2) demo_orders_ok)
  define env where "env = newEnvelope (ID (svc_node demo_service)) kindLog ''hello'' (now1 ?rq) (now2 ?rq)"
  have p: "rq_decode ?rq ''payload'' = Inr ''hello''" by (simp add: demo_request_def)
  have db: "fst (svc_world (sv y)) = snd (Save demo_bolt demo_codec env (fst (svc_world demo_service)))"
    using handleAgentLog_eq(2) [OF demo_service_inv(1) second_net_frame p post] by (simp add: y_def env_def)
  have ok: "demo_store_ok (fst (svc_world (sv u)))" if "demo_reach u" for u
    using service_reach_inv [OF second_net_frame that] by (simp add: running_inv_def svc_inv_def)
  obtain rs where q: "Query demo_bolt demo_codec ?q (fst (svc_world (sv y))) = (rs, None)"
    using demo_Query_nil [OF ok [OF y]] by blast
  have "Save demo_bolt demo_codec env (fst (svc_world demo_service)) = (None, fst (svc_world (sv y)))"
    unfolding db by (simp add: demo_Save)
  then have env: "env \<in> set rs"
    using bolt.saved_found [OF svc_invD(6) [OF demo_service_inv(1)] _ q] by (simp add: matches_def env_def)
  define y' where "y' = y\<lparr>sv := service_shutdown (second_net demo_net) (sv y)\<rparr>"
  have st: "?step y y'" unfolding y'_def by (rule service_step.shutdown)
  obtain rs' where q': "Query demo_bolt demo_codec ?q (fst (svc_world (sv y'))) = (rs', None)"
    using demo_Query_nil [OF ok [OF service_reach.stepped [OF y st]]] by blast
  have m: "matches ?q env" "Kind env = kindLog" "Payload env = ''hello''" by (simp_all add: matches_def env_def)
  have "env \<in> heard y'" by (simp add: y'_def y_def api_heard_def demo_request_def env_def y0(2))
  moreover from st have "?step\<^sup>*\<^sup>* y y'" by simp
  from stored_entry_stays [OF y second_net_frame q env this] q' m(1)
  have "env \<in> set rs' \<or> (\<exists>other \<in> heard y'. other \<noteq> env \<and> EnvId other = EnvId env)" by blast
  ultimately show ?thesis using y st m q' by blast
qed

end
