(* ===== verification/Agent_Live.thy ===== *)
theory Agent_Live
  imports Service_Durability
begin

text \<open>
  An agent of \<open>examples/agent/main.go\<close> against a running service: between two of its requests the
  service does whatever it does (\<open>others\<close>, any number of steps of \<open>Service_System\<close> that may depend on
  the state), and the request itself is one more step.
\<close>

subsection \<open>Posting to a running service\<close>








subsection \<open>All ticks\<close>


subsection \<open>The property\<close>




end
