(* ===== verification/Spec2Isabelle.thy ===== *)
theory Spec2Isabelle
  imports Server_Properties Client_Properties Node_Properties Tree_Properties Lock_Properties
    Service_Properties Service_System_Properties Gencert_Properties Api_Types Loop_Properties
    Chain_System Down_Delivery Handshake Agent_Live
begin

text \<open>
  \<^bold>\<open>A verification library for multi-region\<close>

  The program is a framework for trees of nodes (\<open>node\<close>, \<open>transport\<close>, \<open>auth\<close>, \<open>resolver\<close>,
  \<open>metrics\<close>) and an example service on top of it (\<open>examples/node\<close>, \<open>examples/agent\<close>,
  \<open>examples/checkdb\<close>, and \<open>examples/gencert\<close> for its certificates). A node accepts children (its \<open>transport.Server\<close>), connects to a parent
  (its \<open>transport.Client\<close>), or both; it moves opaque envelopes up, queueing in memory what it
  cannot send, and down, by broadcast or to one child. The service adds handlers that store what
  passes through, a REST API, and a list of the children it admits.

  \<^bold>\<open>Theories and the code they model\<close> (paths under \<open>src/\<close>)

  \<^item> \<open>Prelude\<close>: errors as values, decimal numbers and their parser, maps and the order in which
    a Go map is visited.
  \<^item> \<open>Envelope\<close>, \<open>Pending_Queue\<close>: \<open>node/pending.go\<close> and the message of \<open>proto/node.proto\<close>.
    The contract of the queue is the locale \<open>outbox\<close>.
  \<^item> \<open>Metrics\<close>: \<open>metrics/metrics.go\<close>, a record threaded through all operations.
  \<^item> \<open>Resolver_Auth\<close>: \<open>resolver/resolver.go\<close> and \<open>auth/auth.go\<close>; the contract of a resolver
    is the locale \<open>parent_resolver\<close>.
  \<^item> \<open>Go_Chan\<close>, \<open>Server\<close>: \<open>transport/server.go\<close>. The record \<open>server\<close> has the fields of the
    struct plus the store of the channels; each method is one definition, the two RPC handlers
    are split into their opening, one turn of their loop and their deferred cleanup. The hook
    \<open>onUpstream\<close> is an argument. The contract of a buffered channel is the locale
    \<open>bounded_fifo\<close>.
  \<^item> \<open>Client\<close>: \<open>transport/client.go\<close>. All that the client calls (resolver, gRPC, context) is
    the record \<open>grpc\<close> of functions on a world of type \<open>'w\<close>; a reopening is split at the points
    where the code releases the lock.
  \<^item> \<open>Node\<close>: \<open>node/node.go\<close> and \<open>node/options.go\<close>.
  \<^item> \<open>Background_Loops\<close>: \<open>reconnectLoop\<close> and \<open>retryLoop\<close> as whole loops, which may run forever; their
    single turns are in \<open>Client\<close> and \<open>Node\<close>.
  \<^item> \<open>Lock_Discipline\<close>, \<open>Program_Locks\<close>: the goroutines of a running service, one definition
    \<open>..._locks\<close> per function of \<open>transport\<close>, \<open>node\<close> and \<open>examples/node\<close> with the mutexes it takes, the
    shared fields it touches and the goroutines it starts, over a generic theory of such
    programs with the locale \<open>lock_discipline\<close>. \<open>node_hooks\<close> gives it for a node with any handlers
    that keep to it, also ones that call back into the node.
  \<^item> \<open>Handshake\<close>: the node id from \<open>withNodeID\<close> of the client to \<open>childNodeID\<close> of the server.
  \<^item> \<open>Allow_List\<close>, \<open>Service_Config\<close>, \<open>Bolt_Store\<close>, \<open>Http_Api\<close>: \<open>examples/node\<close>, one theory
    per file (\<open>allowlist.go\<close>, \<open>config.go\<close> and the start of \<open>main.go\<close>, \<open>storage\<close>, the API in
    \<open>main.go\<close>). The contracts are the locales \<open>child_policy\<close> and \<open>envelope_store\<close>.
  \<^item> \<open>Agent\<close>: \<open>examples/agent/main.go\<close> and \<open>examples/checkdb/main.go\<close>, and the agent composed
    with an otherwise idle service; \<open>Agent_Live\<close> composes it with a running one.
  \<^item> \<open>Gencert\<close>: \<open>examples/gencert/main.go\<close> and \<open>auth/testutil.go\<close>, as programs that may exit,
    over a record of library calls (clock, keys, signing, files).
  \<^item> \<open>Service_System\<close>: \<open>main\<close> of \<open>examples/node/main.go\<close> from the command line to the running
    service and the stop of its node, and the running service as a whole.

  \<^bold>\<open>Concurrency\<close>. The sequential definitions are the critical sections of the code; that the code
  keeps to them, one field access after the other, is what \<open>Lock_Properties\<close> shows. Six
  inductive step relations interleave them without any fairness or bound: \<open>Server_System\<close> (all
  handlers and senders of a server), \<open>Client_System\<close> (reopenings, reconnect loop, receive
  loops, senders, \<open>Close\<close>), \<open>Node_Retry\<close> (the retry loop, senders, and an environment that
  changes the client at will), \<open>Chain_System\<close> (a chain of such nodes up to the root, with what is
  in flight between them and streams that break), \<open>Down_System\<close> (any number of nodes, each with its
  \<open>Server_System\<close>, and what their receive loops take from the streams) and \<open>Service_System\<close> (the requests of the API, the calls of the
  children, the messages of the parent, the reconnect loop, the retry loop one envelope at a
  time, and the stop of the node). Their states carry history fields the code does not have
  (\<open>wire\<close>, \<open>put\<close>, \<open>accepted\<close>, \<open>lost\<close>, \<open>entered\<close>, \<open>arrived\<close>, \<open>cut\<close>, \<open>log\<close>, \<open>heard\<close>, \<open>ever\<close>, the ledger of sends).

  \<^bold>\<open>What the lemmas show\<close>

  \<^item> \<open>Server_Facts\<close>, \<open>Server_System\<close>: well-formedness of the server is kept by every
    operation; the exact effect of a broadcast; the specification of the pending children; the
    invariants of the system (channels are first-in first-out onto the stream, child entries
    belong to live handlers, gauges count handlers, keys are distinct unless a child claims a
    synthetic one).
  \<^item> \<open>Client_Facts\<close>, \<open>Client_System\<close>: what reopening changes, what one call of \<open>SendUpstream\<close>
    puts on the wire, who owns each open connection, that the upstream stream is never cleared.
  \<^item> \<open>Node_Facts\<close>, \<open>Node_Retry\<close>: forwarding, one retry pass, conservation of envelopes, and
    that the sequential pass is a run of the concurrent system.
  \<^item> \<open>Background_Loops\<close>: when the two loops return, and when they do not.
  \<^item> \<open>Node_Tree\<close>, \<open>Node_Path\<close>: nodes put together, in one schedule. Downwards, a tree of nodes with
    streams that do not fail, in which what the Downstream handlers of a node send is what the
    receive loops of its children get; the envelopes come in batches of at most 16 between two turns
    of the handlers of the children, which is what their channels hold. Upwards, a path of nodes
    without retry passes, in which the Upstream handler of the parent receives in order what a client
    has sent, less what breaking streams lose.
  \<^item> \<open>Chain_System\<close>, \<open>Down_System\<close>, \<open>Down_Delivery\<close>: the same ways under concurrency. Upwards, each
    node runs as it does alone (\<open>chain_sites_reach\<close>) and envelopes are conserved from end to end.
    Downwards, streams keep the order of what was offered, and a burst that the channels hold
    arrives everywhere below, on streams that come to rest; \<open>relay_once\<close> is how they do.
    \<open>site_hook\<close> and \<open>node_up_hook\<close> are the hooks with which \<open>Start\<close> makes the client and the server.
  \<^item> \<open>Service_Facts\<close>: the invariant of the service, kept by every request, established by a
    start that cannot fail once the configuration has loaded.
  \<^item> \<open>Service_System\<close>: the invariant of the running service. All steps but the registration and
    the removal of a child stay within one frame (\<open>svc_frame\<close>), for which it is proved once;
    and that the gauges count its calls.
  \<^item> \<open>Api_Types\<close>: the types of the answers of the API, endpoint by endpoint, and that the handlers
    keep to them.
  \<^item> \<open>Service_Durability\<close>: the store over a step and over a run of the running service.
  \<^item> \<open>Lock_Discipline\<close>: code that takes its mutexes in increasing order and touches guarded
    fields under their guards, an executable check, neither deadlocks nor races in any
    interleaving; nor does a field race that is written only before the first goroutine starts.
    \<open>sched\<close> runs a given schedule.
  \<^item> \<open>Gencert\<close>: which files a successful run leaves, and what their certificates say.
  \<^item> \<open>Server_Properties\<close>, \<open>Client_Properties\<close>, \<open>Node_Properties\<close>, \<open>Tree_Properties\<close>,
    \<open>Service_Properties\<close>, \<open>Service_System_Properties\<close>, \<open>Gencert_Properties\<close>, \<open>Loop_Properties\<close>, \<open>Lock_Properties\<close>, and the last
    sections of \<open>Chain_System\<close>, \<open>Down_System\<close>, \<open>Down_Delivery\<close>, \<open>Handshake\<close>, \<open>Api_Types\<close>, \<open>Service_Durability\<close> and \<open>Agent_Live\<close>: the properties of
    the program, C1 to C40, each with its statement
    in words and, where it has hypotheses, a witness on concrete data. The properties C29 to C32 and C34 to C39 (and C11 on the content type, C40 on
    values that wrap) record behaviour that the code's comments or its evident intent do not have.

  \<^bold>\<open>Assumptions on code outside the repository\<close>, all named in the statements that use them:
  \<open>grpc_ledger\<close> (which connections gRPC has open), \<open>net_frame\<close> (the network does not touch the
  database), \<open>carries_metadata\<close> (gRPC delivers the values of a metadata key in order), \<open>log_blind\<close> (the
  resolver does not touch the ledger), \<open>bolt_laws\<close> and
  \<open>codec_law\<close> (bbolt transactions and the protobuf round trip), \<open>fs_law\<close>, \<open>issue_law\<close> and \<open>loads\<close>
  (files are what was written, certificates say what was signed and load again), \<open>range_order\<close> (a Go map is
  visited once per key). A successful \<open>Send\<close> means only that gRPC accepted the message.

  \<^bold>\<open>Bounds\<close>. Channels hold 16 envelopes, as in the code. The sequence number of synthetic keys
  is a 64-bit word; C20 assumes fewer than \<open>2^63\<close> connections. The agent's interval is a 64-bit
  word whose product wraps. There is no fuel: every loop is a recursion over the work that is
  left, except the two background loops, which are partial functions with the value \<open>None\<close> when
  they do not return.

  \<^bold>\<open>Not modelled\<close>: logging, durations and tickers (a tick may come at any time), the JSON
  text, the parsing of flags, the HTTP server itself, the generated protobuf code, the dashboard
  page, and tests. Of the context that \<open>Connect\<close> stores only its end is modelled; that \<open>net/http\<close>
  guesses a content type where the code sets none is left out. A call of \<open>authorize\<close> and a request
  of the API are one step of the systems, although the code takes the mutex several times in
  them. A \<open>Send\<close> that fails on the way down counts as sent, and need not arrive. What handlers do that call back into their node is modelled only as far as
  locks go (\<open>node_hooks\<close>). The order in which the parts of \<open>Start\<close> and the goroutines that it
  starts touch the two unguarded fields is in C31, C32 and C37 only: the larger systems begin
  after \<open>Start\<close> has returned.
\<close>

end
